(* ===== verification/Trading_Prelude.thy ===== *)
theory Trading_Prelude
  imports Complex_Main "HOL-Library.Word" "HOL-Library.Multiset"
begin

text \<open>
  The shared base of the development: the machine integer types of the C++ sources, the
  named collections that carry the component proofs, and the generic facts about words and
  lists that several components use.

  \<^item> \<open>std::uint8_t\<close>, \<open>std::uint32_t\<close>, \<open>std::uint64_t\<close> are \<open>8 word\<close>, \<open>32 word\<close>, \<open>64 word\<close>:
    arithmetic on them wraps around as it does in the code.
  \<^item> \<open>std::int64_t\<close> is \<open>int\<close>. Signed overflow is undefined in C++, so the model does not wrap;
    that every value the code computes stays in the range \<open>in_i64\<close> is proved where it matters.
  \<^item> \<open>std::size_t\<close> used as an index or a length of a vector is \<open>nat\<close>; where the code does
    bit arithmetic on it (the ring buffers) it is \<open>64 word\<close>.
\<close>

unbundle bit_operations_syntax

type_synonym u8 = "8 word"
type_synonym u32 = "32 word"
type_synonym u64 = "64 word"
type_synonym i64 = int

named_theorems producer_defs \<open>the steps of a producing thread\<close>
named_theorems consumer_defs \<open>the steps of a consuming thread\<close>
named_theorems owner_defs \<open>the steps of the thread that configures, starts and stops the others\<close>

definition in_i64 :: "int \<Rightarrow> bool" where
  "in_i64 x \<longleftrightarrow> - (2 ^ 63) \<le> x \<and> x < 2 ^ 63"

abbreviation INT64_MAX :: int where "INT64_MAX \<equiv> 9223372036854775807"
abbreviation INT64_MIN :: int where "INT64_MIN \<equiv> - 9223372036854775808"
abbreviation UINT64_MAX :: u64 where "UINT64_MAX \<equiv> 18446744073709551615"

subsection \<open>Words\<close>

lemma unat_min [simp]: "unat (min a b) = min (unat a) (unat b)" for a b :: "'a::len word"
  by (simp add: min_def word_le_nat_alt)

lemma unat_minus_le: "b \<le> a \<Longrightarrow> unat (a - b) = unat a - unat b" for a b :: "'a::len word"
  by (rule unat_sub)

lemma unat_diff_min:
  "unat (a - min a b) = unat a - min (unat a) (unat b)"
  "unat (b - min a b) = unat b - min (unat a) (unat b)" for a b :: "'a::len word"
  by (simp_all add: unat_minus_le)

lemma word_gt_0_unat: "(0 < a) = (0 < unat a)" for a :: "'a::len word"
  by (simp add: word_less_nat_alt)

lemma word_eq_0_unat: "(a = 0) = (unat a = 0)" for a :: "'a::len word"
  by (simp add: unat_eq_zero)

lemma diff_min_eq_0_iff: "a - min a b = 0 \<longleftrightarrow> a \<le> b" for a b :: "'a::len word"
  by (auto simp: min_def)

lemma unat_u32_less [simp]: "unat (x :: u32) < 4294967296"
  using unsigned_less [of x, where 'a = nat] by simp

lemma unat_u64_less [simp]: "unat (x :: u64) < 18446744073709551616"
  using unsigned_less [of x, where 'a = nat] by simp

lemma unat_ucast_32_64 [simp]: "unat (ucast (x :: u32) :: u64) = unat x"
  using unat_u32_less [of x]
  by (simp add: unsigned_ucast_eq take_bit_nat_eq_self_iff del: unat_u32_less)

lemma u64_plus1_eq_0: "x + 1 = 0 \<longleftrightarrow> x = (-1 :: u64)"
  using eq_neg_iff_add_eq_0 [of x 1] by simp

subsection \<open>Lists\<close>

text \<open>\<open>std::vector::erase\<close> at one position, and \<open>std::vector::insert\<close> before a position.\<close>

definition list_erase :: "nat \<Rightarrow> 'a list \<Rightarrow> 'a list" where
  "list_erase i xs = take i xs @ drop (Suc i) xs"

definition list_insert :: "nat \<Rightarrow> 'a \<Rightarrow> 'a list \<Rightarrow> 'a list" where
  "list_insert i x xs = take i xs @ x # drop i xs"

lemma list_erase_Nil [simp]: "list_erase i [] = []"
  by (simp add: list_erase_def)

lemma list_erase_0 [simp]: "list_erase 0 (x # xs) = xs"
  by (simp add: list_erase_def)

lemma list_erase_Suc [simp]: "list_erase (Suc i) (x # xs) = x # list_erase i xs"
  by (simp add: list_erase_def)

lemma length_list_erase [simp]: "i < length xs \<Longrightarrow> length (list_erase i xs) = length xs - 1"
  by (simp add: list_erase_def)

lemma set_list_erase_subset: "set (list_erase i xs) \<subseteq> set xs"
  by (auto simp: list_erase_def dest: in_set_takeD in_set_dropD)

lemma in_set_list_eraseD: "x \<in> set (list_erase i xs) \<Longrightarrow> x \<in> set xs"
  using set_list_erase_subset by fast

lemma list_erase_map: "list_erase i (map f xs) = map f (list_erase i xs)"
  by (simp add: list_erase_def take_map drop_map)

lemma mset_list_erase:
  "i < length xs \<Longrightarrow> mset xs = add_mset (xs ! i) (mset (list_erase i xs))"
proof -
  assume i: "i < length xs"
  have "mset xs = mset (take i xs @ xs ! i # drop (Suc i) xs)"
    using i by (simp only: id_take_nth_drop [symmetric])
  then show ?thesis by (simp add: list_erase_def)
qed

lemma distinct_list_erase: "distinct xs \<Longrightarrow> distinct (list_erase i xs)"
  by (auto simp: list_erase_def distinct_append set_take_disj_set_drop_if_distinct)

lemma sorted_wrt_list_erase: "sorted_wrt P xs \<Longrightarrow> sorted_wrt P (list_erase i xs)"
  by (induction xs arbitrary: i; case_tac i) (auto dest: in_set_list_eraseD)

lemma list_erase_eq_Nil_iff: "i < length xs \<Longrightarrow> list_erase i xs = [] \<longleftrightarrow> length xs = 1"
  by (cases xs) (auto simp: list_erase_def)

lemma nth_list_erase:
  "k < length xs - 1 \<Longrightarrow> i < length xs \<Longrightarrow> list_erase i xs ! k = (if k < i then xs ! k else xs ! Suc k)"
  by (auto simp: list_erase_def nth_append)

lemma nth_notin_list_erase:
  assumes "distinct xs" and "i < length xs"
  shows "xs ! i \<notin> set (list_erase i xs)"
proof -
  have "distinct (take i xs @ xs ! i # drop (Suc i) xs)"
    using assms by (simp only: id_take_nth_drop [symmetric])
  then show ?thesis by (auto simp: list_erase_def)
qed

lemma mset_list_insert [simp]: "mset (list_insert i x xs) = add_mset x (mset xs)"
  by (simp add: list_insert_def)
     (metis append_take_drop_id mset_append)

lemma set_list_insert [simp]: "set (list_insert i x xs) = insert x (set xs)"
  by (metis mset_list_insert set_mset_mset set_mset_add_mset_insert)

lemma list_update_split:
  "i < length xs \<Longrightarrow> xs[i := y] = take i xs @ y # drop (Suc i) xs"
  by (rule upd_conv_take_nth_drop)

lemma sorted_wrt_list_update:
  assumes "sorted_wrt P xs" and "i < length xs"
    and "\<And>z. P z (xs ! i) \<Longrightarrow> P z y" and "\<And>z. P (xs ! i) z \<Longrightarrow> P y z"
  shows "sorted_wrt P (xs[i := y])"
  using assms by (auto simp: sorted_wrt_iff_nth_less nth_list_update)

lemma find_append:
  "List.find P (xs @ ys) = (case List.find P xs of None \<Rightarrow> List.find P ys | Some x \<Rightarrow> Some x)"
  by (induction xs) auto

subsection \<open>Reachable states, and threads that finish\<close>

lemma rtranclp_invariant: "r\<^sup>*\<^sup>* s s' \<Longrightarrow> I s \<Longrightarrow> (\<And>a b. r a b \<Longrightarrow> I a \<Longrightarrow> I b) \<Longrightarrow> I s'"
  by (induction rule: rtranclp_induct) auto

text \<open>
  What a client that waits for a thread relies on: while an invariant holds the thread has a step that keeps the invariant and
  leaves less work, until it has finished.
\<close>

locale draining =
  fixes step :: "'s \<Rightarrow> 's \<Rightarrow> bool" and inv :: "'s \<Rightarrow> bool" and finished :: "'s \<Rightarrow> bool" and work :: "'s \<Rightarrow> nat"
  assumes progress: "inv s \<Longrightarrow> \<not> finished s \<Longrightarrow> \<exists>s'. step s s' \<and> inv s' \<and> work s' < work s"
begin

lemma finishes: "inv s \<Longrightarrow> \<exists>s'. step\<^sup>*\<^sup>* s s' \<and> inv s' \<and> finished s'"
proof (induction "work s" arbitrary: s rule: less_induct)
  case less
  show ?case
  proof (cases "finished s")
    case False
    then obtain s1 where s1: "step s s1" "inv s1" "work s1 < work s" using progress less.prems by blast
    then show ?thesis using less.hyps by (meson converse_rtranclp_into_rtranclp)
  qed (use less.prems in blast)
qed

end

text \<open>The stronger contract of a thread that cannot be led astray: every step it takes leaves less work.\<close>

locale terminating =
  fixes step :: "'s \<Rightarrow> 's \<Rightarrow> bool" and inv :: "'s \<Rightarrow> bool" and finished :: "'s \<Rightarrow> bool" and work :: "'s \<Rightarrow> nat"
  assumes keeps: "inv s \<Longrightarrow> step s s' \<Longrightarrow> inv s'"
    and decreases: "inv s \<Longrightarrow> step s s' \<Longrightarrow> work s' < work s"
    and enabled: "inv s \<Longrightarrow> \<not> finished s \<Longrightarrow> \<exists>s'. step s s'"
begin

lemma bounded_run: "inv s \<Longrightarrow> (step ^^ n) s s' \<Longrightarrow> inv s' \<and> n + work s' \<le> work s"
proof (induction n arbitrary: s')
  case (Suc n)
  then obtain s1 where 1: "(step ^^ n) s s1" "step s1 s'" by auto
  have "inv s1" "n + work s1 \<le> work s" using Suc.IH [OF Suc.prems(1) 1(1)] by auto
  then show ?case using keeps [OF _ 1(2)] decreases [OF _ 1(2)] by fastforce
qed simp

lemma never_stuck: "inv s \<Longrightarrow> step\<^sup>*\<^sup>* s s' \<Longrightarrow> inv s' \<and> (finished s' \<or> (\<exists>s''. step s' s''))"
  using rtranclp_invariant [of step s s' inv] keeps enabled by blast

end

sublocale terminating \<subseteq> draining
  by unfold_locales (use enabled keeps decreases in blast)

end
