(* ===== verification/IEEE_Double.thy ===== *)
theory IEEE_Double
  imports Trading_Prelude "HOL-Library.Log_Nat"
begin

text \<open>
  The C++ type \<open>double\<close> as the sources use it: IEEE 754 binary64 values, their comparisons
  (a NaN is unordered with everything, itself included), the classification functions of
  \<open><cmath>\<close>, the four arithmetic operations rounded to nearest (ties to even), and the
  conversions between \<open>double\<close> and \<open>std::int64_t\<close>.

  A finite value is a rational number. The type admits rationals that are not representable
  in binary64; what is proved for every finite value holds for the representable ones in
  particular, and every value the arithmetic below returns is rounded. The two zeros are
  one value: no code under \<open>src/\<close> distinguishes them.
\<close>

datatype double = Fin rat | PInf | NInf | NaN

subsection \<open>Comparison and classification\<close>

fun d_lt :: "double \<Rightarrow> double \<Rightarrow> bool" where
  "d_lt (Fin a) (Fin b) = (a < b)"
| "d_lt (Fin _) PInf = True"
| "d_lt NInf (Fin _) = True"
| "d_lt NInf PInf = True"
| "d_lt _ _ = False"

fun d_eq :: "double \<Rightarrow> double \<Rightarrow> bool" where
  "d_eq (Fin a) (Fin b) = (a = b)"
| "d_eq PInf PInf = True"
| "d_eq NInf NInf = True"
| "d_eq _ _ = False"

definition d_le :: "double \<Rightarrow> double \<Rightarrow> bool" where
  "d_le a b \<longleftrightarrow> d_lt a b \<or> d_eq a b"

definition d_gt :: "double \<Rightarrow> double \<Rightarrow> bool" where
  "d_gt a b \<longleftrightarrow> d_lt b a"

fun isnan :: "double \<Rightarrow> bool" where
  "isnan NaN = True"
| "isnan _ = False"

fun isinf :: "double \<Rightarrow> bool" where
  "isinf PInf = True"
| "isinf NInf = True"
| "isinf _ = False"

fun isfinite :: "double \<Rightarrow> bool" where
  "isfinite (Fin _) = True"
| "isfinite _ = False"

fun_cases isfiniteE: "isfinite d"

text \<open>The price test the sources repeat: finite and strictly positive.\<close>

definition pos_finite :: "double \<Rightarrow> bool" where
  "pos_finite p \<longleftrightarrow> isfinite p \<and> \<not> d_le p (Fin 0)"

lemma d_le_Fin [simp]: "d_le (Fin a) (Fin b) = (a \<le> b)"
  by (auto simp: d_le_def)

lemma d_gt_Fin [simp]: "d_gt (Fin a) (Fin b) = (b < a)"
  by (simp add: d_gt_def)

lemma d_eq_Fin_iff: "isfinite a \<Longrightarrow> d_eq a b \<longleftrightarrow> a = b"
  by (cases a; cases b) auto

lemma isfinite_conv: "isfinite d \<longleftrightarrow> \<not> isnan d \<and> \<not> isinf d"
  by (cases d) auto

lemma pos_finite_Fin [simp]: "pos_finite (Fin a) = (0 < a)"
  by (auto simp: pos_finite_def)

lemma pos_finiteE:
  assumes "pos_finite p"
  obtains a where "p = Fin a" and "0 < a"
  using assms by (cases p) (auto simp: pos_finite_def)

lemma pos_finite_isfinite: "pos_finite p \<Longrightarrow> isfinite p"
  by (simp add: pos_finite_def)

lemma d_lt_irrefl [simp]: "\<not> d_lt a a"
  by (cases a) auto

lemma d_lt_trans: "d_lt a b \<Longrightarrow> d_lt b c \<Longrightarrow> d_lt a c"
  by (cases a; cases b; cases c) auto

lemma d_lt_asym: "d_lt a b \<Longrightarrow> \<not> d_lt b a"
  by (cases a; cases b) auto

lemma d_le_not_lt: "isfinite a \<Longrightarrow> isfinite b \<Longrightarrow> d_le a b \<longleftrightarrow> \<not> d_lt b a"
  by (cases a; cases b) auto

lemma d_lt_linear: "isfinite a \<Longrightarrow> isfinite b \<Longrightarrow> d_lt a b \<or> a = b \<or> d_lt b a"
  by (cases a; cases b) auto

lemma d_not_lt_trans:
  "isfinite a \<Longrightarrow> isfinite b \<Longrightarrow> isfinite c \<Longrightarrow> \<not> d_lt a b \<Longrightarrow> \<not> d_lt b c \<Longrightarrow> \<not> d_lt a c"
  by (cases a; cases b; cases c) auto

subsection \<open>Rounding to nearest, ties to even\<close>

text \<open>
  \<open>ilog2 x\<close> is the binary exponent of a positive rational. \<open>rnd\<close> rounds a rational to the
  nearest multiple of the unit in the last place: 53 significant bits, no exponent below
  \<open>-1074\<close>, infinity from \<open>2 ^ 1024\<close> on.
\<close>

definition ilog2 :: "rat \<Rightarrow> int" where
  "ilog2 x = (let (n, d) = quotient_of x; k = bitlen n - bitlen d
     in if x < 2 powi k then k - 1 else k)"

definition round_even :: "rat \<Rightarrow> int" where
  "round_even x = (let f = \<lfloor>x\<rfloor>; r = x - of_int f in
     if r < 1/2 then f else if 1/2 < r then f + 1 else if even f then f else f + 1)"

definition rnd :: "rat \<Rightarrow> double" where
  "rnd x = (if x = 0 then Fin 0 else
     let e = max (ilog2 \<bar>x\<bar> - 52) (-1074);
         y = of_int (round_even (x / 2 powi e)) * 2 powi e
     in if 2 powi 1024 \<le> y then PInf else if y \<le> - (2 powi 1024) then NInf else Fin y)"

definition d_neg :: "double \<Rightarrow> double" where
  "d_neg a = (case a of Fin x \<Rightarrow> Fin (- x) | PInf \<Rightarrow> NInf | NInf \<Rightarrow> PInf | NaN \<Rightarrow> NaN)"

fun d_add :: "double \<Rightarrow> double \<Rightarrow> double" where
  "d_add (Fin a) (Fin b) = rnd (a + b)"
| "d_add NaN _ = NaN"
| "d_add _ NaN = NaN"
| "d_add PInf NInf = NaN"
| "d_add NInf PInf = NaN"
| "d_add PInf _ = PInf"
| "d_add NInf _ = NInf"
| "d_add _ PInf = PInf"
| "d_add _ NInf = NInf"

definition d_sub :: "double \<Rightarrow> double \<Rightarrow> double" where
  "d_sub a b = d_add a (d_neg b)"

definition d_sgn :: "double \<Rightarrow> int" where
  "d_sgn a = (case a of Fin x \<Rightarrow> (if x < 0 then -1 else if 0 < x then 1 else 0)
     | PInf \<Rightarrow> 1 | NInf \<Rightarrow> -1 | NaN \<Rightarrow> 0)"

definition d_inf :: "int \<Rightarrow> double" where
  "d_inf s = (if s = 0 then NaN else if 0 < s then PInf else NInf)"

fun d_mul :: "double \<Rightarrow> double \<Rightarrow> double" where
  "d_mul (Fin a) (Fin b) = rnd (a * b)"
| "d_mul NaN _ = NaN"
| "d_mul _ NaN = NaN"
| "d_mul a b = d_inf (d_sgn a * d_sgn b)"

text \<open>Division by a finite non-zero value, the only division the sources contain.\<close>

fun d_div :: "double \<Rightarrow> rat \<Rightarrow> double" where
  "d_div (Fin a) b = rnd (a / b)"
| "d_div NaN _ = NaN"
| "d_div PInf b = (if b < 0 then NInf else PInf)"
| "d_div NInf b = (if b < 0 then PInf else NInf)"

text \<open>
  \<open>static_cast<std::int64_t>(d)\<close> truncates toward zero. It is undefined when the truncated
  value does not fit: \<open>None\<close>. \<open>static_cast<double>(n)\<close> rounds.
\<close>

definition trunc_rat :: "rat \<Rightarrow> int" where
  "trunc_rat x = (if 0 \<le> x then \<lfloor>x\<rfloor> else \<lceil>x\<rceil>)"

fun i64_of_double :: "double \<Rightarrow> i64 option" where
  "i64_of_double (Fin x) = (let n = trunc_rat x in if in_i64 n then Some n else None)"
| "i64_of_double _ = None"

definition double_of_int :: "int \<Rightarrow> double" where
  "double_of_int n = rnd (of_int n)"

subsection \<open>Exactness and error of the rounding\<close>

lemma ilog2_bounds:
  assumes x: "0 < x"
  shows "2 powi (ilog2 x) \<le> x" and "x < 2 powi (ilog2 x + 1)"
proof -
  obtain n d where q: "quotient_of x = (n, d)" by (cases "quotient_of x")
  have d: "0 < d" using quotient_of_denom_pos [OF q] .
  have xnd: "x = of_int n / of_int d" using quotient_of_div [OF q] .
  have n: "0 < n" using x d unfolding xnd by (simp add: zero_less_divide_iff)
  define a b where "a = nat (bitlen n - 1)" and "b = nat (bitlen d - 1)"
  have bl: "bitlen n = int a + 1" "bitlen d = int b + 1"
    using n d by (simp_all add: a_def b_def bitlen_nonneg bitlen_def floorlog_def)
  have n1: "2 ^ a \<le> n" and n2: "n < 2 ^ Suc a"
    using bitlen_bounds [OF n] by (simp_all add: bl nat_add_distrib)
  have d1: "2 ^ b \<le> d" and d2: "d < 2 ^ Suc b"
    using bitlen_bounds [OF d] by (simp_all add: bl nat_add_distrib)
  have rn1: "2 ^ a \<le> (of_int n :: rat)" and rn2: "(of_int n :: rat) < 2 ^ Suc a"
    and rd1: "2 ^ b \<le> (of_int d :: rat)" and rd2: "(of_int d :: rat) < 2 ^ Suc b"
    using n1 n2 d1 d2 by (metis of_int_le_iff of_int_less_iff of_int_power of_int_numeral)+
  have pow: "(2 :: rat) powi (int a - int b) = 2 ^ a / 2 ^ b"
    by (simp add: power_int_diff)
  have up: "x < 2 powi (int a - int b + 1)"
    using rn2 rd1 d n by (simp add: xnd power_int_add pow divide_simps mult_strict_mono' mult_less_le_imp_less)
  have low: "2 powi (int a - int b - 1) < x"
  proof -
    have "2 ^ a * (of_int d :: rat) < of_int n * (2 * 2 ^ b)"
      using mult_le_less_imp_less [OF rn1 rd2] d n by simp
    then show ?thesis
      using d by (simp add: xnd power_int_diff pow divide_simps mult_ac)
  qed
  show "2 powi (ilog2 x) \<le> x" and "x < 2 powi (ilog2 x + 1)"
    using up low by (auto simp: ilog2_def q bl Let_def)
qed

lemma round_even_error: "\<bar>of_int (round_even x) - x\<bar> \<le> 1 / 2"
  unfolding round_even_def Let_def
  using of_int_floor_le [of x] real_of_int_floor_add_one_gt floor_correct [of x]
  by (auto simp: abs_le_iff)

lemma round_even_of_int [simp]: "round_even (of_int n) = n"
  by (simp add: round_even_def)

lemma ilog2_le: "0 < x \<Longrightarrow> x < 2 powi k \<Longrightarrow> ilog2 x < k"
  using ilog2_bounds(1) [of x] power_int_increasing [of k "ilog2 x" "2 :: rat"]
  by (cases "ilog2 x < k") auto

lemma ilog2_ge: "2 powi k \<le> x \<Longrightarrow> k \<le> ilog2 x"
proof -
  assume k: "2 powi k \<le> x"
  have x: "0 < x" using k by (rule less_le_trans [rotated]) simp
  have "2 powi k < (2 :: rat) powi (ilog2 x + 1)"
    using k ilog2_bounds(2) [OF x] by simp
  then show ?thesis
    using power_int_increasing [of "ilog2 x + 1" k "2 :: rat"] by (cases "k \<le> ilog2 x") auto
qed

lemma rnd_eq_Fin:
  assumes "x \<noteq> 0" and "max (ilog2 \<bar>x\<bar> - 52) (-1074) = e"
    and "of_int (round_even (x / 2 powi e)) * 2 powi e = y" and "\<bar>y\<bar> < 2 powi 1024"
  shows "rnd x = Fin y"
proof -
  have "\<not> 2 powi 1024 \<le> y" and "\<not> y \<le> - (2 powi 1024)"
    using assms(4) by linarith+
  then show ?thesis
    using assms(1) by (simp only: rnd_def assms(2,3) Let_def if_False)
qed

lemma rnd_error:
  assumes lo: "2 powi (-1022) \<le> \<bar>x\<bar>" and hi: "\<bar>x\<bar> < 2 powi 1023"
  obtains y where "rnd x = Fin y" and "\<bar>y - x\<bar> \<le> \<bar>x\<bar> / 2 ^ 53"
proof -
  have x0: "0 < \<bar>x\<bar>" using lo by (rule less_le_trans [rotated]) simp
  define e where "e = ilog2 \<bar>x\<bar> - 52"
  have ge: "max (ilog2 \<bar>x\<bar> - 52) (-1074) = e"
    using ilog2_ge [OF lo] by (simp add: e_def)
  define y where "y = of_int (round_even (x / 2 powi e)) * (2 :: rat) powi e"
  have p: "0 < (2 :: rat) powi e" by simp
  have "\<bar>y - x\<bar> = \<bar>of_int (round_even (x / 2 powi e)) - x / 2 powi e\<bar> * 2 powi e"
    using p by (simp add: y_def abs_mult_pos' right_diff_distrib mult.commute)
  also have "\<dots> \<le> 1 / 2 * 2 powi e"
    by (intro mult_right_mono round_even_error) simp
  also have "\<dots> = 2 powi (ilog2 \<bar>x\<bar>) / 2 ^ 53"
    by (simp add: e_def power_int_diff)
  also have "\<dots> \<le> \<bar>x\<bar> / 2 ^ 53"
    using ilog2_bounds(1) [OF x0] by (intro divide_right_mono) simp_all
  finally have err: "\<bar>y - x\<bar> \<le> \<bar>x\<bar> / 2 ^ 53" .
  have "\<bar>y\<bar> \<le> \<bar>x\<bar> + \<bar>x\<bar> / 2 ^ 53" using err by linarith
  also have "\<dots> \<le> 2 * \<bar>x\<bar>" by simp
  also have "\<dots> < 2 powi 1024" using hi by (simp add: power_int_numeral)
  finally have b: "\<bar>y\<bar> < 2 powi 1024" .
  have "rnd x = Fin y"
    using x0 by (intro rnd_eq_Fin [OF _ ge y_def [symmetric] b]) simp
  then show thesis using err by (rule that)
qed

lemma rnd_of_int:
  assumes "\<bar>n\<bar> < 2 ^ 53"
  shows "rnd (of_int n) = Fin (of_int n)"
proof (cases "n = 0")
  case True
  then show ?thesis by (simp add: rnd_def)
next
  case False
  define x where "x = (of_int n :: rat)"
  have x0: "0 < \<bar>x\<bar>" using False by (simp add: x_def)
  have one: "1 \<le> \<bar>x\<bar>" using False by (simp add: x_def flip: of_int_abs)
  have lt: "\<bar>x\<bar> < 2 ^ 53"
    using assms unfolding x_def by (metis of_int_abs of_int_less_iff of_int_power of_int_numeral)
  have l0: "0 \<le> ilog2 \<bar>x\<bar>" using one by (intro ilog2_ge) simp
  have l1: "ilog2 \<bar>x\<bar> < 53" using lt x0 by (intro ilog2_le) simp_all
  define k where "k = nat (52 - ilog2 \<bar>x\<bar>)"
  have e: "max (ilog2 \<bar>x\<bar> - 52) (-1074) = - int k" using l0 l1 by (simp add: k_def)
  have "x / 2 powi (- int k) = of_int (n * 2 ^ k)"
    by (simp add: x_def power_int_minus divide_inverse)
  then have y: "of_int (round_even (x / 2 powi (- int k))) * (2 :: rat) powi (- int k) = x"
    by (simp only: round_even_of_int) (simp add: x_def power_int_minus divide_inverse)
  have "\<bar>x\<bar> < 2 powi 1024"
    using lt by (rule less_trans) (simp add: power_int_numeral)
  then have "rnd x = Fin x"
    using x0 by (intro rnd_eq_Fin [OF _ e y]) simp_all
  then show ?thesis by (simp add: x_def)
qed

text \<open>A rounding that stays within one half of an integer truncates back to it after adding
  one half: the arithmetic behind the tick conversion.\<close>

lemma trunc_near:
  assumes "0 \<le> k" and "\<bar>x - (of_int k + 1 / 2)\<bar> < 1 / 2"
  shows "trunc_rat x = k"
proof -
  have "of_int k \<le> x" and "x < of_int k + 1"
    using assms(2) by linarith+
  then have "\<lfloor>x\<rfloor> = k" by (simp add: floor_eq_iff)
  moreover have "0 \<le> x" using assms(1) \<open>of_int k \<le> x\<close> by (meson of_int_0_le_iff order_trans)
  ultimately show ?thesis by (simp add: trunc_rat_def)
qed

end
