(* ===== verification/Order_Types.thy ===== *)
theory Order_Types
  imports IEEE_Double
begin

text \<open>
  The value types of the engine: \<open>include/Order.h\<close> and \<open>include/Trade.h\<close>.
  The two validating constructors are functions into \<open>exn + _\<close>: a \<open>throw\<close> of the source is
  \<open>Inl\<close> of the exception. A clock read by a constructor is an argument.
\<close>

datatype exn = Invalid_argument string | Runtime_error string | Out_of_range string

datatype order_side = BUY | SELL

datatype order_type = MARKET | LIMIT | IOC | FOK

record order =
  order_id :: u64
  trader_id :: u64
  symbol_id :: u32
  side :: order_side
  otype :: order_type
  price :: double
  quantity :: u32
  remaining_quantity :: u32
  timestamp :: i64
  received_time :: i64
  priority_seq :: u64

text \<open>The default constructor and the validating constructor; \<open>now\<close> is \<open>nowSystemNs()\<close>.\<close>

definition order_default :: "i64 \<Rightarrow> order" where
  "order_default now = \<lparr>order_id = 0, trader_id = 0, symbol_id = 0, side = BUY, otype = MARKET,
     price = Fin 0, quantity = 0, remaining_quantity = 0, timestamp = now, received_time = now,
     priority_seq = 0\<rparr>"

definition Order :: "i64 \<Rightarrow> u64 \<Rightarrow> u64 \<Rightarrow> order_side \<Rightarrow> order_type \<Rightarrow> double \<Rightarrow> u32 \<Rightarrow> u32 \<Rightarrow> exn + order"
where
  "Order now oid tid s t p qty sy =
     (let o1 = \<lparr>order_id = oid, trader_id = tid, symbol_id = sy, side = s, otype = t, price = p,
        quantity = qty, remaining_quantity = qty, timestamp = now, received_time = now,
        priority_seq = 0\<rparr>
      in if qty = 0 then Inl (Invalid_argument ''Order quantity must be positive'')
         else if oid = 0 then Inl (Invalid_argument ''Order ID must be non-zero'')
         else if tid = 0 then Inl (Invalid_argument ''Trader ID must be non-zero'')
         else if t = MARKET then Inr (o1\<lparr>price := Fin 0\<rparr>)
         else if d_le p (Fin 0) \<or> isnan p \<or> isinf p
           then Inl (Invalid_argument ''Limit/IOC/FOK order price must be positive and finite'')
         else Inr o1)"

definition setTimestamp :: "i64 \<Rightarrow> order \<Rightarrow> order" where
  "setTimestamp ts ord = ord\<lparr>timestamp := ts, received_time := ts\<rparr>"

definition is_filled :: "order \<Rightarrow> bool" where
  "is_filled ord \<longleftrightarrow> remaining_quantity ord = 0"

record trade =
  trade_id :: u64
  buy_order_id :: u64
  sell_order_id :: u64
  buy_trader_id :: u64
  sell_trader_id :: u64
  trade_price :: double
  trade_quantity :: u32
  trade_timestamp :: i64

text \<open>The validating constructor of a trade; \<open>now\<close> is the steady clock it reads.\<close>

definition Trade :: "i64 \<Rightarrow> u64 \<Rightarrow> u64 \<Rightarrow> u64 \<Rightarrow> u64 \<Rightarrow> u64 \<Rightarrow> double \<Rightarrow> u32 \<Rightarrow> exn + trade"
where
  "Trade now tid bid sid btrader strader p qty =
     (if tid = 0 then Inl (Invalid_argument ''Trade ID must be non-zero'')
      else if bid = sid
        then Inl (Invalid_argument ''Trade cannot match an order against itself'')
      else if qty = 0 then Inl (Invalid_argument ''Trade quantity must be positive'')
      else if d_le p (Fin 0) \<or> isnan p \<or> isinf p
        then Inl (Invalid_argument ''Trade price must be positive and finite'')
      else Inr \<lparr>trade_id = tid, buy_order_id = bid, sell_order_id = sid, buy_trader_id = btrader,
        sell_trader_id = strader, trade_price = p, trade_quantity = qty, trade_timestamp = now\<rparr>)"

subsection \<open>What the constructors establish\<close>

text \<open>The fields of an order the validating constructor accepts.\<close>

definition valid_order :: "order \<Rightarrow> bool" where
  "valid_order ord \<longleftrightarrow> order_id ord \<noteq> 0 \<and> trader_id ord \<noteq> 0 \<and> 0 < quantity ord \<and>
     remaining_quantity ord = quantity ord \<and>
     (if otype ord = MARKET then price ord = Fin 0 else pos_finite (price ord))"

lemma not_pos_finite_iff: "d_le p (Fin 0) \<or> isnan p \<or> isinf p \<longleftrightarrow> \<not> pos_finite p"
  by (cases p) (auto simp: pos_finite_def)

lemma Order_Inr:
  "Order now oid tid s t p qty sy = Inr ord \<Longrightarrow> valid_order ord"
  by (auto simp: Order_def valid_order_def Let_def not_pos_finite_iff word_neq_0_conv split: if_splits)

lemma Order_Inr_iff:
  "(\<exists>ord. Order now oid tid s t p qty sy = Inr ord) \<longleftrightarrow>
     qty \<noteq> 0 \<and> oid \<noteq> 0 \<and> tid \<noteq> 0 \<and> (t = MARKET \<or> pos_finite p)"
  by (auto simp: Order_def Let_def not_pos_finite_iff)

lemma Trade_Inr_iff:
  "Trade now tid bid sid bt st p qty = Inr tr \<longleftrightarrow>
     tid \<noteq> 0 \<and> bid \<noteq> sid \<and> qty \<noteq> 0 \<and> pos_finite p \<and>
     tr = \<lparr>trade_id = tid, buy_order_id = bid, sell_order_id = sid, buy_trader_id = bt,
        sell_trader_id = st, trade_price = p, trade_quantity = qty, trade_timestamp = now\<rparr>"
  by (auto simp: Trade_def not_pos_finite_iff)

lemma Trade_ok:
  "tid \<noteq> 0 \<Longrightarrow> bid \<noteq> sid \<Longrightarrow> qty \<noteq> 0 \<Longrightarrow> pos_finite p \<Longrightarrow>
   Trade now tid bid sid bt st p qty =
     Inr \<lparr>trade_id = tid, buy_order_id = bid, sell_order_id = sid, buy_trader_id = bt,
        sell_trader_id = st, trade_price = p, trade_quantity = qty, trade_timestamp = now\<rparr>"
  by (simp add: Trade_Inr_iff)

end
