(* ===== verification/Order_Pool.thy ===== *)
theory Order_Pool
  imports Order_Types
begin

text \<open>
  The fixed-size memory pool of \<open>include/OrderPool.h\<close>. A pointer into the pool is the index
  of its slot in \<open>storage_\<close>; \<open>nullptr\<close> is \<open>None\<close>. The free list is a stack over an array
  whose live part starts at \<open>head_\<close>; \<open>allocated_\<close> is the double-free bitmap.
  The invariant \<open>pool_wf\<close> ties the three together, and the lemmas show that the two
  operations keep it, that \<open>deallocate\<close> of an allocated slot never throws and that
  a slot is never handed out twice.
\<close>

record pool =
  storage :: "order list"
  free_list :: "nat list"
  allocated :: "bool list"
  pool_head :: nat

text \<open>\<open>now i\<close> is the clock the default constructor of slot \<open>i\<close> reads.\<close>

definition OrderPool :: "(nat \<Rightarrow> i64) \<Rightarrow> nat \<Rightarrow> pool" where
  "OrderPool now capacity = \<lparr>storage = map (\<lambda>i. order_default (now i)) [0..<capacity],
     free_list = map (\<lambda>i. capacity - 1 - i) [0..<capacity],
     allocated = replicate capacity False, pool_head = 0\<rparr>"

definition allocate :: "pool \<Rightarrow> nat option \<times> pool" where
  "allocate p =
     (if length (free_list p) \<le> pool_head p then (None, p)
      else let idx = free_list p ! pool_head p
        in (Some idx, p\<lparr>pool_head := Suc (pool_head p), allocated := (allocated p)[idx := True]\<rparr>))"

definition deallocate :: "nat option \<Rightarrow> pool \<Rightarrow> exn + pool" where
  "deallocate ptr p =
     (case ptr of
        None \<Rightarrow> Inr p
      | Some idx \<Rightarrow>
          if storage p = [] then Inl (Invalid_argument ''OrderPool::deallocate: pool is empty'')
          else if length (storage p) \<le> idx
            then Inl (Invalid_argument ''OrderPool::deallocate: pointer out of range'')
          else if \<not> allocated p ! idx
            then Inl (Runtime_error ''OrderPool::deallocate: double free detected'')
          else Inr (p\<lparr>allocated := (allocated p)[idx := False], pool_head := pool_head p - 1,
                 free_list := (free_list p)[pool_head p - 1 := idx]\<rparr>))"

definition pool_capacity :: "pool \<Rightarrow> nat" where
  "pool_capacity p = length (storage p)"

definition available :: "pool \<Rightarrow> nat" where
  "available p = length (free_list p) - pool_head p"

text \<open>The store through a pointer: \<open>*ptr = order\<close>, and every write through an \<open>Order&\<close>.\<close>

definition store :: "nat \<Rightarrow> order \<Rightarrow> pool \<Rightarrow> pool" where
  "store idx ord p = p\<lparr>storage := (storage p)[idx := ord]\<rparr>"

subsection \<open>Invariant\<close>

definition live_slots :: "pool \<Rightarrow> nat set" where
  "live_slots p = {i. i < length (allocated p) \<and> allocated p ! i}"

definition pool_wf :: "pool \<Rightarrow> bool" where
  "pool_wf p \<longleftrightarrow>
     length (free_list p) = length (storage p) \<and> length (allocated p) = length (storage p) \<and>
     pool_head p \<le> length (free_list p) \<and>
     distinct (drop (pool_head p) (free_list p)) \<and>
     set (drop (pool_head p) (free_list p)) = {..< length (storage p)} - live_slots p"

lemma pool_wf_lengths:
  assumes "pool_wf p"
  shows "length (free_list p) = length (storage p)" and "length (allocated p) = length (storage p)"
    and "pool_head p \<le> length (storage p)"
  using assms by (simp_all add: pool_wf_def)

lemma finite_live_slots [simp]: "finite (live_slots p)"
  by (simp add: live_slots_def)

lemma live_slots_less: "pool_wf p \<Longrightarrow> i \<in> live_slots p \<Longrightarrow> i < length (storage p)"
  by (simp add: pool_wf_def live_slots_def)

lemma pool_wf_OrderPool: "pool_wf (OrderPool now capacity)"
proof -
  have "(\<lambda>i. capacity - 1 - i) ` {0..<capacity} = {..<capacity}"
  proof (intro equalityI subsetI)
    fix x assume "x \<in> {..<capacity}"
    then have "x = capacity - 1 - (capacity - 1 - x)" and "capacity - 1 - x \<in> {0..<capacity}"
      by auto
    then show "x \<in> (\<lambda>i. capacity - 1 - i) ` {0..<capacity}" by blast
  qed auto
  moreover have "inj_on (\<lambda>i. capacity - 1 - i) {0..<capacity}"
    by (auto intro!: inj_onI)
  ultimately show ?thesis
    by (auto simp: pool_wf_def OrderPool_def live_slots_def distinct_map)
qed

lemma available_eq_card:
  assumes "pool_wf p"
  shows "available p = card ({..< pool_capacity p} - live_slots p)"
proof -
  have "available p = length (drop (pool_head p) (free_list p))"
    by (simp add: available_def)
  also have "\<dots> = card (set (drop (pool_head p) (free_list p)))"
    using assms by (metis pool_wf_def distinct_card)
  finally show ?thesis using assms by (simp add: pool_wf_def pool_capacity_def)
qed

lemma available_plus_live:
  assumes "pool_wf p"
  shows "available p + card (live_slots p) = pool_capacity p"
proof -
  have "live_slots p \<subseteq> {..< pool_capacity p}"
    using live_slots_less [OF assms] by (auto simp: pool_capacity_def)
  then show ?thesis
    by (simp add: available_eq_card [OF assms] card_Diff_subset card_mono [of "{..<pool_capacity p}"]
        le_add_diff_inverse2 flip: card_lessThan)
       (metis card_lessThan card_mono finite_lessThan le_add_diff_inverse2)
qed

lemma allocate_None: "pool_wf p \<Longrightarrow> fst (allocate p) = None \<longleftrightarrow> available p = 0"
  by (auto simp: allocate_def available_def Let_def)

lemma allocate_Some:
  assumes wf: "pool_wf p" and al: "allocate p = (Some idx, p')"
  shows "idx \<notin> live_slots p" and "idx < pool_capacity p"
    and "live_slots p' = insert idx (live_slots p)" and "pool_wf p'"
    and "storage p' = storage p" and "available p = Suc (available p')"
proof -
  have h: "pool_head p < length (free_list p)" and idx: "idx = free_list p ! pool_head p"
    and p': "p' = p\<lparr>pool_head := Suc (pool_head p), allocated := (allocated p)[idx := True]\<rparr>"
    using al by (auto simp: allocate_def Let_def split: if_splits)
  have dr: "drop (pool_head p) (free_list p) = idx # drop (Suc (pool_head p)) (free_list p)"
    using h idx by (simp add: Cons_nth_drop_Suc)
  have S: "set (drop (pool_head p) (free_list p)) = {..< length (storage p)} - live_slots p"
    and D: "distinct (drop (pool_head p) (free_list p))"
    using wf by (auto simp: pool_wf_def)
  show free: "idx \<notin> live_slots p" and lt: "idx < pool_capacity p"
    using S unfolding dr pool_capacity_def by auto
  have len: "length (allocated p) = length (storage p)" using wf by (simp add: pool_wf_def)
  show live: "live_slots p' = insert idx (live_slots p)"
    using lt len by (auto simp: p' live_slots_def nth_list_update pool_capacity_def)
  have "set (drop (Suc (pool_head p)) (free_list p)) = {..< length (storage p)} - live_slots p'"
    using S D unfolding dr live by auto
  then show "pool_wf p'"
    using wf D h unfolding dr by (simp add: pool_wf_def p')
  show "storage p' = storage p" by (simp add: p')
  show "available p = Suc (available p')" using h by (simp add: available_def p')
qed

lemma deallocate_live:
  assumes wf: "pool_wf p" and idx: "idx \<in> live_slots p"
  obtains p' where "deallocate (Some idx) p = Inr p'" and "pool_wf p'"
    and "live_slots p' = live_slots p - {idx}" and "storage p' = storage p"
    and "available p' = Suc (available p)"
proof -
  have lt: "idx < length (storage p)" and al: "allocated p ! idx"
    and len: "length (allocated p) = length (storage p)" "length (free_list p) = length (storage p)"
    using wf idx by (auto simp: pool_wf_def live_slots_def)
  define h where "h = pool_head p - 1"
  have "0 < card (live_slots p)" using idx by (auto simp: card_gt_0_iff)
  then have avail: "available p < length (storage p)"
    using available_plus_live [OF wf] by (simp add: pool_capacity_def)
  then have h: "pool_head p = Suc h" and hl: "h < length (free_list p)"
    using pool_wf_lengths [OF wf] unfolding h_def available_def by linarith+
  define p' where "p' = p\<lparr>allocated := (allocated p)[idx := False], pool_head := h,
    free_list := (free_list p)[h := idx]\<rparr>"
  have dr: "drop h (free_list p') = idx # drop (pool_head p) (free_list p)"
    using hl h by (simp add: p'_def drop_update_cancel flip: Cons_nth_drop_Suc)
  have live: "live_slots p' = live_slots p - {idx}"
    using lt len by (auto simp: p'_def live_slots_def nth_list_update)
  have "pool_wf p'"
    using wf hl lt idx dr live by (auto simp: pool_wf_def p'_def)
  moreover have "deallocate (Some idx) p = Inr p'"
    using lt al unfolding deallocate_def p'_def h by (cases "storage p") simp_all
  moreover have "available p' = Suc (available p)"
    using hl h by (simp add: available_def p'_def)
  moreover have "storage p' = storage p" by (simp add: p'_def)
  ultimately show thesis using live that by blast
qed

lemma deallocate_double_free:
  assumes "pool_wf p" and "idx < pool_capacity p" and "idx \<notin> live_slots p"
  shows "deallocate (Some idx) p = Inl (Runtime_error ''OrderPool::deallocate: double free detected'')"
proof -
  have "storage p \<noteq> []" and "\<not> length (storage p) \<le> idx" and "\<not> allocated p ! idx"
    using assms(2,3) pool_wf_lengths [OF assms(1)]
    by (auto simp: pool_capacity_def live_slots_def)
  then show ?thesis by (simp add: deallocate_def)
qed

lemma deallocate_keeps_storage: "deallocate ptr p = Inr p' \<Longrightarrow> storage p' = storage p"
  by (auto simp: deallocate_def split: option.splits if_splits)

lemma store_simps [simp]:
  "live_slots (store idx ord p) = live_slots p"
  "available (store idx ord p) = available p"
  "pool_capacity (store idx ord p) = pool_capacity p"
  "pool_wf (store idx ord p) = pool_wf p"
  by (simp_all add: store_def live_slots_def available_def pool_wf_def pool_capacity_def)

lemma storage_store: "storage (store idx ord p) = (storage p)[idx := ord]"
  by (simp add: store_def)

end
