(* ===== verification/Order_Queue.thy ===== *)
theory Order_Queue
  imports Order_Pool
begin

text \<open>
  The queue of one price level, \<open>include/OrderQueue.h\<close>: a vector of pointers into the
  shared pool with a live window \<open>[head_, tail_)\<close>. The queues of all price levels share one
  pool, so every operation takes the pool and returns it.

  \<open>queue_list p q\<close> is the sequence of orders the queue holds. The locale \<open>pooled_queue\<close>
  states what the order book relies on: each operation's effect on that sequence, that it
  throws only when the pool is exhausted, and that it leaves every other queue of the same
  pool alone. The interpretation at the end discharges it for the code's queue.
\<close>

record queue =
  pointers :: "nat option list"
  q_head :: nat
  q_tail :: nat

definition queue_new :: queue where
  "queue_new = \<lparr>pointers = [], q_head = 0, q_tail = 0\<rparr>"

definition q_empty :: "queue \<Rightarrow> bool" where
  "q_empty q \<longleftrightarrow> q_head q = q_tail q"

definition q_size :: "queue \<Rightarrow> nat" where
  "q_size q = q_tail q - q_head q"

text \<open>The first half of \<open>push_back\<close>: reclaim dead space at the front, or grow.\<close>

definition q_make_room :: "queue \<Rightarrow> queue" where
  "q_make_room q =
     (if q_tail q = length (pointers q) then
        let q1 = (if 0 < q_head q
                  then q\<lparr>pointers := take (q_tail q - q_head q) (drop (q_head q) (pointers q))
                             @ drop (q_tail q - q_head q) (pointers q),
                         q_tail := q_tail q - q_head q, q_head := 0\<rparr>
                  else q)
        in if q_tail q1 = length (pointers q1)
           then q1\<lparr>pointers := pointers q1 @
                    replicate (max (length (pointers q1) * 2) 16 - length (pointers q1)) None\<rparr>
           else q1
      else q)"

text \<open>
  \<open>push_back\<close> throws when the pool is exhausted; the pointer vector may have been compacted
  or grown by then, so the state is returned in both cases.
\<close>

definition push_back :: "order \<Rightarrow> pool \<Rightarrow> queue \<Rightarrow> exn option \<times> pool \<times> queue" where
  "push_back ord p q =
     (let q1 = q_make_room q in
      case allocate p of
        (None, p1) \<Rightarrow> (Some (Runtime_error ''OrderQueue: OrderPool exhausted''), p1, q1)
      | (Some idx, p1) \<Rightarrow>
          (None, store idx ord p1,
             q1\<lparr>pointers := (pointers q1)[q_tail q1 := Some idx], q_tail := Suc (q_tail q1)\<rparr>))"

text \<open>\<open>at(i)\<close> and \<open>front()\<close>: the pointer, and the order it points to. The assertions of the
  source (the index is in the window) are preconditions here, as in a release build.\<close>

definition q_ptr :: "queue \<Rightarrow> nat \<Rightarrow> nat" where
  "q_ptr q i = the (pointers q ! (q_head q + i))"

definition q_at :: "pool \<Rightarrow> queue \<Rightarrow> nat \<Rightarrow> order" where
  "q_at p q i = storage p ! q_ptr q i"

definition q_front :: "pool \<Rightarrow> queue \<Rightarrow> order" where
  "q_front p q = q_at p q 0"

text \<open>A write through the reference \<open>at(i)\<close> returns.\<close>

definition q_put :: "nat \<Rightarrow> order \<Rightarrow> pool \<Rightarrow> queue \<Rightarrow> pool" where
  "q_put i ord p q = store (q_ptr q i) ord p"

definition q_reset :: "queue \<Rightarrow> queue" where
  "q_reset q = (if q_head q = q_tail q then q\<lparr>q_head := 0, q_tail := 0\<rparr> else q)"

definition pop_front :: "pool \<Rightarrow> queue \<Rightarrow> exn + (pool \<times> queue)" where
  "pop_front p q =
     (if q_empty q then Inr (p, q)
      else case deallocate (pointers q ! q_head q) p of
        Inl e \<Rightarrow> Inl e
      | Inr p1 \<Rightarrow> Inr (p1, q_reset (q\<lparr>pointers := (pointers q)[q_head q := None],
                                       q_head := Suc (q_head q)\<rparr>)))"

text \<open>The shifting loop of \<open>erase_at\<close>: \<open>for j: pointers_[j - 1] = pointers_[j]\<close>.\<close>

function q_shift :: "nat \<Rightarrow> nat \<Rightarrow> nat option list \<Rightarrow> nat option list" where
  "q_shift j t ps = (if j < t then q_shift (Suc j) t (ps[j - 1 := ps ! j]) else ps)"
  by pat_completeness auto
termination by (relation "measure (\<lambda>(j, t, ps). t - j)") auto

declare q_shift.simps [simp del]

definition erase_at :: "nat \<Rightarrow> pool \<Rightarrow> queue \<Rightarrow> exn + (pool \<times> queue)" where
  "erase_at i p q =
     (case deallocate (pointers q ! (q_head q + i)) p of
        Inl e \<Rightarrow> Inl e
      | Inr p1 \<Rightarrow>
          let ps = q_shift (q_head q + i + 1) (q_tail q) (pointers q); t = q_tail q - 1
          in Inr (p1, q_reset (q\<lparr>pointers := ps[t := None], q_tail := t\<rparr>)))"

subsection \<open>Abstraction and invariant\<close>

definition q_window :: "queue \<Rightarrow> nat option list" where
  "q_window q = take (q_tail q - q_head q) (drop (q_head q) (pointers q))"

definition q_ptrs :: "queue \<Rightarrow> nat list" where
  "q_ptrs q = map the (q_window q)"

definition queue_list :: "pool \<Rightarrow> queue \<Rightarrow> order list" where
  "queue_list p q = map (\<lambda>i. storage p ! i) (q_ptrs q)"

definition queue_wf :: "pool \<Rightarrow> queue \<Rightarrow> bool" where
  "queue_wf p q \<longleftrightarrow> pool_wf p \<and> q_head q \<le> q_tail q \<and> q_tail q \<le> length (pointers q) \<and>
     None \<notin> set (q_window q) \<and> distinct (q_ptrs q) \<and> set (q_ptrs q) \<subseteq> live_slots p"

lemma length_q_window: "queue_wf p q \<Longrightarrow> length (q_window q) = q_size q"
  by (auto simp: queue_wf_def q_window_def q_size_def min_def)

lemma length_q_ptrs: "queue_wf p q \<Longrightarrow> length (q_ptrs q) = q_size q"
  by (simp add: q_ptrs_def length_q_window)

lemma length_queue_list: "queue_wf p q \<Longrightarrow> length (queue_list p q) = q_size q"
  by (simp add: queue_list_def length_q_ptrs)

lemma q_window_nth: "queue_wf p q \<Longrightarrow> i < q_size q \<Longrightarrow> q_window q ! i = pointers q ! (q_head q + i)"
  by (simp add: queue_wf_def q_window_def q_size_def)

lemma q_ptrs_nth: "queue_wf p q \<Longrightarrow> i < q_size q \<Longrightarrow> q_ptrs q ! i = q_ptr q i"
  by (simp add: q_ptrs_def q_ptr_def length_q_window q_window_nth)

lemma pointers_q_ptr:
  assumes "queue_wf p q" and "i < q_size q"
  shows "pointers q ! (q_head q + i) = Some (q_ptr q i)" and "q_ptr q i \<in> set (q_ptrs q)"
proof -
  have "q_window q ! i \<in> set (q_window q)" using assms by (simp add: length_q_window)
  then have "pointers q ! (q_head q + i) \<noteq> None"
    using assms by (metis q_window_nth queue_wf_def)
  then show "pointers q ! (q_head q + i) = Some (q_ptr q i)" by (auto simp: q_ptr_def)
  show "q_ptr q i \<in> set (q_ptrs q)"
    using assms by (metis length_q_ptrs nth_mem q_ptrs_nth)
qed

lemma queue_list_nth: "queue_wf p q \<Longrightarrow> i < q_size q \<Longrightarrow> queue_list p q ! i = q_at p q i"
  by (simp add: queue_list_def q_at_def length_q_ptrs q_ptrs_nth)

lemma q_empty_iff: "queue_wf p q \<Longrightarrow> q_empty q \<longleftrightarrow> queue_list p q = []"
  by (auto simp: q_empty_def queue_list_def q_ptrs_def q_window_def queue_wf_def)

text \<open>A queue's list depends on the pool through its own slots only.\<close>

lemma queue_list_cong:
  "(\<And>i. i \<in> set (q_ptrs q) \<Longrightarrow> storage p' ! i = storage p ! i) \<Longrightarrow> queue_list p' q = queue_list p q"
  by (simp add: queue_list_def)

lemma queue_wf_live_cong:
  "queue_wf p q \<Longrightarrow> pool_wf p' \<Longrightarrow> set (q_ptrs q) \<subseteq> live_slots p' \<Longrightarrow> queue_wf p' q"
  by (simp add: queue_wf_def)

subsection \<open>Each operation on the abstract sequence\<close>

lemma q_make_room_spec:
  assumes "q_head q \<le> q_tail q" and "q_tail q \<le> length (pointers q)"
  shows "q_window (q_make_room q) = q_window q"
    and "q_head (q_make_room q) \<le> q_tail (q_make_room q)"
    and "q_tail (q_make_room q) < length (pointers (q_make_room q))"
  using assms by (auto simp: q_make_room_def q_window_def Let_def)

lemma q_window_reset [simp]: "q_window (q_reset q) = q_window q"
  by (simp add: q_reset_def q_window_def)

lemma q_ptrs_reset [simp]: "q_ptrs (q_reset q) = q_ptrs q"
  by (simp add: q_ptrs_def)

lemma q_reset_bounds:
  "q_head q \<le> q_tail q \<Longrightarrow> q_tail q \<le> length (pointers q) \<Longrightarrow>
   q_head (q_reset q) \<le> q_tail (q_reset q) \<and> q_tail (q_reset q) \<le> length (pointers (q_reset q))"
  by (simp add: q_reset_def)

lemma q_shift_spec:
  assumes "0 < j" and "t \<le> length ps"
  shows "length (q_shift j t ps) = length ps \<and>
    (\<forall>k < length ps. q_shift j t ps ! k = (if j - 1 \<le> k \<and> Suc k < t then ps ! Suc k else ps ! k))"
  using assms
proof (induction j t ps rule: q_shift.induct)
  case (1 j t ps)
  show ?case
  proof (cases "j < t")
    case True
    with "1.prems" "1.IH" show ?thesis
      by (subst (1 2) q_shift.simps) (auto simp: nth_list_update)
  next
    case False
    then show ?thesis by (subst (1 2) q_shift.simps) auto
  qed
qed

lemma push_back_full:
  assumes "queue_wf p q" and "available p = 0"
  obtains q' where "push_back ord p q = (Some (Runtime_error ''OrderQueue: OrderPool exhausted''), p, q')"
    and "queue_wf p q'" and "q_ptrs q' = q_ptrs q"
proof -
  have "allocate p = (None, p)"
    using assms(2) by (simp add: allocate_def available_def)
  moreover have "queue_wf p (q_make_room q)" and "q_ptrs (q_make_room q) = q_ptrs q"
    using assms(1) q_make_room_spec [of q] by (auto simp: queue_wf_def q_ptrs_def)
  ultimately show thesis
    by (intro that [of "q_make_room q"]) (simp_all add: push_back_def Let_def)
qed

lemma push_back_ok:
  assumes wf: "queue_wf p q" and room: "0 < available p"
  obtains idx p' q' where "push_back ord p q = (None, p', q')" and "queue_wf p' q'"
    and "q_ptrs q' = q_ptrs q @ [idx]" and "queue_list p' q' = queue_list p q @ [ord]"
    and "available p = Suc (available p')" and "idx \<notin> live_slots p"
    and "live_slots p' = insert idx (live_slots p)" and "storage p' = (storage p)[idx := ord]"
proof -
  have pwf: "pool_wf p" using wf by (simp add: queue_wf_def)
  obtain idx p1 where al: "allocate p = (Some idx, p1)"
    using allocate_None [OF pwf] room by (cases "allocate p") (auto split: option.splits)
  note A = allocate_Some [OF pwf al]
  define q1 where "q1 = q_make_room q"
  define q' where "q' = q1\<lparr>pointers := (pointers q1)[q_tail q1 := Some idx], q_tail := Suc (q_tail q1)\<rparr>"
  define p' where "p' = store idx ord p1"
  have q1: "q_window q1 = q_window q" "q_head q1 \<le> q_tail q1" "q_tail q1 < length (pointers q1)"
    using wf q_make_room_spec [of q] by (simp_all add: queue_wf_def q1_def)
  have "q_window q' = q_window q1 @ [Some idx]"
    using q1(2,3) by (simp add: q'_def q_window_def Suc_diff_le take_Suc_conv_app_nth drop_update_swap)
  then have win: "q_window q' = q_window q @ [Some idx]" by (simp add: q1(1))
  then have ptrs: "q_ptrs q' = q_ptrs q @ [idx]" by (simp add: q_ptrs_def)
  have wf': "queue_wf p' q'"
    using wf q1 win ptrs A(1,3,4) by (auto simp: queue_wf_def q'_def p'_def)
  have sub: "set (q_ptrs q) \<subseteq> live_slots p" using wf by (simp add: queue_wf_def)
  then have "\<forall>i \<in> set (q_ptrs q). storage p' ! i = storage p ! i"
    using A(1) by (auto simp: p'_def storage_store A(5) intro!: nth_list_update_neq)
  then have lst: "queue_list p' q' = queue_list p q @ [ord]"
    using A(2,5) by (simp add: queue_list_def ptrs p'_def storage_store pool_capacity_def)
  have "push_back ord p q = (None, p', q')"
    by (simp add: push_back_def al q1_def [symmetric] q'_def p'_def Let_def)
  then show thesis
    using wf' ptrs lst A by (intro that [of p' q' idx]) (simp_all add: p'_def storage_store)
qed

lemma pop_front_ok:
  assumes wf: "queue_wf p q" and ne: "queue_list p q \<noteq> []"
  obtains p' q' where "pop_front p q = Inr (p', q')" and "queue_wf p' q'"
    and "q_ptrs q' = tl (q_ptrs q)" and "queue_list p' q' = tl (queue_list p q)"
    and "available p' = Suc (available p)" and "live_slots p' = live_slots p - {hd (q_ptrs q)}"
    and "storage p' = storage p"
proof -
  have ht: "q_head q < q_tail q" "q_tail q \<le> length (pointers q)"
    using wf ne q_empty_iff [OF wf] by (auto simp: q_empty_def queue_wf_def)
  have sz: "0 < q_size q" using ht by (simp add: q_size_def)
  note P = pointers_q_ptr [OF wf sz]
  have live: "q_ptr q 0 \<in> live_slots p" using P(2) wf by (auto simp: queue_wf_def)
  have pwf: "pool_wf p" using wf by (simp add: queue_wf_def)
  obtain p' where D: "deallocate (Some (q_ptr q 0)) p = Inr p'" "pool_wf p'"
    "live_slots p' = live_slots p - {q_ptr q 0}" "storage p' = storage p"
    "available p' = Suc (available p)"
    using deallocate_live [OF pwf live] by metis
  define q1 where "q1 = q\<lparr>pointers := (pointers q)[q_head q := None], q_head := Suc (q_head q)\<rparr>"
  have win: "q_window q = Some (q_ptr q 0) # q_window q1"
    using ht P(1) by (simp add: q1_def q_window_def drop_update_cancel flip: Cons_nth_drop_Suc)
      (metis Suc_diff_Suc take_Suc_Cons)
  then have ptrs: "q_ptrs q = q_ptr q 0 # q_ptrs q1" by (simp add: q_ptrs_def)
  have bd1: "q_head (q_reset q1) \<le> q_tail (q_reset q1)"
    "q_tail (q_reset q1) \<le> length (pointers (q_reset q1))"
    using ht q_reset_bounds [of q1] by (auto simp: q1_def)
  have "queue_wf p' (q_reset q1)"
    using wf win ptrs D(2,3) bd1 by (auto simp: queue_wf_def)
  moreover have "pop_front p q = Inr (p', q_reset q1)"
    using ht P(1) D(1) by (simp add: pop_front_def q_empty_def q1_def)
  moreover have "q_ptrs (q_reset q1) = tl (q_ptrs q)" by (simp add: ptrs)
  moreover have "queue_list p' (q_reset q1) = tl (queue_list p q)"
    by (simp add: queue_list_def ptrs D(4))
  ultimately show thesis using D by (intro that [of p' "q_reset q1"]) (simp_all add: ptrs)
qed

lemma erase_at_ok:
  assumes wf: "queue_wf p q" and i: "i < length (queue_list p q)"
  obtains p' q' where "erase_at i p q = Inr (p', q')" and "queue_wf p' q'"
    and "q_ptrs q' = list_erase i (q_ptrs q)" and "queue_list p' q' = list_erase i (queue_list p q)"
    and "available p' = Suc (available p)" and "live_slots p' = live_slots p - {q_ptrs q ! i}"
    and "storage p' = storage p"
proof -
  have sz: "i < q_size q" using i by (simp add: length_queue_list [OF wf])
  note P = pointers_q_ptr [OF wf sz]
  have live: "q_ptr q i \<in> live_slots p" using P(2) wf by (auto simp: queue_wf_def)
  have pwf: "pool_wf p" using wf by (simp add: queue_wf_def)
  have bd: "q_head q \<le> q_tail q" "q_tail q \<le> length (pointers q)" using wf by (auto simp: queue_wf_def)
  obtain p' where D: "deallocate (Some (q_ptr q i)) p = Inr p'" "pool_wf p'"
    "live_slots p' = live_slots p - {q_ptr q i}" "storage p' = storage p"
    "available p' = Suc (available p)"
    using deallocate_live [OF pwf live] by metis
  define ps where "ps = q_shift (q_head q + i + 1) (q_tail q) (pointers q)"
  define q1 where "q1 = q\<lparr>pointers := ps[q_tail q - 1 := None], q_tail := q_tail q - 1\<rparr>"
  have S: "length ps = length (pointers q)" "\<And>k. k < length (pointers q) \<Longrightarrow>
      ps ! k = (if q_head q + i \<le> k \<and> Suc k < q_tail q then pointers q ! Suc k else pointers q ! k)"
    using q_shift_spec [of "q_head q + i + 1" "q_tail q" "pointers q"] bd by (auto simp: ps_def)
  have win: "q_window q1 = list_erase i (q_window q)"
    using sz bd by (intro nth_equalityI)
      (auto simp: q1_def q_window_def q_size_def S nth_list_erase nth_list_update)
  have ptrs: "q_ptrs q1 = list_erase i (q_ptrs q)"
    by (simp add: q_ptrs_def win list_erase_map)
  have iq: "i < length (q_ptrs q)" by (simp add: length_q_ptrs [OF wf] sz)
  have bd1: "q_head (q_reset q1) \<le> q_tail (q_reset q1)"
    "q_tail (q_reset q1) \<le> length (pointers (q_reset q1))"
    using bd sz S(1) q_reset_bounds [of q1] by (auto simp: q1_def q_size_def)
  have notin: "q_ptrs q ! i \<notin> set (list_erase i (q_ptrs q))"
    using wf iq by (intro nth_notin_list_erase) (simp_all add: queue_wf_def)
  have "queue_wf p' (q_reset q1)"
    using wf ptrs D(2,3) bd1 notin
    by (auto simp: queue_wf_def win distinct_list_erase q_ptrs_nth [OF wf sz] dest: in_set_list_eraseD)
  moreover have "erase_at i p q = Inr (p', q_reset q1)"
    using P(1) D(1) by (simp add: erase_at_def q1_def ps_def Let_def)
  moreover have "queue_list p' (q_reset q1) = list_erase i (queue_list p q)"
    by (simp add: queue_list_def ptrs D(4) list_erase_map)
  ultimately show thesis
    using D ptrs by (intro that [of p' "q_reset q1"]) (simp_all add: q_ptrs_nth [OF wf sz])
qed

lemma q_put_ok:
  assumes wf: "queue_wf p q" and i: "i < length (queue_list p q)"
  shows "queue_wf (q_put i ord p q) q" and "queue_list (q_put i ord p q) q = (queue_list p q)[i := ord]"
    and "available (q_put i ord p q) = available p"
proof -
  have sz: "i < q_size q" using i by (simp add: length_queue_list [OF wf])
  have lt: "q_ptr q i < length (storage p)"
    using pointers_q_ptr(2) [OF wf sz] wf live_slots_less by (auto simp: queue_wf_def)
  have eq: "\<And>k. k < length (q_ptrs q) \<Longrightarrow> q_ptr q i = q_ptrs q ! k \<longleftrightarrow> i = k"
    using sz wf by (metis queue_wf_def length_q_ptrs nth_eq_iff_index_eq q_ptrs_nth)
  have iq: "i < length (q_ptrs q)" by (simp add: length_q_ptrs [OF wf] sz)
  show "queue_wf (q_put i ord p q) q" using wf by (simp add: queue_wf_def q_put_def)
  show "available (q_put i ord p q) = available p" by (simp add: q_put_def)
  show "queue_list (q_put i ord p q) q = (queue_list p q)[i := ord]"
    using lt iq by (intro nth_equalityI)
      (simp_all add: queue_list_def q_put_def storage_store nth_list_update eq)
qed

text \<open>Each operation leaves the other queues of the pool alone.\<close>

lemma frame_remove:
  assumes wf: "queue_wf p r" and pwf: "pool_wf p'" and st: "storage p' = storage p"
    and live: "live_slots p' = live_slots p - {k}" and k: "k \<in> set (q_ptrs q)"
    and dis: "set (q_ptrs q) \<inter> set (q_ptrs r) = {}" and sub: "set (q_ptrs q') \<subseteq> set (q_ptrs q)"
  shows "queue_wf p' r \<and> queue_list p' r = queue_list p r \<and> set (q_ptrs q') \<inter> set (q_ptrs r) = {}"
proof -
  have "set (q_ptrs r) \<subseteq> live_slots p" using wf by (simp add: queue_wf_def)
  then have "set (q_ptrs r) \<subseteq> live_slots p'" using k dis unfolding live by blast
  then have "queue_wf p' r" by (rule queue_wf_live_cong [OF wf pwf])
  moreover have "queue_list p' r = queue_list p r" by (simp add: queue_list_def st)
  ultimately show ?thesis using dis sub by blast
qed

lemma push_back_frame:
  assumes wf: "queue_wf p q" "queue_wf p r" and dis: "set (q_ptrs q) \<inter> set (q_ptrs r) = {}"
    and eq: "push_back x p q = (e, p', q')"
  shows "queue_wf p' r \<and> queue_list p' r = queue_list p r \<and> set (q_ptrs q') \<inter> set (q_ptrs r) = {}"
proof (cases "available p = 0")
  case True
  obtain q1 where "push_back x p q = (Some (Runtime_error ''OrderQueue: OrderPool exhausted''), p, q1)"
    and "q_ptrs q1 = q_ptrs q"
    using push_back_full [OF wf(1) True] by metis
  then have "p' = p" and "q_ptrs q' = q_ptrs q" using eq by simp_all
  then show ?thesis using wf(2) dis by simp
next
  case False
  then obtain idx where i: "queue_wf p' q'" "q_ptrs q' = q_ptrs q @ [idx]" "idx \<notin> live_slots p"
    "live_slots p' = insert idx (live_slots p)" "storage p' = (storage p)[idx := x]"
    using push_back_ok [OF wf(1), of x] eq by (metis gr0I prod.inject)
  have sub: "set (q_ptrs r) \<subseteq> live_slots p" using wf(2) by (simp add: queue_wf_def)
  then have idx: "idx \<notin> set (q_ptrs r)" using i(3) by blast
  have "queue_wf p' r"
    using wf(2) i(1,4) sub by (intro queue_wf_live_cong [OF wf(2)]) (auto simp: queue_wf_def)
  moreover have "queue_list p' r = queue_list p r"
    using idx by (intro queue_list_cong) (metis i(5) nth_list_update_neq)
  ultimately show ?thesis using dis idx by (simp add: i(2))
qed

lemma pop_front_frame:
  assumes wf: "queue_wf p q" "queue_wf p r" and dis: "set (q_ptrs q) \<inter> set (q_ptrs r) = {}"
    and ne: "queue_list p q \<noteq> []" and eq: "pop_front p q = Inr (p', q')"
  shows "queue_wf p' r \<and> queue_list p' r = queue_list p r \<and> set (q_ptrs q') \<inter> set (q_ptrs r) = {}"
proof -
  have i: "queue_wf p' q'" "q_ptrs q' = tl (q_ptrs q)" "storage p' = storage p"
    "live_slots p' = live_slots p - {hd (q_ptrs q)}"
    using pop_front_ok [OF wf(1) ne] eq by (metis Inr_inject prod.inject)+
  have "q_ptrs q \<noteq> []" using ne by (simp add: queue_list_def)
  then have "hd (q_ptrs q) \<in> set (q_ptrs q)" and "set (q_ptrs q') \<subseteq> set (q_ptrs q)"
    by (auto simp: i(2) dest: list.set_sel(2))
  moreover have "pool_wf p'" using i(1) by (simp add: queue_wf_def)
  ultimately show ?thesis by (intro frame_remove [OF wf(2) _ i(3,4) _ dis])
qed

lemma erase_at_frame:
  assumes wf: "queue_wf p q" "queue_wf p r" and dis: "set (q_ptrs q) \<inter> set (q_ptrs r) = {}"
    and l: "i < length (queue_list p q)" and eq: "erase_at i p q = Inr (p', q')"
  shows "queue_wf p' r \<and> queue_list p' r = queue_list p r \<and> set (q_ptrs q') \<inter> set (q_ptrs r) = {}"
proof -
  have i: "queue_wf p' q'" "q_ptrs q' = list_erase i (q_ptrs q)" "storage p' = storage p"
    "live_slots p' = live_slots p - {q_ptrs q ! i}"
    using erase_at_ok [OF wf(1) l] eq by (metis Inr_inject prod.inject)+
  have "q_ptrs q ! i \<in> set (q_ptrs q)" and "set (q_ptrs q') \<subseteq> set (q_ptrs q)"
    using l by (simp_all add: queue_list_def i(2) set_list_erase_subset)
  moreover have "pool_wf p'" using i(1) by (simp add: queue_wf_def)
  ultimately show ?thesis by (intro frame_remove [OF wf(2) _ i(3,4) _ dis])
qed

lemma q_put_frame:
  assumes wf: "queue_wf p q" "queue_wf p r" and dis: "set (q_ptrs q) \<inter> set (q_ptrs r) = {}"
    and l: "i < length (queue_list p q)"
  shows "queue_wf (q_put i x p q) r \<and> queue_list (q_put i x p q) r = queue_list p r"
proof -
  have "i < q_size q" using l by (simp add: length_queue_list [OF wf(1)])
  then have "q_ptr q i \<notin> set (q_ptrs r)" using pointers_q_ptr(2) [OF wf(1)] dis by blast
  then have "queue_list (q_put i x p q) r = queue_list p r"
    by (intro queue_list_cong) (metis nth_list_update_neq q_put_def storage_store)
  then show ?thesis using wf(2) by (simp add: queue_wf_def q_put_def)
qed

subsection \<open>The interface the order book relies on\<close>

locale pooled_queue =
  fixes wf :: "'p \<Rightarrow> 'q \<Rightarrow> bool"
    and contents :: "'p \<Rightarrow> 'q \<Rightarrow> 'a list"
    and slots :: "'q \<Rightarrow> nat set"
    and room :: "'p \<Rightarrow> nat"
    and push :: "'a \<Rightarrow> 'p \<Rightarrow> 'q \<Rightarrow> 'e option \<times> 'p \<times> 'q"
    and pop :: "'p \<Rightarrow> 'q \<Rightarrow> 'e + 'p \<times> 'q"
    and erase :: "nat \<Rightarrow> 'p \<Rightarrow> 'q \<Rightarrow> 'e + 'p \<times> 'q"
    and put :: "nat \<Rightarrow> 'a \<Rightarrow> 'p \<Rightarrow> 'q \<Rightarrow> 'p"
  assumes push_ok: "wf p q \<Longrightarrow> 0 < room p \<Longrightarrow> \<exists>p' q'. push x p q = (None, p', q') \<and> wf p' q' \<and>
      contents p' q' = contents p q @ [x] \<and> room p = Suc (room p')"
    and push_full: "wf p q \<Longrightarrow> room p = 0 \<Longrightarrow> \<exists>e q'. push x p q = (Some e, p, q') \<and> wf p q' \<and>
      contents p q' = contents p q"
    and pop_ok: "wf p q \<Longrightarrow> contents p q \<noteq> [] \<Longrightarrow> \<exists>p' q'. pop p q = Inr (p', q') \<and> wf p' q' \<and>
      contents p' q' = tl (contents p q) \<and> room p' = Suc (room p)"
    and erase_ok: "wf p q \<Longrightarrow> i < length (contents p q) \<Longrightarrow> \<exists>p' q'. erase i p q = Inr (p', q') \<and>
      wf p' q' \<and> contents p' q' = list_erase i (contents p q) \<and> room p' = Suc (room p)"
    and put_ok: "wf p q \<Longrightarrow> i < length (contents p q) \<Longrightarrow> wf (put i x p q) q \<and>
      contents (put i x p q) q = (contents p q)[i := x] \<and> room (put i x p q) = room p"
    and push_frame: "wf p q \<Longrightarrow> wf p r \<Longrightarrow> slots q \<inter> slots r = {} \<Longrightarrow> push x p q = (e, p', q') \<Longrightarrow>
      wf p' r \<and> contents p' r = contents p r \<and> slots q' \<inter> slots r = {}"
    and pop_frame: "wf p q \<Longrightarrow> wf p r \<Longrightarrow> slots q \<inter> slots r = {} \<Longrightarrow> contents p q \<noteq> [] \<Longrightarrow>
      pop p q = Inr (p', q') \<Longrightarrow> wf p' r \<and> contents p' r = contents p r \<and> slots q' \<inter> slots r = {}"
    and erase_frame: "wf p q \<Longrightarrow> wf p r \<Longrightarrow> slots q \<inter> slots r = {} \<Longrightarrow> i < length (contents p q) \<Longrightarrow>
      erase i p q = Inr (p', q') \<Longrightarrow> wf p' r \<and> contents p' r = contents p r \<and> slots q' \<inter> slots r = {}"
    and put_frame: "wf p q \<Longrightarrow> wf p r \<Longrightarrow> slots q \<inter> slots r = {} \<Longrightarrow> i < length (contents p q) \<Longrightarrow>
      wf (put i x p q) r \<and> contents (put i x p q) r = contents p r"
begin

text \<open>A run of pushes, and a run of pops that collects the fronts.\<close>

fun push_all :: "'a list \<Rightarrow> 'p \<Rightarrow> 'q \<Rightarrow> ('p \<times> 'q) option" where
  "push_all [] p q = Some (p, q)"
| "push_all (x # xs) p q = (case push x p q of
      (None, p', q') \<Rightarrow> push_all xs p' q' | (Some _, _, _) \<Rightarrow> None)"

fun pop_all :: "nat \<Rightarrow> 'p \<Rightarrow> 'q \<Rightarrow> ('a list \<times> 'p \<times> 'q) option" where
  "pop_all 0 p q = Some ([], p, q)"
| "pop_all (Suc n) p q = (case pop p q of
      Inl _ \<Rightarrow> None
    | Inr (p', q') \<Rightarrow> map_option (\<lambda>(xs, s). (hd (contents p q) # xs, s)) (pop_all n p' q'))"

lemma push_all_ok:
  assumes "wf p q" and "length xs \<le> room p"
  shows "\<exists>p' q'. push_all xs p q = Some (p', q') \<and> wf p' q' \<and>
     contents p' q' = contents p q @ xs \<and> room p = room p' + length xs"
  using assms
proof (induction xs arbitrary: p q)
  case Nil
  then show ?case by simp
next
  case (Cons x xs)
  then obtain p1 q1 where "push x p q = (None, p1, q1)" and 1: "wf p1 q1"
    "contents p1 q1 = contents p q @ [x]" "room p = Suc (room p1)"
    using push_ok [of p q x] by auto
  moreover obtain p2 q2 where "push_all xs p1 q1 = Some (p2, q2)" "wf p2 q2"
    "contents p2 q2 = contents p1 q1 @ xs" "room p1 = room p2 + length xs"
    using Cons.IH [OF 1(1)] Cons.prems(2) 1(3) by auto
  ultimately show ?case by auto
qed

lemma pop_all_ok:
  assumes "wf p q" and "n \<le> length (contents p q)"
  shows "\<exists>p' q'. pop_all n p q = Some (take n (contents p q), p', q') \<and> wf p' q' \<and>
     contents p' q' = drop n (contents p q) \<and> room p' = room p + n"
  using assms
proof (induction n arbitrary: p q)
  case 0
  then show ?case by simp
next
  case (Suc n)
  then obtain x xs where xs: "contents p q = x # xs" by (cases "contents p q") auto
  then obtain p1 q1 where "pop p q = Inr (p1, q1)" and 1: "wf p1 q1" "contents p1 q1 = xs"
    "room p1 = Suc (room p)"
    using pop_ok [OF Suc.prems(1)] by auto
  moreover obtain p2 q2 where "pop_all n p1 q1 = Some (take n xs, p2, q2)" "wf p2 q2"
    "contents p2 q2 = drop n xs" "room p2 = room p1 + n"
    using Suc.IH [OF 1(1)] Suc.prems(2) xs 1(2) by auto
  ultimately show ?case by (auto simp: xs)
qed

text \<open>First in, first out, and every slot is returned to the pool.\<close>

lemma fifo:
  assumes "wf p q" and "contents p q = []" and "length xs \<le> room p"
  shows "\<exists>p' q'. Option.bind (push_all xs p q) (\<lambda>(p1, q1). pop_all (length xs) p1 q1) = Some (xs, p', q') \<and>
     wf p' q' \<and> contents p' q' = [] \<and> room p' = room p"
proof -
  obtain p1 q1 where 1: "push_all xs p q = Some (p1, q1)" "wf p1 q1" "contents p1 q1 = xs"
    "room p = room p1 + length xs"
    using push_all_ok [OF assms(1,3)] assms(2) by auto
  then show ?thesis using pop_all_ok [OF 1(2), of "length xs"] by auto
qed

end

interpretation oq: pooled_queue queue_wf queue_list "\<lambda>q. set (q_ptrs q)" available
  push_back pop_front erase_at q_put
proof (unfold_locales, goal_cases)
  case (1 p q x)
  then show ?case using push_back_ok [OF 1(1), of x] by metis
next
  case (2 p q x)
  then show ?case using push_back_full [OF 2, of x] by (metis queue_list_def)
next
  case (3 p q)
  then show ?case using pop_front_ok [OF 3] by metis
next
  case (4 p q i)
  then show ?case using erase_at_ok [OF 4] by metis
next
  case (5 p q i x)
  then show ?case using q_put_ok [OF 5] by blast
next
  case (6 p q r x e p' q')
  then show ?case by (rule push_back_frame)
next
  case (7 p q r p' q')
  then show ?case by (rule pop_front_frame)
next
  case (8 p q r i p' q')
  then show ?case by (rule erase_at_frame)
next
  case (9 p q r i x)
  then show ?case by (rule q_put_frame)
qed

end
