(* ===== verification/Order_Book.thy ===== *)
theory Order_Book
  imports Order_Queue
begin

text \<open>
  The limit order book of \<open>include/OrderBook.h\<close> and \<open>src/OrderBook.cpp\<close>: the operations,
  in the order of the source.

  A price level holds its price and the sequence of its resting orders. The sequence is
  what \<open>Order_Queue.queue_list\<close> reads off the pointer vector and the pool: the laws of the
  locale \<open>pooled_queue\<close>, proved for the code's queue, say that \<open>push_back\<close>, \<open>pop_front\<close>,
  \<open>erase_at\<close> and a write through \<open>at(i)\<close> act on it as appending, \<open>tl\<close>, \<open>list_erase\<close> and list
  update, without touching another level, and that \<open>push_back\<close> throws exactly when
  the pool has no free slot. \<open>pool_free\<close> is \<open>order_pool_.available()\<close>: one less after
  \<open>push_back\<close>, one more after \<open>pop_front\<close> and \<open>erase_at\<close>.

  The code is written twice, once per side of the book. Where the two copies differ only in
  the vector and the direction of the price test, the model has one function with these
  two as arguments and the caller branches on the side.
\<close>

datatype stp_policy = STP_NONE | CANCEL_NEWEST | CANCEL_OLDEST | CANCEL_BOTH

record level =
  lv_price :: double
  lv_orders :: "order list"

record book =
  bids :: "level list"
  asks :: "level list"
  next_trade_id :: u64
  book_stp :: stp_policy
  pool_free :: nat

record replace_result =
  rr_success :: bool
  rr_trades :: "trade list"
  rr_final_remaining :: u32

definition OrderBook :: "nat \<Rightarrow> book" where
  "OrderBook capacity = \<lparr>bids = [], asks = [], next_trade_id = 1, book_stp = STP_NONE,
     pool_free = capacity\<rparr>"

definition setSTPPolicy :: "stp_policy \<Rightarrow> book \<Rightarrow> book" where
  "setSTPPolicy pol b = b\<lparr>book_stp := pol\<rparr>"

subsection \<open>Finding and adding a level\<close>

text \<open>
  The binary search of \<open>findBidLevel\<close> and \<open>findAskLevel\<close>: the two differ in the comparison
  \<open>ahead\<close> only.
\<close>

function find_level :: "(double \<Rightarrow> bool) \<Rightarrow> level list \<Rightarrow> nat \<Rightarrow> nat \<Rightarrow> nat" where
  "find_level ahead ls low high =
     (if low < high then
        let mid = low + (high - low) div 2 in
        if ahead (lv_price (ls ! mid)) then find_level ahead ls (mid + 1) high
        else find_level ahead ls low mid
      else low)"
  by pat_completeness auto
termination by (relation "measure (\<lambda>(_, _, low, high). high - low)") auto

declare find_level.simps [simp del]

definition findBidLevel :: "book \<Rightarrow> double \<Rightarrow> nat" where
  "findBidLevel b p = find_level (\<lambda>q. d_gt q p) (bids b) 0 (length (bids b))"

definition findAskLevel :: "book \<Rightarrow> double \<Rightarrow> nat" where
  "findAskLevel b p = find_level (\<lambda>q. d_lt q p) (asks b) 0 (length (asks b))"

text \<open>
  The body of \<open>addOrder\<close> for one side, given the index the search returned. \<open>None\<close>: the
  pool is exhausted, \<open>push_back\<close> throws, and the \<open>catch\<close> returns \<open>false\<close> with the level
  vector as it was.
\<close>

definition add_at_level :: "nat \<Rightarrow> order \<Rightarrow> nat \<Rightarrow> level list \<Rightarrow> (nat \<times> level list) option" where
  "add_at_level idx ord free ls =
     (if free = 0 then None
      else if idx < length ls \<and> d_eq (lv_price (ls ! idx)) (price ord)
        then Some (free - 1, ls[idx := (ls ! idx)\<lparr>lv_orders := lv_orders (ls ! idx) @ [ord]\<rparr>])
      else Some (free - 1, list_insert idx \<lparr>lv_price = price ord, lv_orders = [ord]\<rparr> ls))"

definition addOrder :: "order \<Rightarrow> book \<Rightarrow> bool \<times> book" where
  "addOrder ord b =
     (if quantity ord = 0 \<or> remaining_quantity ord = 0 then (False, b)
      else if side ord = BUY then
        (case add_at_level (findBidLevel b (price ord)) ord (pool_free b) (bids b) of
           None \<Rightarrow> (False, b)
         | Some (f, ls) \<Rightarrow> (True, b\<lparr>bids := ls, pool_free := f\<rparr>))
      else
        (case add_at_level (findAskLevel b (price ord)) ord (pool_free b) (asks b) of
           None \<Rightarrow> (False, b)
         | Some (f, ls) \<Rightarrow> (True, b\<lparr>asks := ls, pool_free := f\<rparr>)))"

subsection \<open>Locating an order by its identifier\<close>

text \<open>
  The nested loops \<open>for i ... for j ... if (at(j).order_id == order_id)\<close>: the first level
  that has the order, and the first such position in it.
\<close>

fun find_in_queue :: "u64 \<Rightarrow> order list \<Rightarrow> nat option" where
  "find_in_queue oid [] = None"
| "find_in_queue oid (x # xs) =
     (if order_id x = oid then Some 0 else map_option Suc (find_in_queue oid xs))"

fun find_in_levels :: "u64 \<Rightarrow> level list \<Rightarrow> (nat \<times> nat) option" where
  "find_in_levels oid [] = None"
| "find_in_levels oid (l # ls) =
     (case find_in_queue oid (lv_orders l) of
        Some j \<Rightarrow> Some (0, j)
      | None \<Rightarrow> map_option (\<lambda>(i, j). (Suc i, j)) (find_in_levels oid ls))"

definition order_at :: "nat \<Rightarrow> nat \<Rightarrow> level list \<Rightarrow> order" where
  "order_at i j ls = lv_orders (ls ! i) ! j"

text \<open>\<open>erase_at(j)\<close> on level \<open>i\<close>, and erasing the level when its queue became empty.\<close>

definition erase_order :: "nat \<Rightarrow> nat \<Rightarrow> level list \<Rightarrow> level list" where
  "erase_order i j ls =
     (let os = list_erase j (lv_orders (ls ! i)) in
      if os = [] then list_erase i ls else ls[i := (ls ! i)\<lparr>lv_orders := os\<rparr>])"

text \<open>A write through the reference \<open>levels[i].orders.at(j)\<close>.\<close>

definition put_order :: "nat \<Rightarrow> nat \<Rightarrow> order \<Rightarrow> level list \<Rightarrow> level list" where
  "put_order i j ord ls = ls[i := (ls ! i)\<lparr>lv_orders := (lv_orders (ls ! i))[j := ord]\<rparr>]"

definition cancelOrder :: "u64 \<Rightarrow> book \<Rightarrow> bool \<times> book" where
  "cancelOrder oid b =
     (case find_in_levels oid (bids b) of
        Some (i, j) \<Rightarrow> (True, b\<lparr>bids := erase_order i j (bids b), pool_free := Suc (pool_free b)\<rparr>)
      | None \<Rightarrow>
          (case find_in_levels oid (asks b) of
             Some (i, j) \<Rightarrow>
               (True, b\<lparr>asks := erase_order i j (asks b), pool_free := Suc (pool_free b)\<rparr>)
           | None \<Rightarrow> (False, b)))"

definition getOrderById :: "u64 \<Rightarrow> book \<Rightarrow> order option" where
  "getOrderById oid b =
     (case find_in_levels oid (bids b) of
        Some (i, j) \<Rightarrow> Some (order_at i j (bids b))
      | None \<Rightarrow>
          (case find_in_levels oid (asks b) of
             Some (i, j) \<Rightarrow> Some (order_at i j (asks b))
           | None \<Rightarrow> None))"

text \<open>\<open>applyFill\<close> at a located order: refuse an overfill, reduce, erase at zero.\<close>

definition fill_at :: "nat \<Rightarrow> nat \<Rightarrow> u32 \<Rightarrow> nat \<Rightarrow> level list \<Rightarrow> (nat \<times> level list) option" where
  "fill_at i j fill_qty free ls =
     (let ord = order_at i j ls in
      if remaining_quantity ord < fill_qty then None
      else
        let ord' = ord\<lparr>remaining_quantity := remaining_quantity ord - fill_qty\<rparr>;
            ls' = put_order i j ord' ls
        in if remaining_quantity ord' = 0 then Some (Suc free, erase_order i j ls')
           else Some (free, ls'))"

definition applyFill :: "u64 \<Rightarrow> u32 \<Rightarrow> book \<Rightarrow> bool \<times> book" where
  "applyFill oid fill_qty b =
     (if fill_qty = 0 then (False, b)
      else case find_in_levels oid (bids b) of
        Some (i, j) \<Rightarrow>
          (case fill_at i j fill_qty (pool_free b) (bids b) of
             None \<Rightarrow> (False, b)
           | Some (f, ls) \<Rightarrow> (True, b\<lparr>bids := ls, pool_free := f\<rparr>))
      | None \<Rightarrow>
          (case find_in_levels oid (asks b) of
             Some (i, j) \<Rightarrow>
               (case fill_at i j fill_qty (pool_free b) (asks b) of
                  None \<Rightarrow> (False, b)
                | Some (f, ls) \<Rightarrow> (True, b\<lparr>asks := ls, pool_free := f\<rparr>))
           | None \<Rightarrow> (False, b)))"

subsection \<open>The two scans before matching\<close>

text \<open>
  The price test that stops every walk over the opposite side: the incoming order is not a
  market order and its limit does not reach the level.
\<close>

definition blocked :: "order \<Rightarrow> double \<Rightarrow> bool" where
  "blocked inc p \<longleftrightarrow> otype inc \<noteq> MARKET \<and>
     (if side inc = BUY then d_lt (price inc) p else d_gt (price inc) p)"

definition opposite :: "order \<Rightarrow> book \<Rightarrow> level list" where
  "opposite inc b = (if side inc = BUY then asks b else bids b)"

text \<open>The inner loop of \<open>canFullyFill\<close>: \<open>None\<close> when it returned true, else the running sum.\<close>

fun fill_scan_queue :: "u64 \<Rightarrow> u64 \<Rightarrow> order list \<Rightarrow> u64 option" where
  "fill_scan_queue needed avail [] = Some avail"
| "fill_scan_queue needed avail (x # xs) =
     (let a = avail + ucast (remaining_quantity x) in
      if needed \<le> a then None else fill_scan_queue needed a xs)"

fun fill_scan :: "(double \<Rightarrow> bool) \<Rightarrow> u64 \<Rightarrow> u64 \<Rightarrow> level list \<Rightarrow> bool" where
  "fill_scan blk needed avail [] = False"
| "fill_scan blk needed avail (l # ls) =
     (if blk (lv_price l) then False
      else case fill_scan_queue needed avail (lv_orders l) of
        None \<Rightarrow> True
      | Some a \<Rightarrow> fill_scan blk needed a ls)"

definition canFullyFill :: "order \<Rightarrow> book \<Rightarrow> bool" where
  "canFullyFill inc b = fill_scan (blocked inc) (ucast (remaining_quantity inc)) 0 (opposite inc b)"

text \<open>The inner loop of \<open>wouldSelfTrade\<close>: the value it returned, or the quantity left.\<close>

fun self_scan_queue :: "u64 \<Rightarrow> u32 \<Rightarrow> order list \<Rightarrow> bool + u32" where
  "self_scan_queue tr rem [] = Inr rem"
| "self_scan_queue tr rem (x # xs) =
     (if remaining_quantity x = 0 then self_scan_queue tr rem xs
      else if trader_id x = tr then Inl True
      else let r = rem - min rem (remaining_quantity x) in
        if r = 0 then Inl False else self_scan_queue tr r xs)"

fun self_scan :: "(double \<Rightarrow> bool) \<Rightarrow> u64 \<Rightarrow> u32 \<Rightarrow> level list \<Rightarrow> bool" where
  "self_scan blk tr rem [] = False"
| "self_scan blk tr rem (l # ls) =
     (if blk (lv_price l) then False
      else case self_scan_queue tr rem (lv_orders l) of
        Inl r \<Rightarrow> r
      | Inr rem' \<Rightarrow> self_scan blk tr rem' ls)"

definition wouldSelfTrade :: "order \<Rightarrow> book \<Rightarrow> bool" where
  "wouldSelfTrade inc b = self_scan (blocked inc) (trader_id inc) (remaining_quantity inc) (opposite inc b)"

subsection \<open>Self-trade prevention: removing the trader's resting orders\<close>

text \<open>
  The inner loop erases the live orders of the trader, only the first one under
  \<open>CANCEL_OLDEST\<close>. It returns the remaining queue and the number of erased orders.
\<close>

fun stp_queue :: "bool \<Rightarrow> u64 \<Rightarrow> order list \<Rightarrow> order list \<times> nat" where
  "stp_queue oldest tr [] = ([], 0)"
| "stp_queue oldest tr (x # xs) =
     (if trader_id x = tr \<and> 0 < remaining_quantity x
      then (if oldest then (xs, 1)
            else let (ys, n) = stp_queue oldest tr xs in (ys, Suc n))
      else let (ys, n) = stp_queue oldest tr xs in (x # ys, n))"

fun stp_levels :: "bool \<Rightarrow> (double \<Rightarrow> bool) \<Rightarrow> u64 \<Rightarrow> level list \<Rightarrow> level list \<times> nat" where
  "stp_levels oldest blk tr [] = ([], 0)"
| "stp_levels oldest blk tr (l # ls) =
     (if blk (lv_price l) then (l # ls, 0)
      else
        let (os, n) = stp_queue oldest tr (lv_orders l);
            here = (if os = [] then [] else [l\<lparr>lv_orders := os\<rparr>])
        in if oldest \<and> 0 < n then (here @ ls, n)
           else let (ls', m) = stp_levels oldest blk tr ls in (here @ ls', n + m))"

definition set_opposite :: "order \<Rightarrow> level list \<Rightarrow> nat \<Rightarrow> book \<Rightarrow> book" where
  "set_opposite inc ls free b =
     (if side inc = BUY then b\<lparr>asks := ls, pool_free := free\<rparr>
      else b\<lparr>bids := ls, pool_free := free\<rparr>)"

definition stp_remove :: "order \<Rightarrow> book \<Rightarrow> book" where
  "stp_remove inc b =
     (let (ls, n) = stp_levels (book_stp b = CANCEL_OLDEST) (blocked inc) (trader_id inc) (opposite inc b)
      in set_opposite inc ls (pool_free b + n) b)"

subsection \<open>The matching loop\<close>

text \<open>
  The loop variables of \<open>matchOrder\<close>: the opposite side's levels, the free slots, the
  incoming order, \<open>next_trade_id_\<close>, the trades so far, and the exception a \<open>Trade\<close> constructor
  threw, which leaves the loop with the quantities already reduced.
\<close>

record match_st =
  ms_levels :: "level list"
  ms_free :: nat
  ms_in :: order
  ms_next :: u64
  ms_trades :: "trade list"
  ms_exn :: "exn option"

text \<open>\<open>while (!empty() && front().remaining_quantity == 0) pop_front();\<close>\<close>

fun drop_filled :: "nat \<Rightarrow> order list \<Rightarrow> nat \<times> order list" where
  "drop_filled free [] = (free, [])"
| "drop_filled free (x # xs) =
     (if remaining_quantity x = 0 then drop_filled (Suc free) xs else (free, x # xs))"

definition make_trade :: "(u64 \<Rightarrow> i64) \<Rightarrow> u64 \<Rightarrow> order \<Rightarrow> order \<Rightarrow> double \<Rightarrow> u32 \<Rightarrow> exn + trade" where
  "make_trade now tid inc rest p qty =
     (if side inc = BUY
      then Trade (now tid) tid (order_id inc) (order_id rest) (trader_id inc) (trader_id rest) p qty
      else Trade (now tid) tid (order_id rest) (order_id inc) (trader_id rest) (trader_id inc) p qty)"

text \<open>
  One iteration of the loop; \<open>None\<close> when the loop is left. \<open>now\<close> gives the steady clock the
  constructor of the trade with a given identifier reads.
\<close>

definition match_step :: "(u64 \<Rightarrow> i64) \<Rightarrow> match_st \<Rightarrow> match_st option" where
  "match_step now s =
     (if ms_exn s \<noteq> None \<or> remaining_quantity (ms_in s) = 0 then None
      else case ms_levels s of
        [] \<Rightarrow> None
      | l # ls \<Rightarrow>
          if blocked (ms_in s) (lv_price l) then None
          else (case drop_filled (ms_free s) (lv_orders l) of
            (free, []) \<Rightarrow> Some (s\<lparr>ms_levels := ls, ms_free := free\<rparr>)
          | (free, rest # os) \<Rightarrow>
              let inc = ms_in s;
                  qty = min (remaining_quantity inc) (remaining_quantity rest);
                  inc' = inc\<lparr>remaining_quantity := remaining_quantity inc - qty\<rparr>;
                  rest' = rest\<lparr>remaining_quantity := remaining_quantity rest - qty\<rparr>;
                  s1 = s\<lparr>ms_in := inc', ms_next := ms_next s + 1\<rparr>
              in (case make_trade now (ms_next s) inc rest (lv_price l) qty of
                    Inl e \<Rightarrow> Some (s1\<lparr>ms_levels := l\<lparr>lv_orders := rest' # os\<rparr> # ls, ms_free := free,
                                     ms_exn := Some e\<rparr>)
                  | Inr t \<Rightarrow>
                      let s2 = s1\<lparr>ms_trades := ms_trades s @ [t]\<rparr> in
                      if remaining_quantity rest' = 0 then
                        Some (s2\<lparr>ms_levels := (if os = [] then ls else l\<lparr>lv_orders := os\<rparr> # ls),
                                 ms_free := Suc free\<rparr>)
                      else Some (s2\<lparr>ms_levels := l\<lparr>lv_orders := rest' # os\<rparr> # ls, ms_free := free\<rparr>))))"

text \<open>
  Every iteration removes a level, removes an order, finishes the incoming order or throws:
  the measure that bounds the loop.
\<close>

definition match_measure :: "match_st \<Rightarrow> nat" where
  "match_measure s = sum_list (map (\<lambda>l. Suc (length (lv_orders l))) (ms_levels s)) +
     (if remaining_quantity (ms_in s) = 0 \<or> ms_exn s \<noteq> None then 0 else 1)"

lemma drop_filled_length: "drop_filled f xs = (g, ys) \<Longrightarrow> length ys \<le> length xs"
  by (induction f xs rule: drop_filled.induct) (auto split: if_splits)

lemma match_step_decreases: "match_step now s = Some s' \<Longrightarrow> match_measure s' < match_measure s"
proof -
  assume step: "match_step now s = Some s'"
  then obtain l ls where ls: "ms_levels s = l # ls" and ne: "ms_exn s = None"
    "remaining_quantity (ms_in s) \<noteq> 0"
    by (auto simp: match_step_def split: list.splits if_splits)
  obtain f os where df: "drop_filled (ms_free s) (lv_orders l) = (f, os)" by fastforce
  have len: "length os \<le> length (lv_orders l)" using drop_filled_length [OF df] .
  show ?thesis
    using step ls ne df len
    by (auto simp: match_step_def match_measure_def Let_def min_def
        split: list.splits if_splits sum.splits)
qed

function match_loop :: "(u64 \<Rightarrow> i64) \<Rightarrow> match_st \<Rightarrow> match_st" where
  "match_loop now s = (case match_step now s of None \<Rightarrow> s | Some s' \<Rightarrow> match_loop now s')"
  by pat_completeness auto
termination
  by (relation "measure (\<lambda>(now, s). match_measure s)") (auto simp: match_step_decreases)

declare match_loop.simps [simp del]

text \<open>From the matching loop to the end of \<open>matchOrder\<close>: what remains of a limit order rests.\<close>

definition match_and_rest :: "(u64 \<Rightarrow> i64) \<Rightarrow> order \<Rightarrow> book \<Rightarrow> (exn + trade list) \<times> order \<times> book" where
  "match_and_rest now inc b =
     (let s = match_loop now \<lparr>ms_levels = opposite inc b, ms_free = pool_free b, ms_in = inc,
                 ms_next = next_trade_id b, ms_trades = [], ms_exn = None\<rparr>;
          b1 = (set_opposite inc (ms_levels s) (ms_free s) b)\<lparr>next_trade_id := ms_next s\<rparr>
      in case ms_exn s of
           Some e \<Rightarrow> (Inl e, ms_in s, b1)
         | None \<Rightarrow>
             let inc' = ms_in s;
                 b2 = (if 0 < remaining_quantity inc' \<and> otype inc' \<noteq> MARKET \<and>
                          otype inc' \<noteq> IOC \<and> otype inc' \<noteq> FOK
                       then snd (addOrder inc' b1) else b1)
             in (Inr (ms_trades s), inc', b2))"

text \<open>
  \<open>matchOrder\<close> returns the trades or the exception, the incoming order (passed by
  reference) and the book.
\<close>

definition matchOrder :: "(u64 \<Rightarrow> i64) \<Rightarrow> order \<Rightarrow> book \<Rightarrow> (exn + trade list) \<times> order \<times> book" where
  "matchOrder now inc b =
     (if otype inc = FOK \<and> \<not> canFullyFill inc b then (Inr [], inc, b)
      else if book_stp b \<noteq> STP_NONE \<and> wouldSelfTrade inc b then
        (case book_stp b of
           CANCEL_NEWEST \<Rightarrow> (Inr [], inc, b)
         | CANCEL_OLDEST \<Rightarrow> match_and_rest now inc (stp_remove inc b)
         | CANCEL_BOTH \<Rightarrow> (Inr [], inc, stp_remove inc b)
         | STP_NONE \<Rightarrow> match_and_rest now inc b)
      else match_and_rest now inc b)"

subsection \<open>Replacing an order\<close>

definition side_levels :: "order_side \<Rightarrow> book \<Rightarrow> level list" where
  "side_levels sd b = (if sd = BUY then bids b else asks b)"

definition set_side_levels :: "order_side \<Rightarrow> level list \<Rightarrow> nat \<Rightarrow> book \<Rightarrow> book" where
  "set_side_levels sd ls free b =
     (if sd = BUY then b\<lparr>bids := ls, pool_free := free\<rparr> else b\<lparr>asks := ls, pool_free := free\<rparr>)"

abbreviation rr_fail :: replace_result where
  "rr_fail \<equiv> \<lparr>rr_success = False, rr_trades = [], rr_final_remaining = 0\<rparr>"

abbreviation rr_done :: "u32 \<Rightarrow> replace_result" where
  "rr_done r \<equiv> \<lparr>rr_success = True, rr_trades = [], rr_final_remaining = r\<rparr>"

text \<open>
  The lambda \<open>replaceInLevel\<close>, applied to the bid vector (\<open>sd = BUY\<close>) or the ask vector.
  \<open>sysnow\<close> is \<open>nowSystemNs()\<close>.
\<close>

definition replaceInLevel ::
  "(u64 \<Rightarrow> i64) \<Rightarrow> i64 \<Rightarrow> u64 \<Rightarrow> double \<Rightarrow> u32 \<Rightarrow> u64 \<Rightarrow> order_side \<Rightarrow> nat \<Rightarrow> nat \<Rightarrow> book \<Rightarrow>
   (exn + replace_result) \<times> book" where
  "replaceInLevel now sysnow oid new_price new_qty new_priority_seq sd i j b =
     (let ls = side_levels sd b;
          old = order_at i j ls;
          already_filled = quantity old - remaining_quantity old;
          b_erased = set_side_levels sd (erase_order i j ls) (Suc (pool_free b)) b
      in if 0 < new_qty \<and> new_qty < already_filled then (Inr rr_fail, b)
         else if new_qty = 0 then (Inr (rr_done 0), b_erased)
         else if d_eq new_price (price old) \<and> new_qty < quantity old then
           let existing = old\<lparr>quantity := new_qty, remaining_quantity := new_qty - already_filled,
                              priority_seq := priority_seq old, timestamp := sysnow\<rparr>
           in (Inr (rr_done (remaining_quantity existing)),
               set_side_levels sd (put_order i j existing ls) (pool_free b) b)
         else
           let new_order = (order_default sysnow)\<lparr>order_id := oid, trader_id := trader_id old,
                 side := side old, otype := otype old, price := new_price, quantity := new_qty,
                 remaining_quantity := new_qty - already_filled, symbol_id := symbol_id old,
                 timestamp := sysnow, received_time := received_time old,
                 priority_seq := new_priority_seq\<rparr>
           in if remaining_quantity new_order = 0 then (Inr (rr_done 0), b_erased)
              else (case matchOrder now new_order b_erased of
                (Inl e, _, b2) \<Rightarrow> (Inl e, b2)
              | (Inr trades, new_order', b2) \<Rightarrow>
                  (Inr \<lparr>rr_success = True, rr_trades = trades,
                        rr_final_remaining = remaining_quantity new_order'\<rparr>, b2)))"

definition replaceOrder ::
  "(u64 \<Rightarrow> i64) \<Rightarrow> i64 \<Rightarrow> u64 \<Rightarrow> double \<Rightarrow> u32 \<Rightarrow> u64 \<Rightarrow> book \<Rightarrow> (exn + replace_result) \<times> book" where
  "replaceOrder now sysnow oid new_price new_qty new_priority_seq b =
     (if 0 < new_qty \<and> (\<not> isfinite new_price \<or> d_le new_price (Fin 0)) then (Inr rr_fail, b)
      else case find_in_levels oid (bids b) of
        Some (i, j) \<Rightarrow> replaceInLevel now sysnow oid new_price new_qty new_priority_seq BUY i j b
      | None \<Rightarrow>
          (case find_in_levels oid (asks b) of
             Some (i, j) \<Rightarrow> replaceInLevel now sysnow oid new_price new_qty new_priority_seq SELL i j b
           | None \<Rightarrow> (Inr rr_fail, b)))"

subsection \<open>Queries\<close>

definition getBestBid :: "book \<Rightarrow> double" where
  "getBestBid b = (case bids b of [] \<Rightarrow> Fin 0 | l # _ \<Rightarrow> lv_price l)"

definition getBestAsk :: "book \<Rightarrow> double" where
  "getBestAsk b = (case asks b of [] \<Rightarrow> Fin 0 | l # _ \<Rightarrow> lv_price l)"

definition getOrderCount :: "book \<Rightarrow> nat" where
  "getOrderCount b = sum_list (map (length \<circ> lv_orders) (bids b)) +
     sum_list (map (length \<circ> lv_orders) (asks b))"

end
