(* ===== verification/Book_Invariant.thy ===== *)
theory Book_Invariant
  imports Order_Book
begin

text \<open>
  The well-formedness invariant of the order book and the abstract view of a side as one
  flat sequence of orders in priority order (best price first, then first come first
  served). Each operation of \<open>Order_Book\<close> that does not match is characterised by its effect
  on the flat sequences, and keeps the invariant.
\<close>

subsection \<open>The flat view\<close>

definition all_orders :: "level list \<Rightarrow> order list" where
  "all_orders ls = concat (map lv_orders ls)"

definition book_orders :: "book \<Rightarrow> order list" where
  "book_orders b = all_orders (bids b) @ all_orders (asks b)"

abbreviation ids :: "order list \<Rightarrow> u64 list" where
  "ids os \<equiv> map order_id os"

lemma all_orders_simps [simp]:
  "all_orders [] = []"
  "all_orders (l # ls) = lv_orders l @ all_orders ls"
  "all_orders (ls @ ms) = all_orders ls @ all_orders ms"
  by (simp_all add: all_orders_def)

lemma getOrderCount_eq: "getOrderCount b = length (book_orders b)"
  by (simp add: getOrderCount_def book_orders_def all_orders_def length_concat)

lemma find_in_queue_Some:
  "find_in_queue oid xs = Some j \<Longrightarrow> j < length xs \<and> order_id (xs ! j) = oid \<and>
     xs = take j xs @ xs ! j # drop (Suc j) xs \<and> oid \<notin> set (ids (take j xs))"
  by (induction oid xs arbitrary: j rule: find_in_queue.induct) (auto split: if_splits)

lemma find_in_queue_None: "find_in_queue oid xs = None \<longleftrightarrow> oid \<notin> set (ids xs)"
  by (induction oid xs rule: find_in_queue.induct) auto

lemma find_in_levels_None: "find_in_levels oid ls = None \<longleftrightarrow> oid \<notin> set (ids (all_orders ls))"
proof (induction ls)
  case Nil
  then show ?case by simp
next
  case (Cons l ls)
  then show ?case
    using find_in_queue_None [of oid "lv_orders l"] by (auto split: option.splits)
qed

text \<open>
  A located order splits the level vector, its queue, and the flat sequence around it.
\<close>

lemma find_in_levels_split:
  assumes "find_in_levels oid ls = Some (i, j)"
  obtains ls1 l ls2 os1 x os2 where "ls = ls1 @ l # ls2" and "i = length ls1"
    and "lv_orders l = os1 @ x # os2" and "j = length os1" and "order_id x = oid"
    and "oid \<notin> set (ids (all_orders ls1 @ os1))" and "order_at i j ls = x"
  using assms
proof (induction ls arbitrary: i thesis)
  case Nil
  then show ?case by simp
next
  case (Cons l ls)
  show ?case
  proof (cases "find_in_queue oid (lv_orders l)")
    case (Some k)
    with Cons.prems(2) have ij: "i = 0" "j = k" by auto
    note S = find_in_queue_Some [OF Some]
    show ?thesis
      using S ij by (intro Cons.prems(1) [of "[]" l ls "take k (lv_orders l)" "lv_orders l ! k" "drop (Suc k) (lv_orders l)"])
        (auto simp: order_at_def)
  next
    case None
    with Cons.prems(2) obtain i' where i': "i = Suc i'" "find_in_levels oid ls = Some (i', j)"
      by auto
    obtain ls1 m ls2 os1 x os2 where "ls = ls1 @ m # ls2" "i' = length ls1"
      "lv_orders m = os1 @ x # os2" "j = length os1" "order_id x = oid"
      "oid \<notin> set (ids (all_orders ls1 @ os1))" "order_at i' j ls = x"
      using Cons.IH [OF _ i'(2)] by blast
    then show ?thesis
      using None i'(1) by (intro Cons.prems(1) [of "l # ls1" m ls2 os1 x os2])
        (auto simp: order_at_def find_in_queue_None)
  qed
qed

definition erase_level :: "level \<Rightarrow> order list \<Rightarrow> level list" where
  "erase_level l os = (if os = [] then [] else [l\<lparr>lv_orders := os\<rparr>])"

lemma all_orders_erase_level [simp]: "all_orders (erase_level l os) = os"
  by (simp add: erase_level_def)

lemma erase_order_split:
  assumes "ls = ls1 @ l # ls2" and "i = length ls1" and "lv_orders l = os1 @ x # os2" and "j = length os1"
  shows "erase_order i j ls = ls1 @ erase_level l (os1 @ os2) @ ls2"
  using assms by (simp add: erase_order_def erase_level_def Let_def list_erase_def)

lemma put_order_split:
  assumes "ls = ls1 @ l # ls2" and "i = length ls1" and "lv_orders l = os1 @ x # os2" and "j = length os1"
  shows "put_order i j y ls = ls1 @ l\<lparr>lv_orders := os1 @ y # os2\<rparr> # ls2"
  using assms by (simp add: put_order_def)

subsection \<open>The invariant\<close>

text \<open>
  \<open>better sd p q\<close>: on side \<open>sd\<close>, a level at price \<open>p\<close> is matched before one at \<open>q\<close>.
\<close>

definition better :: "order_side \<Rightarrow> double \<Rightarrow> double \<Rightarrow> bool" where
  "better sd p q = (if sd = BUY then d_gt p q else d_lt p q)"

definition resting_ok :: "order_side \<Rightarrow> double \<Rightarrow> order \<Rightarrow> bool" where
  "resting_ok sd p ord \<longleftrightarrow> side ord = sd \<and> otype ord = LIMIT \<and> price ord = p \<and>
     remaining_quantity ord \<le> quantity ord"

definition level_wf :: "order_side \<Rightarrow> level \<Rightarrow> bool" where
  "level_wf sd l \<longleftrightarrow> pos_finite (lv_price l) \<and> lv_orders l \<noteq> [] \<and>
     (\<forall>ord \<in> set (lv_orders l). resting_ok sd (lv_price l) ord)"

definition side_wf :: "order_side \<Rightarrow> level list \<Rightarrow> bool" where
  "side_wf sd ls \<longleftrightarrow> sorted_wrt (\<lambda>l m. better sd (lv_price l) (lv_price m)) ls \<and>
     (\<forall>l \<in> set ls. level_wf sd l)"

definition book_wf :: "nat \<Rightarrow> book \<Rightarrow> bool" where
  "book_wf capacity b \<longleftrightarrow> side_wf BUY (bids b) \<and> side_wf SELL (asks b) \<and>
     distinct (ids (book_orders b)) \<and> pool_free b + getOrderCount b = capacity"

text \<open>No bid reaches an ask.\<close>

definition uncrossed :: "book \<Rightarrow> bool" where
  "uncrossed b \<longleftrightarrow> (\<forall>l \<in> set (bids b). \<forall>m \<in> set (asks b). d_lt (lv_price l) (lv_price m))"

lemma better_irrefl [simp]: "\<not> better sd p p"
  by (simp add: better_def d_gt_def)

lemma better_trans: "better sd p q \<Longrightarrow> better sd q r \<Longrightarrow> better sd p r"
  by (auto simp: better_def d_gt_def split: if_splits intro: d_lt_trans)

lemma better_asym: "better sd p q \<Longrightarrow> \<not> better sd q p"
  by (auto simp: better_def d_gt_def dest: d_lt_asym)

lemma better_linear: "isfinite p \<Longrightarrow> isfinite q \<Longrightarrow> better sd p q \<or> p = q \<or> better sd q p"
  using d_lt_linear [of p q] by (auto simp: better_def d_gt_def)

lemma book_wf_OrderBook: "book_wf capacity (OrderBook capacity)"
  by (simp add: book_wf_def OrderBook_def side_wf_def book_orders_def getOrderCount_def)

lemma side_wf_Nil [simp]: "side_wf sd []"
  by (simp add: side_wf_def)

lemma side_wf_Cons: "side_wf sd (l # ls) \<longleftrightarrow> level_wf sd l \<and> side_wf sd ls \<and>
    (\<forall>m \<in> set ls. better sd (lv_price l) (lv_price m))"
  by (auto simp: side_wf_def)

lemma side_wf_append: "side_wf sd (ls @ ms) \<longleftrightarrow> side_wf sd ls \<and> side_wf sd ms \<and>
    (\<forall>l \<in> set ls. \<forall>m \<in> set ms. better sd (lv_price l) (lv_price m))"
  by (auto simp: side_wf_def sorted_wrt_append)

lemma level_wf_resize:
  "level_wf sd l \<Longrightarrow> os \<noteq> [] \<Longrightarrow> (\<And>x. x \<in> set os \<Longrightarrow> resting_ok sd (lv_price l) x) \<Longrightarrow>
   level_wf sd (l\<lparr>lv_orders := os\<rparr>)"
  by (simp add: level_wf_def)

lemma side_wf_erase_level:
  assumes "side_wf sd (ls1 @ l # ls2)" and "\<And>x. x \<in> set os \<Longrightarrow> resting_ok sd (lv_price l) x"
  shows "side_wf sd (ls1 @ erase_level l os @ ls2)"
  using assms
  by (auto simp: side_wf_append side_wf_Cons erase_level_def level_wf_def)

lemma side_wf_put_level:
  assumes "side_wf sd (ls1 @ l # ls2)" and "\<And>x. x \<in> set os \<Longrightarrow> resting_ok sd (lv_price l) x"
    and "os \<noteq> []"
  shows "side_wf sd (ls1 @ l\<lparr>lv_orders := os\<rparr> # ls2)"
proof -
  have "side_wf sd (ls1 @ erase_level l os @ ls2)"
    using assms(1,2) by (rule side_wf_erase_level)
  then show ?thesis using assms(3) by (simp add: erase_level_def)
qed

lemma side_wf_orders:
  assumes "side_wf sd ls" and "ord \<in> set (all_orders ls)"
  obtains l where "l \<in> set ls" and "ord \<in> set (lv_orders l)" and "resting_ok sd (lv_price l) ord"
    and "pos_finite (lv_price l)"
  using assms by (auto simp: side_wf_def level_wf_def all_orders_def)

subsection \<open>The binary search\<close>

lemma find_level_partition:
  assumes mono: "\<And>i j. i \<le> j \<Longrightarrow> j < length ls \<Longrightarrow> ahead (lv_price (ls ! j)) \<Longrightarrow> ahead (lv_price (ls ! i))"
    and "low \<le> high" and "high \<le> length ls"
    and "\<And>i. i < low \<Longrightarrow> ahead (lv_price (ls ! i))"
    and "\<And>i. high \<le> i \<Longrightarrow> i < length ls \<Longrightarrow> \<not> ahead (lv_price (ls ! i))"
  shows "find_level ahead ls low high = length (takeWhile (\<lambda>l. ahead (lv_price l)) ls)"
  using assms(2-)
proof (induction "high - low" arbitrary: low high rule: less_induct)
  case less
  show ?case
  proof (cases "low < high")
    case True
    define mid where "mid = low + (high - low) div 2"
    have mid: "low \<le> mid" "mid < high" using True by (auto simp: mid_def)
    show ?thesis
    proof (cases "ahead (lv_price (ls ! mid))")
      case b: True
      have "find_level ahead ls (mid + 1) high = length (takeWhile (\<lambda>l. ahead (lv_price l)) ls)"
      proof (rule less.hyps)
        show "ahead (lv_price (ls ! i))" if "i < mid + 1" for i
          using mono [of i mid] that mid b less.prems(2) by auto
      qed (use mid less.prems in auto)
      with True b show ?thesis
        by (subst find_level.simps) (simp add: mid_def [symmetric])
    next
      case b: False
      have "find_level ahead ls low mid = length (takeWhile (\<lambda>l. ahead (lv_price l)) ls)"
      proof (rule less.hyps)
        show "\<not> ahead (lv_price (ls ! i))" if "mid \<le> i" "i < length ls" for i
          using mono [of mid i] that b by blast
      qed (use mid less.prems in auto)
      with True b show ?thesis
        by (subst find_level.simps) (simp add: mid_def [symmetric])
    qed
  next
    case False
    have eq: "low = high" using False less.prems(1) by simp
    have "takeWhile (\<lambda>l. ahead (lv_price l)) ls = take low ls"
      using less.prems eq by (intro takeWhile_eq_take_P_nth) auto
    then have "length (takeWhile (\<lambda>l. ahead (lv_price l)) ls) = low"
      using less.prems by simp
    with False show ?thesis by (subst find_level.simps) simp
  qed
qed

lemma side_wf_search_mono:
  assumes "side_wf sd ls" and "i \<le> j" and "j < length ls" and "better sd (lv_price (ls ! j)) p"
  shows "better sd (lv_price (ls ! i)) p"
proof (cases "i = j")
  case False
  then have "better sd (lv_price (ls ! i)) (lv_price (ls ! j))"
    using assms by (auto simp: side_wf_def sorted_wrt_iff_nth_less)
  then show ?thesis using assms(4) by (rule better_trans)
qed (use assms in simp)

lemma find_level_side:
  "side_wf sd ls \<Longrightarrow> find_level (\<lambda>q. better sd q p) ls 0 (length ls) =
     length (takeWhile (\<lambda>l. better sd (lv_price l) p) ls)"
  by (rule find_level_partition) (auto intro: side_wf_search_mono)

lemma findBidLevel_eq: "side_wf BUY (bids b) \<Longrightarrow>
    findBidLevel b p = length (takeWhile (\<lambda>l. better BUY (lv_price l) p) (bids b))"
  using find_level_side [of BUY "bids b" p] by (simp add: findBidLevel_def better_def)

lemma findAskLevel_eq: "side_wf SELL (asks b) \<Longrightarrow>
    findAskLevel b p = length (takeWhile (\<lambda>l. better SELL (lv_price l) p) (asks b))"
  using find_level_side [of SELL "asks b" p] by (simp add: findAskLevel_def better_def)

subsection \<open>Adding an order\<close>

text \<open>
  The abstract insertion: behind every order of the same side that is not worse, in front
  of the first that is.
\<close>

definition insert_prio :: "order \<Rightarrow> order list \<Rightarrow> order list" where
  "insert_prio ord os =
     takeWhile (\<lambda>x. \<not> better (side ord) (price ord) (price x)) os @ ord #
     dropWhile (\<lambda>x. \<not> better (side ord) (price ord) (price x)) os"

lemma mset_insert_prio [simp]: "mset (insert_prio ord os) = add_mset ord (mset os)"
  unfolding insert_prio_def by (metis mset_append mset.simps(2) takeWhile_dropWhile_id union_mset_add_mset_right)

lemma set_insert_prio [simp]: "set (insert_prio ord os) = insert ord (set os)"
  by (metis mset_insert_prio set_mset_add_mset_insert set_mset_mset)

lemma insert_prio_split:
  assumes "\<And>x. x \<in> set os1 \<Longrightarrow> \<not> better (side ord) (price ord) (price x)"
    and "\<And>x. x \<in> set os2 \<Longrightarrow> better (side ord) (price ord) (price x)"
  shows "insert_prio ord (os1 @ os2) = os1 @ ord # os2"
proof -
  have "takeWhile (\<lambda>x. \<not> better (side ord) (price ord) (price x)) os2 = []"
    and "dropWhile (\<lambda>x. \<not> better (side ord) (price ord) (price x)) os2 = os2"
    using assms(2) by (cases os2; auto)+
  then show ?thesis using assms(1) by (simp add: insert_prio_def)
qed

text \<open>An order that may rest.\<close>

definition restable :: "order \<Rightarrow> bool" where
  "restable ord \<longleftrightarrow> otype ord = LIMIT \<and> pos_finite (price ord) \<and> 0 < remaining_quantity ord \<and>
     remaining_quantity ord \<le> quantity ord"

lemma side_wf_price:
  "side_wf sd ls \<Longrightarrow> l \<in> set ls \<Longrightarrow> x \<in> set (lv_orders l) \<Longrightarrow> price x = lv_price l"
  by (auto simp: side_wf_def level_wf_def resting_ok_def)

lemma insert_prio_levels:
  assumes "side_wf sd (L1 @ L2)" and "side ord = sd"
    and "\<forall>l \<in> set L1. \<not> better sd (price ord) (lv_price l)"
    and "\<forall>l \<in> set L2. better sd (price ord) (lv_price l)"
  shows "insert_prio ord (all_orders (L1 @ L2)) = all_orders L1 @ ord # all_orders L2"
proof -
  have "insert_prio ord (all_orders L1 @ all_orders L2) = all_orders L1 @ ord # all_orders L2"
    using assms(2-) side_wf_price [OF assms(1)]
    by (intro insert_prio_split) (fastforce simp: all_orders_def)+
  then show ?thesis by simp
qed

text \<open>
  The level search leaves two outcomes: the order joins the level of its price, or it opens
  a level between the better and the worse ones.
\<close>

lemma add_at_level_cases [consumes 4, case_names Join Open]:
  assumes wf: "side_wf sd ls" and fin: "isfinite (price ord)"
    and idx: "idx = length (takeWhile (\<lambda>l. better sd (lv_price l) (price ord)) ls)"
    and add: "add_at_level idx ord free ls = Some (f, ls')"
  obtains
    L1 m M where "ls = L1 @ m # M" "lv_price m = price ord"
      "\<forall>l \<in> set L1. better sd (lv_price l) (price ord)"
      "ls' = L1 @ m\<lparr>lv_orders := lv_orders m @ [ord]\<rparr> # M"
  | L1 L2 where "ls = L1 @ L2" "\<forall>l \<in> set L1. better sd (lv_price l) (price ord)"
      "\<forall>l \<in> set L2. better sd (price ord) (lv_price l)"
      "ls' = L1 @ \<lparr>lv_price = price ord, lv_orders = [ord]\<rparr> # L2"
proof -
  let ?b = "\<lambda>l. better sd (lv_price l) (price ord)"
  define L1 L2 where "L1 = takeWhile ?b ls" and "L2 = dropWhile ?b ls"
  have ls: "ls = L1 @ L2" and i: "idx = length L1" by (simp_all add: L1_def L2_def idx)
  have L1: "\<forall>l \<in> set L1. ?b l" by (auto simp: L1_def dest: set_takeWhileD)
  have fin_lev: "isfinite (lv_price l)" if "l \<in> set ls" for l
    using wf that by (auto simp: side_wf_def level_wf_def pos_finite_isfinite)
  show thesis
  proof (cases L2)
    case Nil
    then show ?thesis using add ls i L1
      by (intro that(2) [of L1 "[]"])
        (auto simp: add_at_level_def list_insert_def split: if_splits)
  next
    case (Cons m M)
    have m: "\<not> ?b m" using Cons L2_def by (metis hd_dropWhile list.distinct(1) list.sel(1))
    show ?thesis
    proof (cases "lv_price m = price ord")
      case True
      then show ?thesis using add ls i L1 Cons fin
        by (intro that(1) [of L1 m M]) (auto simp: add_at_level_def d_eq_Fin_iff split: if_splits)
    next
      case False
      then have "better sd (price ord) (lv_price m)"
        using better_linear [of "lv_price m" "price ord" sd] m fin fin_lev ls Cons by auto
      then have "\<forall>n \<in> set L2. better sd (price ord) (lv_price n)"
        using wf ls Cons better_trans by (fastforce simp: side_wf_append side_wf_Cons)
      then show ?thesis using add ls i L1 Cons False fin fin_lev
        by (intro that(2) [of L1 L2])
          (auto simp: add_at_level_def list_insert_def d_eq_Fin_iff split: if_splits)
    qed
  qed
qed

lemma add_at_level_wf:
  assumes wf: "side_wf sd ls" and r: "restable ord" "side ord = sd"
    and idx: "idx = length (takeWhile (\<lambda>l. better sd (lv_price l) (price ord)) ls)"
    and add: "add_at_level idx ord free ls = Some (f, ls')"
  shows "side_wf sd ls'" and "all_orders ls' = insert_prio ord (all_orders ls)"
    and "free = Suc f"
proof -
  have pos: "pos_finite (price ord)" and fin: "isfinite (price ord)"
    and ok: "resting_ok sd (price ord) ord"
    using r by (auto simp: restable_def resting_ok_def pos_finite_isfinite)
  show "free = Suc f" using add by (auto simp: add_at_level_def split: if_splits)
  show "side_wf sd ls'" and "all_orders ls' = insert_prio ord (all_orders ls)"
    using wf fin idx add
  proof (atomize (full), cases rule: add_at_level_cases)
    case (Join L1 m M)
    have wfm: "level_wf sd m" and M: "\<forall>n \<in> set M. better sd (price ord) (lv_price n)"
      using wf Join(1,2) by (auto simp: side_wf_append side_wf_Cons)
    have "side_wf sd ls'" unfolding Join(4)
      using wf Join(1,2) ok wfm by (intro side_wf_put_level) (auto simp: level_wf_def)
    moreover have "insert_prio ord (all_orders ((L1 @ [m]) @ M)) = all_orders (L1 @ [m]) @ ord # all_orders M"
      using wf Join(1-3) M r(2) better_asym by (intro insert_prio_levels) auto
    ultimately show "side_wf sd ls' \<and> all_orders ls' = insert_prio ord (all_orders ls)"
      using Join(1,4) by simp
  next
    case (Open L1 L2)
    have "insert_prio ord (all_orders (L1 @ L2)) = all_orders L1 @ ord # all_orders L2"
      using wf Open(1-3) r(2) better_asym by (intro insert_prio_levels) auto
    then show "side_wf sd ls' \<and> all_orders ls' = insert_prio ord (all_orders ls)"
      using Open wf ok pos by (auto simp: side_wf_append side_wf_Cons level_wf_def)
  qed
qed

subsection \<open>The two sides, uniformly\<close>

fun other :: "order_side \<Rightarrow> order_side" where
  "other BUY = SELL"
| "other SELL = BUY"

definition flat :: "order_side \<Rightarrow> book \<Rightarrow> order list" where
  "flat sd b = all_orders (side_levels sd b)"

lemma other_other [simp]: "other (other sd) = sd"
  by (cases sd) auto

lemma other_neq [simp]: "other sd \<noteq> sd" "sd \<noteq> other sd"
  by (cases sd; simp)+

lemma side_cases: "x = sd \<or> x = other sd" for x sd :: order_side
  by (cases x; cases sd) auto

lemma opposite_eq: "opposite inc b = side_levels (other (side inc)) b"
  by (cases "side inc") (auto simp: opposite_def side_levels_def)

lemma set_opposite_eq: "set_opposite inc ls free b = set_side_levels (other (side inc)) ls free b"
  by (cases "side inc") (auto simp: set_opposite_def set_side_levels_def)

lemma set_side_simps [simp]:
  "side_levels sd (set_side_levels sd ls free b) = ls"
  "side_levels (other sd) (set_side_levels sd ls free b) = side_levels (other sd) b"
  "side_levels sd (set_side_levels (other sd) ls free b) = side_levels sd b"
  "pool_free (set_side_levels sd ls free b) = free"
  "next_trade_id (set_side_levels sd ls free b) = next_trade_id b"
  "book_stp (set_side_levels sd ls free b) = book_stp b"
  "side_levels sd' (b\<lparr>next_trade_id := n\<rparr>) = side_levels sd' b"
  "side_levels sd' (b\<lparr>book_stp := pol\<rparr>) = side_levels sd' b"
  by (cases sd; simp add: side_levels_def set_side_levels_def)+

lemma flat_set_side [simp]:
  "flat sd (set_side_levels sd ls free b) = all_orders ls"
  "flat (other sd) (set_side_levels sd ls free b) = flat (other sd) b"
  "flat sd (set_side_levels (other sd) ls free b) = flat sd b"
  "flat sd' (b\<lparr>next_trade_id := n\<rparr>) = flat sd' b"
  "flat sd' (b\<lparr>book_stp := pol\<rparr>) = flat sd' b"
  by (simp_all add: flat_def)

lemma mset_book_orders: "mset (book_orders b) = mset (flat sd b) + mset (flat (other sd) b)"
  by (cases sd) (simp_all add: book_orders_def flat_def side_levels_def)

lemma length_book_orders: "length (book_orders b) = length (flat sd b) + length (flat (other sd) b)"
  using mset_book_orders [of b sd] by (metis size_mset size_union)

lemma set_book_orders: "set (book_orders b) = set (flat sd b) \<union> set (flat (other sd) b)"
  using mset_book_orders [of b sd] by (metis set_mset_mset set_mset_union)

lemma distinct_book_ids: "distinct (ids (book_orders b)) \<longleftrightarrow> distinct (ids (flat sd b @ flat (other sd) b))"
  using mset_book_orders [of b sd] by (metis image_mset_union map_append mset_append mset_eq_imp_distinct_iff mset_map)

lemma book_wf_alt:
  "book_wf capacity b \<longleftrightarrow> side_wf sd (side_levels sd b) \<and> side_wf (other sd) (side_levels (other sd) b) \<and>
     distinct (ids (flat sd b @ flat (other sd) b)) \<and>
     pool_free b + length (flat sd b) + length (flat (other sd) b) = capacity"
  unfolding book_wf_def distinct_book_ids [of b sd] getOrderCount_eq length_book_orders [of b sd]
  by (cases sd) (auto simp: side_levels_def)

lemma book_wf_side: "book_wf capacity b \<Longrightarrow> side_wf sd (side_levels sd b)"
  by (simp add: book_wf_alt [of _ _ sd])

lemma book_wf_set_side:
  assumes "book_wf capacity b" and "side_wf sd ls"
    and "distinct (ids (all_orders ls @ flat (other sd) b))"
    and "free + length (all_orders ls) = pool_free b + length (flat sd b)"
  shows "book_wf capacity (set_side_levels sd ls free b)"
  using assms by (simp add: book_wf_alt [of _ _ sd])

lemma book_wf_next [simp]:
  "book_wf capacity (b\<lparr>next_trade_id := n\<rparr>) = book_wf capacity b"
  "book_wf capacity (b\<lparr>book_stp := pol\<rparr>) = book_wf capacity b"
  by (simp_all add: book_wf_alt [of _ _ BUY])

subsection \<open>\<open>addOrder\<close>\<close>

lemma addOrder_side:
  "addOrder ord b =
     (if quantity ord = 0 \<or> remaining_quantity ord = 0 then (False, b)
      else case add_at_level (if side ord = BUY then findBidLevel b (price ord) else findAskLevel b (price ord))
                 ord (pool_free b) (side_levels (side ord) b) of
        None \<Rightarrow> (False, b)
      | Some (f, ls) \<Rightarrow> (True, set_side_levels (side ord) ls f b))"
  by (cases "side ord") (auto simp: addOrder_def side_levels_def set_side_levels_def split: option.splits)

lemma find_side_eq:
  assumes "book_wf capacity b"
  shows "(if sd = BUY then findBidLevel b p else findAskLevel b p) =
     length (takeWhile (\<lambda>l. better sd (lv_price l) p) (side_levels sd b))"
  using book_wf_side [OF assms, of BUY] book_wf_side [OF assms, of SELL]
  by (cases sd) (simp_all add: findBidLevel_eq findAskLevel_eq side_levels_def)

lemma addOrder_full: "pool_free b = 0 \<Longrightarrow> addOrder ord b = (False, b)"
  by (simp add: addOrder_def add_at_level_def)

lemma addOrder_ok:
  assumes wf: "book_wf capacity b" and r: "restable ord" and fresh: "order_id ord \<notin> set (ids (book_orders b))"
    and room: "0 < pool_free b"
  obtains b' where "addOrder ord b = (True, b')" and "book_wf capacity b'"
    and "flat (side ord) b' = insert_prio ord (flat (side ord) b)"
    and "side_levels (other (side ord)) b' = side_levels (other (side ord)) b"
    and "pool_free b = Suc (pool_free b')" and "next_trade_id b' = next_trade_id b"
    and "book_stp b' = book_stp b"
proof -
  let ?sd = "side ord" and ?ls = "side_levels (side ord) b"
  let ?idx = "length (takeWhile (\<lambda>l. better ?sd (lv_price l) (price ord)) ?ls)"
  obtain f ls' where add: "add_at_level ?idx ord (pool_free b) ?ls = Some (f, ls')"
    using room by (cases "add_at_level ?idx ord (pool_free b) ?ls") (auto simp: add_at_level_def split: if_splits)
  have A: "side_wf ?sd ls'" "all_orders ls' = insert_prio ord (all_orders ?ls)" "pool_free b = Suc f"
    using add_at_level_wf [OF book_wf_side [OF wf] r refl refl add] by simp_all
  have q: "quantity ord \<noteq> 0" "remaining_quantity ord \<noteq> 0" using r by (auto simp: restable_def)
  have add2: "addOrder ord b = (True, set_side_levels ?sd ls' f b)"
    using add q by (simp add: addOrder_side find_side_eq [OF wf])
  have ms: "mset (ids (all_orders ls' @ flat (other ?sd) b)) = mset (order_id ord # ids (flat ?sd b @ flat (other ?sd) b))"
    by (simp add: A(2) flat_def)
  have dist: "distinct (ids (flat ?sd b @ flat (other ?sd) b))"
    using wf by (simp add: book_wf_alt [of _ _ ?sd])
  have "order_id ord \<notin> set (ids (flat ?sd b @ flat (other ?sd) b))"
    using fresh by (simp add: set_book_orders [of b ?sd] image_Un)
  then have "distinct (ids (all_orders ls' @ flat (other ?sd) b))"
    using dist mset_eq_imp_distinct_iff [OF ms] by simp
  moreover have "f + length (all_orders ls') = pool_free b + length (flat ?sd b)"
    using A(3) by (simp add: A(2) flat_def flip: size_mset)
  ultimately have "book_wf capacity (set_side_levels ?sd ls' f b)"
    using A(1) wf by (intro book_wf_set_side) simp_all
  then show thesis
    using add2 A by (intro that [of "set_side_levels ?sd ls' f b"]) (simp_all add: flat_def)
qed

subsection \<open>Locating an order\<close>

text \<open>
  The search by identifier that \<open>cancelOrder\<close>, \<open>getOrderById\<close>, \<open>applyFill\<close> and \<open>replaceOrder\<close>
  share: bids first, then asks.
\<close>

definition locate :: "u64 \<Rightarrow> book \<Rightarrow> (order_side \<times> nat \<times> nat) option" where
  "locate oid b = (case find_in_levels oid (bids b) of
     Some (i, j) \<Rightarrow> Some (BUY, i, j)
   | None \<Rightarrow> map_option (\<lambda>(i, j). (SELL, i, j)) (find_in_levels oid (asks b)))"

lemma locate_None: "locate oid b = None \<longleftrightarrow> oid \<notin> set (ids (book_orders b))"
  using find_in_levels_None [of oid "bids b"] find_in_levels_None [of oid "asks b"]
  by (auto simp: locate_def book_orders_def image_Un split: option.splits)

lemma locate_Some: "locate oid b = Some (sd, i, j) \<Longrightarrow> find_in_levels oid (side_levels sd b) = Some (i, j)"
  by (auto simp: locate_def side_levels_def split: option.splits)

lemma cancelOrder_locate:
  "cancelOrder oid b = (case locate oid b of
     None \<Rightarrow> (False, b)
   | Some (sd, i, j) \<Rightarrow>
       (True, set_side_levels sd (erase_order i j (side_levels sd b)) (Suc (pool_free b)) b))"
  by (auto simp: cancelOrder_def locate_def side_levels_def set_side_levels_def split: option.splits)

lemma getOrderById_locate:
  "getOrderById oid b = map_option (\<lambda>(sd, i, j). order_at i j (side_levels sd b)) (locate oid b)"
  by (auto simp: getOrderById_def locate_def side_levels_def split: option.splits)

lemma applyFill_locate:
  "applyFill oid q b = (if q = 0 then (False, b) else case locate oid b of
     None \<Rightarrow> (False, b)
   | Some (sd, i, j) \<Rightarrow>
       (case fill_at i j q (pool_free b) (side_levels sd b) of
          None \<Rightarrow> (False, b)
        | Some (f, ls) \<Rightarrow> (True, set_side_levels sd ls f b)))"
  by (auto simp: applyFill_def locate_def side_levels_def set_side_levels_def split: option.splits)

lemma replaceOrder_locate:
  "replaceOrder now sysnow oid p q seq b =
     (if 0 < q \<and> (\<not> isfinite p \<or> d_le p (Fin 0)) then (Inr rr_fail, b)
      else case locate oid b of
        None \<Rightarrow> (Inr rr_fail, b)
      | Some (sd, i, j) \<Rightarrow> replaceInLevel now sysnow oid p q seq sd i j b)"
  by (auto simp: replaceOrder_def locate_def split: option.splits)

text \<open>
  In a well-formed book the located order is the only one with its identifier, so the
  sequences around it do not mention it.
\<close>

lemma locate_split:
  assumes wf: "book_wf capacity b" and loc: "locate oid b = Some (sd, i, j)"
  obtains ls1 l ls2 os1 x os2 where "side_levels sd b = ls1 @ l # ls2" and "i = length ls1"
    and "lv_orders l = os1 @ x # os2" and "j = length os1" and "order_id x = oid"
    and "order_at i j (side_levels sd b) = x" and "getOrderById oid b = Some x"
    and "oid \<notin> set (ids (all_orders ls1 @ os1 @ os2 @ all_orders ls2))"
    and "oid \<notin> set (ids (flat (other sd) b))"
    and "resting_ok sd (lv_price l) x" and "pos_finite (lv_price l)"
proof -
  obtain ls1 l ls2 os1 x os2 where S: "side_levels sd b = ls1 @ l # ls2" "i = length ls1"
    "lv_orders l = os1 @ x # os2" "j = length os1" "order_id x = oid" "order_at i j (side_levels sd b) = x"
    using find_in_levels_split [OF locate_Some [OF loc]] by metis
  have "distinct (ids (flat sd b @ flat (other sd) b))" and sw: "side_wf sd (side_levels sd b)"
    using wf by (simp_all add: book_wf_alt [of _ _ sd])
  then have "oid \<notin> set (ids (all_orders ls1 @ os1 @ os2 @ all_orders ls2))"
    "oid \<notin> set (ids (flat (other sd) b))"
    using S by (auto simp: flat_def)
  moreover have "level_wf sd l" using sw S(1) by (simp add: side_wf_append side_wf_Cons)
  then have "resting_ok sd (lv_price l) x" "pos_finite (lv_price l)"
    using S(3) by (simp_all add: level_wf_def)
  moreover have "getOrderById oid b = Some x" using loc S(6) by (simp add: getOrderById_locate)
  ultimately show thesis using that S by blast
qed

lemma filter_ids_notin [simp]: "oid \<notin> order_id ` set os \<Longrightarrow> filter (\<lambda>y. order_id y \<noteq> oid) os = os"
  by (auto simp: filter_id_conv)

lemma filter_ids_notin' [simp]: "oid \<notin> order_id ` set os \<Longrightarrow> filter (\<lambda>y. oid \<noteq> order_id y) os = os"
  by (auto simp: filter_id_conv)

lemma map_ids_notin [simp]:
  "oid \<notin> order_id ` set os \<Longrightarrow> map (\<lambda>z. if order_id z = oid then y else z) os = os"
  by (intro map_idI) auto

lemma erase_located:
  assumes wf: "book_wf capacity b" and loc: "locate oid b = Some (sd, i, j)"
  defines "b' \<equiv> set_side_levels sd (erase_order i j (side_levels sd b)) (Suc (pool_free b)) b"
  shows "book_wf capacity b'" and "flat sd' b' = filter (\<lambda>y. order_id y \<noteq> oid) (flat sd' b)"
proof -
  obtain ls1 l ls2 os1 x os2 where S: "side_levels sd b = ls1 @ l # ls2" "i = length ls1"
    "lv_orders l = os1 @ x # os2" "j = length os1" "order_id x = oid"
    "oid \<notin> set (ids (all_orders ls1 @ os1 @ os2 @ all_orders ls2))" "oid \<notin> set (ids (flat (other sd) b))"
    using locate_split [OF wf loc] by metis
  have E: "erase_order i j (side_levels sd b) = ls1 @ erase_level l (os1 @ os2) @ ls2"
    using S by (intro erase_order_split) simp_all
  have sw: "side_wf sd (ls1 @ l # ls2)" using book_wf_side [OF wf, of sd] S(1) by simp
  have "level_wf sd l" using sw by (simp add: side_wf_append side_wf_Cons)
  then have sw': "side_wf sd (ls1 @ erase_level l (os1 @ os2) @ ls2)"
    using S(3) by (intro side_wf_erase_level [OF sw]) (auto simp: level_wf_def)
  have fl: "flat sd b = all_orders ls1 @ os1 @ x # os2 @ all_orders ls2"
    using S(1,3) by (simp add: flat_def)
  have "distinct (ids (flat sd b @ flat (other sd) b))"
    using wf by (simp add: book_wf_alt [of _ _ sd])
  then show "book_wf capacity b'"
    unfolding b'_def E using fl sw' by (intro book_wf_set_side [OF wf]) auto
  show "flat sd' b' = filter (\<lambda>y. order_id y \<noteq> oid) (flat sd' b)"
    unfolding b'_def E using side_cases [of sd' sd] S(5,6,7) fl by auto
qed

text \<open>Writing an acceptable order back in place of the located one.\<close>

lemma put_located:
  assumes wf: "book_wf capacity b" and loc: "locate oid b = Some (sd, i, j)"
    and y: "order_id y = oid" "resting_ok sd (price (order_at i j (side_levels sd b))) y"
  defines "b' \<equiv> set_side_levels sd (put_order i j y (side_levels sd b)) (pool_free b) b"
  shows "book_wf capacity b'"
    and "flat sd' b' = map (\<lambda>z. if order_id z = oid then y else z) (flat sd' b)"
proof -
  obtain ls1 l ls2 os1 x os2 where S: "side_levels sd b = ls1 @ l # ls2" "i = length ls1"
    "lv_orders l = os1 @ x # os2" "j = length os1" "order_id x = oid"
    "oid \<notin> set (ids (all_orders ls1 @ os1 @ os2 @ all_orders ls2))" "oid \<notin> set (ids (flat (other sd) b))"
    "resting_ok sd (lv_price l) x" "order_at i j (side_levels sd b) = x"
    using locate_split [OF wf loc] by metis
  have E: "put_order i j y (side_levels sd b) = ls1 @ l\<lparr>lv_orders := os1 @ y # os2\<rparr> # ls2"
    using S by (intro put_order_split) simp_all
  have sw: "side_wf sd (ls1 @ l # ls2)" using book_wf_side [OF wf, of sd] S(1) by simp
  have "level_wf sd l" using sw by (simp add: side_wf_append side_wf_Cons)
  moreover have "resting_ok sd (lv_price l) y" using y(2) S(8,9) by (simp add: resting_ok_def)
  ultimately have sw': "side_wf sd (ls1 @ l\<lparr>lv_orders := os1 @ y # os2\<rparr> # ls2)"
    using S(3) by (intro side_wf_put_level [OF sw]) (auto simp: level_wf_def)
  have fl: "flat sd b = all_orders ls1 @ os1 @ x # os2 @ all_orders ls2"
    using S(1,3) by (simp add: flat_def)
  have "distinct (ids (flat sd b @ flat (other sd) b))"
    using wf by (simp add: book_wf_alt [of _ _ sd])
  then show "book_wf capacity b'"
    unfolding b'_def E using fl sw' y(1) S(5) by (intro book_wf_set_side [OF wf]) auto
  show "flat sd' b' = map (\<lambda>z. if order_id z = oid then y else z) (flat sd' b)"
    using side_cases [of sd' sd] S(5,6,7) fl by (auto simp: b'_def E)
qed

subsection \<open>\<open>cancelOrder\<close>, \<open>getOrderById\<close> and \<open>applyFill\<close>\<close>

lemma find_in_levels_find:
  "map_option (\<lambda>(i, j). order_at i j ls) (find_in_levels oid ls) =
     List.find (\<lambda>x. order_id x = oid) (all_orders ls)"
proof (cases "find_in_levels oid ls")
  case None
  then have "oid \<notin> set (ids (all_orders ls))" by (simp add: find_in_levels_None)
  then have "List.find (\<lambda>x. order_id x = oid) (all_orders ls) = None" by (auto simp: find_None_iff)
  then show ?thesis using None by simp
next
  case (Some ij)
  obtain i j where ij: "ij = (i, j)" by fastforce
  obtain ls1 l ls2 os1 x os2 where S: "ls = ls1 @ l # ls2" "lv_orders l = os1 @ x # os2" "order_id x = oid"
    "oid \<notin> set (ids (all_orders ls1 @ os1))" "order_at i j ls = x"
    using find_in_levels_split [OF Some [unfolded ij]] by metis
  have "List.find (\<lambda>x. order_id x = oid) ((all_orders ls1 @ os1) @ x # os2 @ all_orders ls2) = Some x"
  proof -
    have "List.find (\<lambda>x. order_id x = oid) (all_orders ls1 @ os1) = None"
      using S(4) by (auto simp: find_None_iff)
    then show ?thesis using S(3) by (simp only: find_append) simp
  qed
  then show ?thesis using Some ij S by simp
qed

lemma getOrderById_find: "getOrderById oid b = List.find (\<lambda>x. order_id x = oid) (book_orders b)"
  using find_in_levels_find [of "bids b" oid] find_in_levels_find [of "asks b" oid]
  by (auto simp: getOrderById_def book_orders_def find_append split: option.splits)

lemma getOrderById_None: "getOrderById oid b = None \<longleftrightarrow> oid \<notin> set (ids (book_orders b))"
  by (auto simp: getOrderById_find find_None_iff)

lemma getOrderById_Some:
  assumes "book_wf capacity b"
  shows "getOrderById oid b = Some x \<longleftrightarrow> x \<in> set (book_orders b) \<and> order_id x = oid"
proof
  assume "getOrderById oid b = Some x"
  then show "x \<in> set (book_orders b) \<and> order_id x = oid"
    by (auto simp: getOrderById_find find_Some_iff)
next
  assume x: "x \<in> set (book_orders b) \<and> order_id x = oid"
  then obtain y where y: "getOrderById oid b = Some y"
    using getOrderById_None [of oid b] by (cases "getOrderById oid b") auto
  then have "y \<in> set (book_orders b)" "order_id y = oid"
    by (auto simp: getOrderById_find find_Some_iff)
  moreover have "distinct (ids (book_orders b))" using assms by (simp add: book_wf_def)
  ultimately have "y = x" using x by (simp add: distinct_map inj_on_def)
  with y show "getOrderById oid b = Some x" by simp
qed

lemma cancelOrder_effect:
  assumes "book_wf capacity b"
  obtains b' where "cancelOrder oid b = (oid \<in> set (ids (book_orders b)), b')"
    and "book_wf capacity b'"
    and "\<And>sd. flat sd b' = filter (\<lambda>y. order_id y \<noteq> oid) (flat sd b)"
    and "next_trade_id b' = next_trade_id b" and "book_stp b' = book_stp b"
proof (cases "locate oid b")
  case None
  then have "oid \<notin> set (ids (book_orders b))" by (simp add: locate_None)
  moreover from this have "filter (\<lambda>y. order_id y \<noteq> oid) (flat sd b) = flat sd b" for sd
    by (intro filter_ids_notin) (auto simp: set_book_orders [of b sd])
  ultimately show thesis
    using None assms by (intro that [of b]) (auto simp: cancelOrder_locate)
next
  case (Some t)
  obtain sd i j where t: "t = (sd, i, j)" by (cases t)
  have "oid \<in> set (ids (book_orders b))" using Some locate_None [of oid b] by auto
  then show thesis
    using Some t erase_located [OF assms Some [unfolded t]]
    by (intro that [of "set_side_levels sd (erase_order i j (side_levels sd b)) (Suc (pool_free b)) b"])
      (auto simp: cancelOrder_locate)
qed

text \<open>What a fill does to a sequence of orders.\<close>

definition fill_orders :: "u64 \<Rightarrow> u32 \<Rightarrow> order list \<Rightarrow> order list" where
  "fill_orders oid q os = filter (\<lambda>x. order_id x = oid \<longrightarrow> remaining_quantity x \<noteq> 0)
     (map (\<lambda>x. if order_id x = oid then x\<lparr>remaining_quantity := remaining_quantity x - q\<rparr> else x) os)"

lemma fill_orders_notin: "oid \<notin> set (ids os) \<Longrightarrow> fill_orders oid q os = os"
  unfolding fill_orders_def by (subst map_idI) (auto simp: filter_id_conv)

lemma erase_put: "i < length ls \<Longrightarrow> j < length (lv_orders (ls ! i)) \<Longrightarrow>
    erase_order i j (put_order i j y ls) = erase_order i j ls"
  by (simp add: erase_order_def put_order_def Let_def list_erase_def)

lemma located_bounds:
  assumes "locate oid b = Some (sd, i, j)"
  shows "i < length (side_levels sd b)" "j < length (lv_orders (side_levels sd b ! i))"
  by (rule find_in_levels_split [OF locate_Some [OF assms]], simp)+

lemma fill_located:
  assumes wf: "book_wf capacity b" and loc: "locate oid b = Some (sd, i, j)"
    and x: "getOrderById oid b = Some x" and q: "q \<le> remaining_quantity x"
    and f: "fill_at i j q (pool_free b) (side_levels sd b) = Some (f, ls)"
  shows "book_wf capacity (set_side_levels sd ls f b)"
    and "flat sd' (set_side_levels sd ls f b) = fill_orders oid q (flat sd' b)"
proof -
  define y where "y = x\<lparr>remaining_quantity := remaining_quantity x - q\<rparr>"
  have at: "order_at i j (side_levels sd b) = x" using x loc by (simp add: getOrderById_locate)
  have ok: "resting_ok sd (price x) x" and oid: "order_id x = oid"
    by (rule locate_split [OF wf loc]; use x in \<open>simp add: resting_ok_def\<close>)+
  have "remaining_quantity x - q \<le> remaining_quantity x" using q by (simp add: word_le_nat_alt unat_sub)
  then have y: "order_id y = oid" "resting_ok sd (price (order_at i j (side_levels sd b))) y"
    using ok oid by (auto simp: y_def resting_ok_def at)
  have uniq: "z = x" if "z \<in> set (flat sd' b)" "order_id z = oid" for z sd'
    using that getOrderById_Some [OF wf, of oid z] x set_book_orders [of b sd'] by simp
  have map_y: "map (\<lambda>z. if order_id z = oid then z\<lparr>remaining_quantity := remaining_quantity z - q\<rparr> else z) (flat sd' b) =
      map (\<lambda>z. if order_id z = oid then y else z) (flat sd' b)" for sd'
    using uniq [of _ sd'] by (intro map_cong) (auto simp: y_def)
  note D = erase_put [OF located_bounds [OF loc], of y]
  show "book_wf capacity (set_side_levels sd ls f b)"
    using f q erase_located(1) [OF wf loc] put_located(1) [OF wf loc y] D
    by (auto simp: fill_at_def at Let_def y_def [symmetric] split: if_splits)
  show "flat sd' (set_side_levels sd ls f b) = fill_orders oid q (flat sd' b)"
  proof (cases "remaining_quantity y = 0")
    case True
    then have "flat sd' (set_side_levels sd ls f b) = filter (\<lambda>z. order_id z \<noteq> oid) (flat sd' b)"
      using f q erase_located(2) [OF wf loc] D by (auto simp: fill_at_def at Let_def y_def [symmetric] split: if_splits)
    also have "\<dots> = fill_orders oid q (flat sd' b)"
      using True y(1) unfolding fill_orders_def map_y filter_map
      by (auto simp: comp_def intro!: map_idI [symmetric] cong: if_cong)
    finally show ?thesis .
  next
    case False
    then have "flat sd' (set_side_levels sd ls f b) = map (\<lambda>z. if order_id z = oid then y else z) (flat sd' b)"
      using f q put_located(2) [OF wf loc y] by (auto simp: fill_at_def at Let_def y_def [symmetric] split: if_splits)
    also have "\<dots> = fill_orders oid q (flat sd' b)"
      using False unfolding fill_orders_def map_y by (subst filter_True) (auto split: if_splits)
    finally show ?thesis .
  qed
qed

lemma applyFill_effect:
  assumes wf: "book_wf capacity b"
  obtains b' where
    "applyFill oid q b = (0 < q \<and> (\<exists>x. getOrderById oid b = Some x \<and> q \<le> remaining_quantity x), b')"
    and "book_wf capacity b'" and "next_trade_id b' = next_trade_id b" and "book_stp b' = book_stp b"
    and "fst (applyFill oid q b) \<Longrightarrow> \<forall>sd. flat sd b' = fill_orders oid q (flat sd b)"
    and "\<not> fst (applyFill oid q b) \<Longrightarrow> b' = b"
proof (cases "0 < q \<and> (\<exists>x. getOrderById oid b = Some x \<and> q \<le> remaining_quantity x)")
  case True
  then obtain x where x: "getOrderById oid b = Some x" "q \<le> remaining_quantity x" and q: "q \<noteq> 0" by auto
  then obtain sd i j where loc: "locate oid b = Some (sd, i, j)" by (auto simp: getOrderById_locate)
  then have at: "order_at i j (side_levels sd b) = x" using x(1) by (simp add: getOrderById_locate)
  obtain f ls where f: "fill_at i j q (pool_free b) (side_levels sd b) = Some (f, ls)"
    using x(2) at by (cases "fill_at i j q (pool_free b) (side_levels sd b)")
      (auto simp: fill_at_def Let_def split: if_splits)
  have "applyFill oid q b = (True, set_side_levels sd ls f b)"
    using q loc f by (simp add: applyFill_locate)
  then show thesis
    using fill_located [OF wf loc x f] True by (intro that [of "set_side_levels sd ls f b"]) simp_all
next
  case False
  have "applyFill oid q b = (False, b)"
  proof (cases "q = 0 \<or> locate oid b = None")
    case nf: False
    then obtain sd i j where loc: "locate oid b = Some (sd, i, j)" by auto
    then have "remaining_quantity (order_at i j (side_levels sd b)) < q"
      using False nf by (auto simp: getOrderById_locate word_neq_0_conv not_le)
    then show ?thesis using loc by (simp add: applyFill_locate fill_at_def Let_def)
  qed (auto simp: applyFill_locate)
  then show thesis using False wf by (intro that [of b]) auto
qed

end
