(* ===== verification/Book_Sweep.thy ===== *)
theory Book_Sweep
  imports Book_Invariant
begin

text \<open>
  The reference description of matching: \<open>sweep\<close> walks one flat sequence of resting orders in
  priority order and fills the incoming order against it. The loop of \<open>matchOrder\<close>, which
  works level by level and drops queue entries and levels as it goes, is shown to compute it;
  the scans \<open>canFullyFill\<close> and \<open>wouldSelfTrade\<close> are shown to predict its outcome exactly.
\<close>

text \<open>
  The fills (resting order as it was, quantity), the incoming order afterwards, and what is
  left of the sequence.
\<close>

primrec sweep :: "order \<Rightarrow> order list \<Rightarrow> (order \<times> u32) list \<times> order \<times> order list" where
  "sweep inc [] = ([], inc, [])"
| "sweep inc (x # xs) =
     (if remaining_quantity inc = 0 \<or> blocked inc (price x) then ([], inc, x # xs)
      else if remaining_quantity x = 0 then sweep inc xs
      else let q = min (remaining_quantity inc) (remaining_quantity x);
               inc' = inc\<lparr>remaining_quantity := remaining_quantity inc - q\<rparr>
           in if remaining_quantity x = q
              then let (fs, r) = sweep inc' xs in ((x, q) # fs, r)
              else ([(x, q)], inc', x\<lparr>remaining_quantity := remaining_quantity x - q\<rparr> # xs))"

definition swept_fills :: "order \<Rightarrow> order list \<Rightarrow> (order \<times> u32) list" where
  "swept_fills inc os = fst (sweep inc os)"

definition swept_in :: "order \<Rightarrow> order list \<Rightarrow> order" where
  "swept_in inc os = fst (snd (sweep inc os))"

definition swept_rest :: "order \<Rightarrow> order list \<Rightarrow> order list" where
  "swept_rest inc os = snd (snd (sweep inc os))"

lemma sweep_parts: "sweep inc os = (swept_fills inc os, swept_in inc os, swept_rest inc os)"
  by (simp add: swept_fills_def swept_in_def swept_rest_def)

lemmas swept_defs = swept_fills_def swept_in_def swept_rest_def

text \<open>The four cases of the walk, for each part of the result.\<close>

lemma swept_Nil [simp]: "swept_fills inc [] = []" "swept_in inc [] = inc" "swept_rest inc [] = []"
  by (simp_all add: swept_defs)

lemma swept_stop [simp]:
  assumes "remaining_quantity inc = 0 \<or> blocked inc (price x)"
  shows "swept_fills inc (x # xs) = []" "swept_in inc (x # xs) = inc" "swept_rest inc (x # xs) = x # xs"
  using assms by (simp_all add: swept_defs)

lemma swept_done [simp]:
  assumes "remaining_quantity inc = 0"
  shows "swept_fills inc os = []" "swept_in inc os = inc" "swept_rest inc os = os"
  using assms by (cases os; simp)+

lemma swept_empty:
  assumes "remaining_quantity inc \<noteq> 0" "\<not> blocked inc (price x)" "remaining_quantity x = 0"
  shows "swept_fills inc (x # xs) = swept_fills inc xs" "swept_in inc (x # xs) = swept_in inc xs"
    "swept_rest inc (x # xs) = swept_rest inc xs"
  using assms by (simp_all add: swept_defs)

abbreviation reduce :: "order \<Rightarrow> u32 \<Rightarrow> order" where
  "reduce ord q \<equiv> ord\<lparr>remaining_quantity := remaining_quantity ord - q\<rparr>"

lemma swept_full:
  assumes "remaining_quantity inc \<noteq> 0" "\<not> blocked inc (price x)" "remaining_quantity x \<noteq> 0"
    "remaining_quantity x \<le> remaining_quantity inc"
  defines "inc' \<equiv> reduce inc (remaining_quantity x)"
  shows "swept_fills inc (x # xs) = (x, remaining_quantity x) # swept_fills inc' xs"
    "swept_in inc (x # xs) = swept_in inc' xs" "swept_rest inc (x # xs) = swept_rest inc' xs"
  using assms by (simp_all add: swept_defs min_def case_prod_beta Let_def)

lemma swept_partial:
  assumes "remaining_quantity inc \<noteq> 0" "\<not> blocked inc (price x)"
    "remaining_quantity inc < remaining_quantity x"
  shows "swept_fills inc (x # xs) = [(x, remaining_quantity inc)]"
    "swept_in inc (x # xs) = inc\<lparr>remaining_quantity := 0\<rparr>"
    "swept_rest inc (x # xs) = reduce x (remaining_quantity inc) # xs"
  using assms by (auto simp: swept_defs min_def Let_def)

lemmas swept_steps = swept_empty swept_full swept_partial

lemma blocked_reduce [simp]: "blocked (inc\<lparr>remaining_quantity := r\<rparr>) p = blocked inc p"
  by (simp add: blocked_def)

text \<open>The induction over the walk that the proofs below share.\<close>

lemma sweep_cases [case_names Nil Stop Empty Full Partial]:
  assumes "\<And>inc. P inc []"
    and "\<And>inc x xs. remaining_quantity inc = 0 \<or> blocked inc (price x) \<Longrightarrow> P inc (x # xs)"
    and "\<And>inc x xs. remaining_quantity inc \<noteq> 0 \<Longrightarrow> \<not> blocked inc (price x) \<Longrightarrow>
          remaining_quantity x = 0 \<Longrightarrow> P inc xs \<Longrightarrow> P inc (x # xs)"
    and "\<And>inc x xs. remaining_quantity inc \<noteq> 0 \<Longrightarrow> \<not> blocked inc (price x) \<Longrightarrow>
          remaining_quantity x \<noteq> 0 \<Longrightarrow> remaining_quantity x \<le> remaining_quantity inc \<Longrightarrow>
          P (reduce inc (remaining_quantity x)) xs \<Longrightarrow> P inc (x # xs)"
    and "\<And>inc x xs. remaining_quantity inc \<noteq> 0 \<Longrightarrow> \<not> blocked inc (price x) \<Longrightarrow>
          remaining_quantity inc < remaining_quantity x \<Longrightarrow> P inc (x # xs)"
  shows "P inc os"
proof (induction os arbitrary: inc)
  case Nil
  then show ?case by (rule assms(1))
next
  case (Cons x xs)
  consider "remaining_quantity inc = 0 \<or> blocked inc (price x)"
    | "remaining_quantity inc \<noteq> 0" "\<not> blocked inc (price x)" "remaining_quantity x = 0"
    | "remaining_quantity inc \<noteq> 0" "\<not> blocked inc (price x)" "remaining_quantity x \<noteq> 0"
      "remaining_quantity x \<le> remaining_quantity inc"
    | "remaining_quantity inc \<noteq> 0" "\<not> blocked inc (price x)" "remaining_quantity inc < remaining_quantity x"
    by (meson linorder_not_less)
  then show ?case
    by cases (use Cons assms(2-) in blast)+
qed

lemma swept_empties:
  assumes "remaining_quantity inc \<noteq> 0"
    and "\<And>x. x \<in> set zs \<Longrightarrow> remaining_quantity x = 0 \<and> \<not> blocked inc (price x)"
  shows "sweep inc (zs @ os) = sweep inc os"
  using assms(2) by (induction zs) (auto simp: assms(1))

text \<open>One fill: the incoming order and the first resting order both lose the smaller quantity.\<close>

lemma sweep_head:
  fixes inc x :: order and xs :: "order list"
  assumes "remaining_quantity inc \<noteq> 0" "\<not> blocked inc (price x)" "remaining_quantity x \<noteq> 0"
  defines "q \<equiv> min (remaining_quantity inc) (remaining_quantity x)"
  defines "inc' \<equiv> reduce inc q" and "ys \<equiv> (if remaining_quantity x = q then xs else reduce x q # xs)"
  shows "sweep inc (x # xs) = ((x, q) # swept_fills inc' ys, swept_in inc' ys, swept_rest inc' ys)"
proof (cases "remaining_quantity x \<le> remaining_quantity inc")
  case True
  then have "q = remaining_quantity x" by (simp add: q_def)
  then show ?thesis
    unfolding sweep_parts [of inc] inc'_def ys_def using swept_full [OF assms(1-3) True, of xs] by simp
next
  case False
  then have q: "q = remaining_quantity inc" "remaining_quantity inc < remaining_quantity x"
    by (simp_all add: q_def)
  then show ?thesis
    unfolding sweep_parts [of inc] inc'_def ys_def using swept_partial [OF assms(1,2) q(2), of xs] by simp
qed

subsection \<open>What a sweep does\<close>

lemma swept_in_eq: "swept_in inc os = inc\<lparr>remaining_quantity := remaining_quantity (swept_in inc os)\<rparr>"
proof (induction inc os rule: sweep_cases)
  case (Full inc x xs)
  show ?case using Full(5) unfolding swept_full(2) [OF Full(1-4)] by (metis order.update_convs(8) order.surjective)
qed (simp_all add: swept_steps)

abbreviation total :: "order list \<Rightarrow> nat" where
  "total os \<equiv> sum_list (map (unat \<circ> remaining_quantity) os)"

abbreviation filled :: "(order \<times> u32) list \<Rightarrow> nat" where
  "filled fs \<equiv> sum_list (map (unat \<circ> snd) fs)"

lemma sweep_conserves_in:
  "unat (remaining_quantity inc) = unat (remaining_quantity (swept_in inc os)) + filled (swept_fills inc os)"
proof (induction inc os rule: sweep_cases)
  case (Full inc x xs)
  then show ?case by (simp add: swept_full unat_sub word_le_nat_alt)
qed (simp_all add: swept_steps)

lemma sweep_conserves_rest:
  "total os = total (swept_rest inc os) + filled (swept_fills inc os)"
proof (induction inc os rule: sweep_cases)
  case (Partial inc x xs)
  moreover have "unat (remaining_quantity inc) \<le> unat (remaining_quantity x)"
    using Partial(3) by (simp add: word_less_nat_alt)
  ultimately show ?case by (simp add: swept_partial unat_sub word_le_nat_alt)
qed (simp_all add: swept_steps)

lemma swept_stops:
  "remaining_quantity (swept_in inc os) = 0 \<or> swept_rest inc os = [] \<or>
   blocked inc (price (hd (swept_rest inc os)))"
  by (induction inc os rule: sweep_cases) (auto simp: swept_steps)

text \<open>Every fill is of a live order the limit reaches, for a positive quantity it has.\<close>

lemma swept_fill_ok:
  "(x, q) \<in> set (swept_fills inc os) \<Longrightarrow>
   x \<in> set os \<and> 0 < q \<and> q \<le> remaining_quantity x \<and> \<not> blocked inc (price x)"
  by (induction inc os rule: sweep_cases) (auto simp: swept_steps word_neq_0_conv)

text \<open>
  Priority: the filled orders are the first live ones, and only the last of them may be
  filled in part.
\<close>

lemma swept_prefix:
  "\<exists>rest. filter (\<lambda>x. 0 < remaining_quantity x) os = map fst (swept_fills inc os) @ rest"
  by (induction inc os rule: sweep_cases) (auto simp: swept_steps word_neq_0_conv)

lemma swept_complete:
  "i + 1 < length (swept_fills inc os) \<Longrightarrow>
   snd (swept_fills inc os ! i) = remaining_quantity (fst (swept_fills inc os ! i))"
proof (induction inc os arbitrary: i rule: sweep_cases)
  case (Full inc x xs)
  then show ?case by (cases i) (simp_all add: swept_full)
qed (simp_all add: swept_steps)

text \<open>What is left is the end of the sequence, its first order reduced at most.\<close>

lemma swept_rest_tail:
  "\<exists>ys. (\<exists>n. ys = drop n os) \<and>
    (swept_rest inc os = ys \<or>
     (\<exists>q. ys \<noteq> [] \<and> 0 < q \<and> q < remaining_quantity (hd ys) \<and> swept_rest inc os = reduce (hd ys) q # tl ys))"
  (is "\<exists>ys. (\<exists>n. ys = drop n os) \<and> ?R inc os ys")
proof (induction inc os rule: sweep_cases)
  case (Stop inc x xs)
  then show ?case by (intro exI [of _ "x # xs"] conjI exI [of _ 0]) simp_all
next
  case (Empty inc x xs)
  then obtain n where "?R inc xs (drop n xs)" by blast
  then show ?case using Empty(1-3) by (intro exI [of _ "drop n xs"] conjI exI [of _ "Suc n"]) (simp_all add: swept_empty)
next
  case (Full inc x xs)
  then obtain n where "?R (reduce inc (remaining_quantity x)) xs (drop n xs)" by blast
  then show ?case using Full(1-4) by (intro exI [of _ "drop n xs"] conjI exI [of _ "Suc n"]) (simp_all add: swept_full)
next
  case (Partial inc x xs)
  then show ?case
    by (intro exI [of _ "x # xs"] conjI exI [of _ 0] disjI2 exI [of _ "remaining_quantity inc"])
      (simp_all add: swept_partial word_neq_0_conv)
qed simp

subsection \<open>The two scans predict the sweep\<close>

text \<open>The scans over a flat sequence.\<close>

primrec flat_fill_scan :: "order \<Rightarrow> u64 \<Rightarrow> u64 \<Rightarrow> order list \<Rightarrow> bool" where
  "flat_fill_scan inc needed avail [] = False"
| "flat_fill_scan inc needed avail (x # xs) =
     (if blocked inc (price x) then False
      else let a = avail + ucast (remaining_quantity x) in
        needed \<le> a \<or> flat_fill_scan inc needed a xs)"

primrec flat_self_scan :: "order \<Rightarrow> u32 \<Rightarrow> order list \<Rightarrow> bool" where
  "flat_self_scan inc rem [] = False"
| "flat_self_scan inc rem (x # xs) =
     (if blocked inc (price x) then False
      else if remaining_quantity x = 0 then flat_self_scan inc rem xs
      else if trader_id x = trader_id inc then True
      else let r = rem - min rem (remaining_quantity x) in
        if r = 0 then False else flat_self_scan inc r xs)"

lemma flat_fill_scan_queue:
  assumes "\<And>x. x \<in> set os \<Longrightarrow> \<not> blocked inc (price x)"
  shows "flat_fill_scan inc needed avail (os @ rest) =
    (case fill_scan_queue needed avail os of None \<Rightarrow> True | Some a \<Rightarrow> flat_fill_scan inc needed a rest)"
  using assms by (induction os arbitrary: avail) (auto simp: Let_def)

lemma flat_self_scan_queue:
  assumes "\<And>x. x \<in> set os \<Longrightarrow> \<not> blocked inc (price x)"
  shows "flat_self_scan inc rem (os @ rest) =
    (case self_scan_queue (trader_id inc) rem os of Inl r \<Rightarrow> r | Inr rem' \<Rightarrow> flat_self_scan inc rem' rest)"
  using assms by (induction os arbitrary: rem) (auto simp: Let_def)

lemma level_blocked:
  "level_wf sd l \<Longrightarrow> x \<in> set (lv_orders l) \<Longrightarrow> blocked inc (price x) = blocked inc (lv_price l)"
  by (auto simp: level_wf_def resting_ok_def)

lemma fill_scan_flat:
  "(\<And>l. l \<in> set ls \<Longrightarrow> level_wf sd l) \<Longrightarrow>
   fill_scan (blocked inc) needed avail ls = flat_fill_scan inc needed avail (all_orders ls)"
proof (induction ls arbitrary: avail)
  case (Cons l ls)
  have w: "level_wf sd l" using Cons.prems by simp
  show ?case
  proof (cases "blocked inc (lv_price l)")
    case True
    moreover obtain x os where "lv_orders l = x # os" using w by (cases "lv_orders l") (auto simp: level_wf_def)
    ultimately show ?thesis using level_blocked [OF w, of x inc] by simp
  next
    case False
    then have "\<And>x. x \<in> set (lv_orders l) \<Longrightarrow> \<not> blocked inc (price x)" using level_blocked [OF w] by blast
    then show ?thesis
      using False Cons by (auto simp: flat_fill_scan_queue split: option.splits)
  qed
qed simp

lemma self_scan_flat:
  "(\<And>l. l \<in> set ls \<Longrightarrow> level_wf sd l) \<Longrightarrow>
   self_scan (blocked inc) (trader_id inc) rem ls = flat_self_scan inc rem (all_orders ls)"
proof (induction ls arbitrary: rem)
  case (Cons l ls)
  have w: "level_wf sd l" using Cons.prems by simp
  show ?case
  proof (cases "blocked inc (lv_price l)")
    case True
    moreover obtain x os where "lv_orders l = x # os" using w by (cases "lv_orders l") (auto simp: level_wf_def)
    ultimately show ?thesis using level_blocked [OF w, of x inc] by simp
  next
    case False
    then have "\<And>x. x \<in> set (lv_orders l) \<Longrightarrow> \<not> blocked inc (price x)" using level_blocked [OF w] by blast
    then show ?thesis
      using False Cons by (auto simp: flat_self_scan_queue split: sum.splits)
  qed
qed simp

lemma flat_fill_scan_reduce [simp]:
  "flat_fill_scan (inc\<lparr>remaining_quantity := r\<rparr>) needed avail os = flat_fill_scan inc needed avail os"
  by (induction os arbitrary: avail) (simp_all add: Let_def)

lemma flat_self_scan_reduce [simp]:
  "flat_self_scan (inc\<lparr>remaining_quantity := r\<rparr>) rem os = flat_self_scan inc rem os"
  by (induction os arbitrary: rem) (simp_all add: Let_def)

text \<open>
  The 64-bit sum of \<open>canFullyFill\<close> cannot wrap: it is below the 32-bit quantity asked for
  when the next 32-bit quantity is added.
\<close>

lemma avail_no_wrap:
  assumes "unat avail + unat r = unat (needed :: u64)" "unat needed < 2 ^ 32"
  shows "unat (avail + ucast (x :: u32)) = unat avail + unat x"
    and "needed \<le> avail + ucast x \<longleftrightarrow> unat r \<le> unat x"
proof -
  have "unat x < 4294967296" "unat needed < 4294967296" using assms(2) by simp_all
  then have "unat avail + unat x < 18446744073709551616" using assms(1) by linarith
  then have "unat avail + unat (ucast x :: u64) < 2 ^ 64" by (simp add: unat_ucast_32_64)
  then show "unat (avail + ucast x) = unat avail + unat x"
    by (simp add: unat_add_lem [THEN iffD1] unat_ucast_32_64)
  then show "needed \<le> avail + ucast x \<longleftrightarrow> unat r \<le> unat x"
    using assms by (auto simp: word_le_nat_alt)
qed

lemma flat_fill_scan_exact:
  "remaining_quantity inc \<noteq> 0 \<Longrightarrow> unat avail + unat (remaining_quantity inc) = unat needed \<Longrightarrow>
   unat needed < 2 ^ 32 \<Longrightarrow>
   flat_fill_scan inc needed avail os \<longleftrightarrow> remaining_quantity (swept_in inc os) = 0"
proof (induction inc os arbitrary: avail rule: sweep_cases)
  case (Stop inc x xs)
  then show ?case by auto
next
  case (Empty inc x xs)
  have "avail + ucast (remaining_quantity x) = avail" using Empty(3) by simp
  moreover have "0 < unat (remaining_quantity inc)" using Empty(1) by (simp add: unat_gt_0)
  then have "\<not> needed \<le> avail" using Empty.prems(2) unfolding word_le_nat_alt by linarith
  ultimately show ?case using Empty by (simp add: swept_empty Let_def)
next
  case (Full inc x xs)
  let ?a = "avail + ucast (remaining_quantity x)"
  note nw = avail_no_wrap [OF Full.prems(2,3), of "remaining_quantity x"]
  have le: "unat (remaining_quantity x) \<le> unat (remaining_quantity inc)"
    using Full(4) by (simp add: word_le_nat_alt)
  show ?case
  proof (cases "remaining_quantity x = remaining_quantity inc")
    case True
    then show ?thesis using Full(1-3) nw(2) by (simp add: swept_full)
  next
    case False
    then have "\<not> needed \<le> ?a" using nw(2) le by (simp add: word_unat_eq_iff)
    moreover have "flat_fill_scan (reduce inc (remaining_quantity x)) needed ?a xs \<longleftrightarrow>
        remaining_quantity (swept_in (reduce inc (remaining_quantity x)) xs) = 0"
      using False Full.prems le nw(1) by (intro Full.IH) (auto simp: unat_sub word_le_nat_alt)
    ultimately show ?thesis using Full(1-4) by (simp add: swept_full Let_def)
  qed
next
  case (Partial inc x xs)
  then have "needed \<le> avail + ucast (remaining_quantity x)"
    using avail_no_wrap(2) [OF Partial.prems(2,3), of "remaining_quantity x"] by (simp add: word_less_nat_alt)
  then show ?case using Partial by (simp add: swept_partial)
qed simp

lemma flat_self_scan_exact:
  "remaining_quantity inc \<noteq> 0 \<Longrightarrow>
   flat_self_scan inc (remaining_quantity inc) os \<longleftrightarrow>
     (\<exists>(x, q) \<in> set (swept_fills inc os). trader_id x = trader_id inc)"
proof (induction inc os rule: sweep_cases)
  case (Full inc x xs)
  show ?case
  proof (cases "remaining_quantity x = remaining_quantity inc")
    case True
    then show ?thesis using Full(1-4) by (auto simp: swept_full)
  next
    case False
    then show ?thesis using Full(1-4) Full.IH by (auto simp: swept_full min_def)
  qed
next
  case (Partial inc x xs)
  then show ?case by (auto simp: swept_partial min_def)
qed (auto simp: swept_empty)

end
