(* ===== verification/Book_Matching.thy ===== *)
theory Book_Matching
  imports Book_Sweep
begin

text \<open>
  The loop of \<open>matchOrder\<close> refines the sweep of \<open>Book_Sweep\<close>; from this follow the functional
  behaviour of \<open>matchOrder\<close> on every branch, the preservation of the invariant and the
  properties a trading venue promises: price-time priority, conservation of quantity, limit
  protection, what may rest, fill-or-kill atomicity, self-trade prevention, and that the book is
  never left crossed.
\<close>

subsection \<open>The trades a list of fills gives\<close>

definition trade_of :: "(u64 \<Rightarrow> i64) \<Rightarrow> u64 \<Rightarrow> order \<Rightarrow> order \<Rightarrow> u32 \<Rightarrow> trade" where
  "trade_of now n inc x q =
     (if side inc = BUY
      then \<lparr>trade_id = n, buy_order_id = order_id inc, sell_order_id = order_id x,
            buy_trader_id = trader_id inc, sell_trader_id = trader_id x,
            trade_price = price x, trade_quantity = q, trade_timestamp = now n\<rparr>
      else \<lparr>trade_id = n, buy_order_id = order_id x, sell_order_id = order_id inc,
            buy_trader_id = trader_id x, sell_trader_id = trader_id inc,
            trade_price = price x, trade_quantity = q, trade_timestamp = now n\<rparr>)"

primrec trades_of :: "(u64 \<Rightarrow> i64) \<Rightarrow> u64 \<Rightarrow> order \<Rightarrow> (order \<times> u32) list \<Rightarrow> trade list" where
  "trades_of now n inc [] = []"
| "trades_of now n inc (f # fs) = trade_of now n inc (fst f) (snd f) # trades_of now (n + 1) inc fs"

lemma trade_of_reduce [simp]: "trade_of now n (inc\<lparr>remaining_quantity := r\<rparr>) = trade_of now n inc"
  by (simp add: trade_of_def fun_eq_iff)

lemma trades_of_reduce [simp]: "trades_of now n (inc\<lparr>remaining_quantity := r\<rparr>) fs = trades_of now n inc fs"
  by (induction fs arbitrary: n) simp_all

lemma trades_of_append: "trades_of now n inc (fs @ gs) =
    trades_of now n inc fs @ trades_of now (n + of_nat (length fs)) inc gs"
  by (induction fs arbitrary: n) (simp_all add: algebra_simps)

lemma length_trades_of [simp]: "length (trades_of now n inc fs) = length fs"
  by (induction fs arbitrary: n) simp_all

lemma nth_trades_of:
  "i < length fs \<Longrightarrow> trades_of now n inc fs ! i = trade_of now (n + of_nat i) inc (fst (fs ! i)) (snd (fs ! i))"
  by (induction fs arbitrary: n i) (auto simp: nth_Cons algebra_simps split: nat.splits)

lemma make_trade_ok:
  assumes "n \<noteq> 0" "order_id inc \<noteq> order_id x" "q \<noteq> 0" "pos_finite (price x)"
  shows "make_trade now n inc x (price x) q = Inr (trade_of now n inc x q)"
  using assms by (auto simp: make_trade_def trade_of_def Trade_Inr_iff)

text \<open>There are \<open>k\<close> more non-zero trade identifiers from \<open>n\<close> on.\<close>

definition id_room :: "u64 \<Rightarrow> nat \<Rightarrow> bool" where
  "id_room n k \<longleftrightarrow> k = 0 \<or> (n \<noteq> 0 \<and> unat n + k \<le> 2 ^ 64)"

lemma id_room_0 [simp]: "id_room n 0"
  by (simp add: id_room_def)

lemma id_room_mono: "id_room n k \<Longrightarrow> k' \<le> k \<Longrightarrow> id_room n k'"
  by (auto simp: id_room_def)

lemma id_room_Suc: "id_room n (Suc k) \<Longrightarrow> n \<noteq> 0 \<and> id_room (n + 1) k"
proof -
  assume r: "id_room n (Suc k)"
  have "unat (n + 1) = unat n + 1 \<and> n + 1 \<noteq> 0" if "k \<noteq> 0"
  proof -
    have "unat n + 1 < 2 ^ 64" using r that by (auto simp: id_room_def)
    then have "unat (n + 1) = unat n + 1" by (simp add: unat_add_lem [THEN iffD1])
    then show ?thesis by (metis add_is_0 unat_0 zero_neq_one)
  qed
  with r show ?thesis by (auto simp: id_room_def)
qed

subsection \<open>The loop\<close>

lemma drop_filled_split:
  "drop_filled free os = (f, os') \<Longrightarrow> \<exists>zs. os = zs @ os' \<and> (\<forall>z \<in> set zs. remaining_quantity z = 0) \<and>
     f = free + length zs \<and> (os' \<noteq> [] \<longrightarrow> remaining_quantity (hd os') \<noteq> 0)"
proof (induction os arbitrary: free)
  case (Cons x xs)
  show ?case
  proof (cases "remaining_quantity x = 0")
    case True
    then have "drop_filled (Suc free) xs = (f, os')" using Cons.prems by simp
    from Cons.IH [OF this] obtain zs where "xs = zs @ os'" "\<forall>z \<in> set zs. remaining_quantity z = 0"
      "f = Suc free + length zs" "os' \<noteq> [] \<longrightarrow> remaining_quantity (hd os') \<noteq> 0" by blast
    then show ?thesis using True by (intro exI [of _ "x # zs"]) simp
  next
    case False
    then show ?thesis using Cons.prems by (intro exI [of _ "[]"]) auto
  qed
qed simp

lemma make_trade_at:
  assumes "level_wf sd l" "x \<in> set (lv_orders l)" "n \<noteq> 0" "order_id inc \<noteq> order_id x" "q \<noteq> 0"
  shows "make_trade now n inc x (lv_price l) q = Inr (trade_of now n inc x q)"
  using make_trade_ok [OF assms(3-5), of now] assms(1,2) by (auto simp: level_wf_def resting_ok_def)

lemma resting_ok_reduce:
  "resting_ok sd p x \<Longrightarrow> q \<le> remaining_quantity x \<Longrightarrow> resting_ok sd p (reduce x q)"
  by (auto simp: resting_ok_def word_le_nat_alt unat_sub)

text \<open>What a finished (or continued) run of the loop has established.\<close>

definition loop_rel :: "order_side \<Rightarrow> (u64 \<Rightarrow> i64) \<Rightarrow> (order \<times> u32) list \<Rightarrow> match_st \<Rightarrow> match_st \<Rightarrow> bool" where
  "loop_rel sd now fs s s' \<longleftrightarrow> side_wf sd (ms_levels s') \<and> ms_exn s' = None \<and>
     ms_trades s' = ms_trades s @ trades_of now (ms_next s) (ms_in s) fs \<and>
     ms_next s' = ms_next s + of_nat (length fs) \<and>
     ms_free s' + length (all_orders (ms_levels s')) = ms_free s + length (all_orders (ms_levels s)) \<and>
     ms_in s' = (ms_in s)\<lparr>remaining_quantity := remaining_quantity (ms_in s')\<rparr>"

definition loop_ready :: "order_side \<Rightarrow> match_st \<Rightarrow> bool" where
  "loop_ready sd s \<longleftrightarrow> side_wf sd (ms_levels s) \<and> ms_exn s = None \<and>
     order_id (ms_in s) \<notin> set (ids (all_orders (ms_levels s))) \<and>
     id_room (ms_next s) (length (swept_fills (ms_in s) (all_orders (ms_levels s))))"

lemma match_step_None:
  assumes "match_step now s = None" "loop_ready sd s"
  shows "sweep (ms_in s) (all_orders (ms_levels s)) = ([], ms_in s, all_orders (ms_levels s))"
proof (cases "remaining_quantity (ms_in s) = 0 \<or> ms_levels s = []")
  case True
  then show ?thesis by (auto simp: sweep_parts)
next
  case False
  then obtain l ls where ls: "ms_levels s = l # ls" by (cases "ms_levels s") auto
  then have b: "blocked (ms_in s) (lv_price l)"
    using assms False by (auto simp: match_step_def loop_ready_def Let_def split: if_splits sum.splits prod.splits list.splits)
  have "level_wf sd l" using assms ls by (simp add: loop_ready_def side_wf_Cons)
  moreover from this obtain x xs where x: "lv_orders l = x # xs" by (cases "lv_orders l") (auto simp: level_wf_def)
  ultimately have "blocked (ms_in s) (price x)" using level_blocked [of sd l x] b by simp
  then show ?thesis using ls x by simp
qed

text \<open>
  Orders at the front of a level that are already filled (a lazy removal the loop performs)
  are skipped by the sweep too.
\<close>

lemma drop_filled_sweep:
  assumes "level_wf sd l" and "remaining_quantity inc \<noteq> 0" and "\<not> blocked inc (lv_price l)"
    and df: "drop_filled n (lv_orders l) = (f, os)"
  obtains zs where "lv_orders l = zs @ os" "f = n + length zs"
    "os \<noteq> [] \<longrightarrow> remaining_quantity (hd os) \<noteq> 0"
    "\<And>ys. sweep inc (lv_orders l @ ys) = sweep inc (os @ ys)"
proof -
  obtain zs where zs: "lv_orders l = zs @ os" "\<forall>z \<in> set zs. remaining_quantity z = 0"
    "f = n + length zs" "os \<noteq> [] \<longrightarrow> remaining_quantity (hd os) \<noteq> 0"
    using drop_filled_split [OF df] by blast
  have "\<not> blocked inc (price z)" if "z \<in> set zs" for z
    using level_blocked [OF assms(1), of z inc] that zs(1) assms(3) by simp
  then have "sweep inc (lv_orders l @ ys) = sweep inc (os @ ys)" for ys
    using swept_empties [OF assms(2), of zs "os @ ys"] zs by simp
  then show thesis using zs by (intro that)
qed

text \<open>
  One iteration makes the trades \<open>fs\<close>, and the sweep of the state before it is \<open>fs\<close>
  followed by the sweep of the state after it.
\<close>

definition step_sweeps :: "order_side \<Rightarrow> (u64 \<Rightarrow> i64) \<Rightarrow> (order \<times> u32) list \<Rightarrow> match_st \<Rightarrow> match_st \<Rightarrow> bool" where
  "step_sweeps sd now fs s s1 \<longleftrightarrow> loop_rel sd now fs s s1 \<and> loop_ready sd s1 \<and>
     sweep (ms_in s) (all_orders (ms_levels s)) =
      (fs @ swept_fills (ms_in s1) (all_orders (ms_levels s1)),
       swept_in (ms_in s1) (all_orders (ms_levels s1)), swept_rest (ms_in s1) (all_orders (ms_levels s1)))"

lemma match_step_exhausted:
  assumes step: "match_step now s = Some s1" and ready: "loop_ready sd s"
    and ls: "ms_levels s = l # ls" and go: "remaining_quantity (ms_in s) \<noteq> 0" "\<not> blocked (ms_in s) (lv_price l)"
    and df: "drop_filled (ms_free s) (lv_orders l) = (f, [])"
  shows "step_sweeps sd now [] s s1"
proof -
  have sw: "side_wf sd (l # ls)" and ne: "ms_exn s = None" using ready ls by (simp_all add: loop_ready_def)
  then have wl: "level_wf sd l" by (simp add: side_wf_Cons)
  have s1: "s1 = s\<lparr>ms_levels := ls, ms_free := f\<rparr>"
    using step ls df go ne by (simp add: match_step_def)
  from wl go df obtain zs where zs: "lv_orders l = zs" "f = ms_free s + length zs"
    and eq: "sweep (ms_in s) (lv_orders l @ all_orders ls) = sweep (ms_in s) (all_orders ls)"
    by (rule drop_filled_sweep) auto
  then have "swept_fills (ms_in s) (lv_orders l @ all_orders ls) = swept_fills (ms_in s) (all_orders ls)"
    by (simp add: swept_fills_def)
  then show ?thesis using sw ne zs ls eq ready
    by (auto simp: step_sweeps_def loop_rel_def loop_ready_def s1 side_wf_Cons sweep_parts [symmetric])
qed

lemma match_step_trade:
  assumes step: "match_step now s = Some s1" and ready: "loop_ready sd s"
    and ls: "ms_levels s = l # ls" and go: "remaining_quantity (ms_in s) \<noteq> 0" "\<not> blocked (ms_in s) (lv_price l)"
    and df: "drop_filled (ms_free s) (lv_orders l) = (f, x # xs)"
    and q: "q = min (remaining_quantity (ms_in s)) (remaining_quantity x)"
  shows "step_sweeps sd now [(x, q)] s s1"
proof -
  let ?inc = "ms_in s" and ?rest = "all_orders ls"
  have sw: "side_wf sd (l # ls)" and ne: "ms_exn s = None" using ready ls by (simp_all add: loop_ready_def)
  then have wl: "level_wf sd l" by (simp add: side_wf_Cons)
  from wl go df obtain zs where zs: "lv_orders l = zs @ x # xs" "f = ms_free s + length zs"
    and x: "remaining_quantity x \<noteq> 0"
    and eq: "sweep ?inc (lv_orders l @ ?rest) = sweep ?inc (x # xs @ ?rest)"
    by (rule drop_filled_sweep) auto
  have nbx: "\<not> blocked ?inc (price x)" using level_blocked [OF wl, of x ?inc] zs go by simp
  define inc' ys where "inc' = reduce ?inc q"
    and "ys = (if remaining_quantity x = q then xs else reduce x q # xs)"
  have sweep_q: "sweep ?inc (lv_orders l @ ?rest) = ((x, q) # swept_fills inc' (ys @ ?rest),
      swept_in inc' (ys @ ?rest), swept_rest inc' (ys @ ?rest))"
    using sweep_head [OF go(1) nbx x, of "xs @ ?rest"] eq by (simp add: q inc'_def ys_def)
  then have n: "ms_next s \<noteq> 0 \<and> id_room (ms_next s + 1) (length (swept_fills inc' (ys @ ?rest)))"
    using ready ls by (intro id_room_Suc) (simp add: loop_ready_def swept_fills_def)
  have mk: "make_trade now (ms_next s) ?inc x (lv_price l) q = Inr (trade_of now (ms_next s) ?inc x q)"
    using x zs wl ready ls go n by (intro make_trade_at) (auto simp: loop_ready_def q min_def)
  have s1: "s1 = s\<lparr>ms_levels := (if ys = [] then ls else l\<lparr>lv_orders := ys\<rparr> # ls), ms_in := inc',
      ms_next := ms_next s + 1, ms_trades := ms_trades s @ [trade_of now (ms_next s) ?inc x q],
      ms_free := (if remaining_quantity x = q then Suc f else f)\<rparr>"
    using step ls df go ne mk
    by (auto simp: match_step_def Let_def inc'_def ys_def q [symmetric] split: if_splits)
  have "\<And>y. y \<in> set ys \<Longrightarrow> resting_ok sd (lv_price l) y"
    using wl zs(1) by (auto simp: ys_def level_wf_def resting_ok_reduce q split: if_splits)
  then have sw1: "side_wf sd (ms_levels s1)"
    using side_wf_erase_level [of sd "[]" l ls ys] sw by (simp add: s1 erase_level_def split: if_splits)
  have all1: "all_orders (ms_levels s1) = ys @ ?rest" by (simp add: s1)
  have ids1: "set (ids ys) \<subseteq> set (ids (lv_orders l))" using zs(1) by (auto simp: ys_def)
  have "loop_rel sd now [(x, q)] s s1"
    using sw1 ne zs ls by (auto simp: loop_rel_def all1) (auto simp: s1 inc'_def ys_def)
  moreover have "loop_ready sd s1"
    using sw1 ready ids1 ls n by (auto simp: loop_ready_def all1) (auto simp: s1 inc'_def)
  ultimately show ?thesis using sweep_q ls by (simp add: step_sweeps_def all1) (simp add: s1)
qed

lemma match_step_Some:
  assumes step: "match_step now s = Some s1" and ready: "loop_ready sd s"
  obtains fs where "loop_rel sd now fs s s1" and "loop_ready sd s1"
    and "sweep (ms_in s) (all_orders (ms_levels s)) =
      (fs @ swept_fills (ms_in s1) (all_orders (ms_levels s1)),
       swept_in (ms_in s1) (all_orders (ms_levels s1)), swept_rest (ms_in s1) (all_orders (ms_levels s1)))"
proof -
  obtain l ls where ls: "ms_levels s = l # ls" and rem: "remaining_quantity (ms_in s) \<noteq> 0"
    and nb: "\<not> blocked (ms_in s) (lv_price l)"
    using step by (auto simp: match_step_def split: list.splits if_splits)
  obtain f os where df: "drop_filled (ms_free s) (lv_orders l) = (f, os)" by fastforce
  have "\<exists>fs. step_sweeps sd now fs s s1"
  proof (cases os)
    case Nil
    then show ?thesis using match_step_exhausted [OF step ready ls rem nb] df by blast
  next
    case (Cons x xs)
    then show ?thesis using match_step_trade [OF step ready ls rem nb _ refl] df by blast
  qed
  then show thesis using that by (auto simp: step_sweeps_def)
qed

lemma loop_rel_refl: "loop_ready sd s \<Longrightarrow> loop_rel sd now [] s s"
  by (simp add: loop_rel_def loop_ready_def)

lemma loop_rel_trans:
  assumes "loop_rel sd now fs s s1" "loop_rel sd now gs s1 s2"
  shows "loop_rel sd now (fs @ gs) s s2"
proof -
  have i: "ms_in s1 = (ms_in s)\<lparr>remaining_quantity := remaining_quantity (ms_in s1)\<rparr>"
    using assms(1) by (simp add: loop_rel_def)
  then have "trades_of now n (ms_in s1) gs = trades_of now n (ms_in s) gs" for n
    by (metis trades_of_reduce)
  moreover have "ms_in s2 = (ms_in s)\<lparr>remaining_quantity := remaining_quantity (ms_in s2)\<rparr>"
  proof -
    have "ms_in s2 = (ms_in s1)\<lparr>remaining_quantity := remaining_quantity (ms_in s2)\<rparr>"
      using assms(2) by (simp add: loop_rel_def)
    then show ?thesis by (subst (asm) i) simp
  qed
  ultimately show ?thesis
    using assms by (auto simp: loop_rel_def trades_of_append algebra_simps)
qed

lemma match_loop_sweep:
  assumes "loop_ready sd s"
  shows "loop_rel sd now (swept_fills (ms_in s) (all_orders (ms_levels s))) s (match_loop now s)"
    and "ms_in (match_loop now s) = swept_in (ms_in s) (all_orders (ms_levels s))"
    and "all_orders (ms_levels (match_loop now s)) = swept_rest (ms_in s) (all_orders (ms_levels s))"
  using assms
proof (atomize (full), induction now s rule: match_loop.induct)
  case (1 now s)
  show ?case
  proof (cases "match_step now s")
    case None
    then show ?thesis
      using match_step_None [of now s sd] loop_rel_refl [of sd s now] "1.prems"
      by (subst (1 2 3) match_loop.simps) (auto simp: swept_defs)
  next
    case (Some s1)
    then have eq: "match_loop now s = match_loop now s1" by (subst match_loop.simps) simp
    obtain fs where fs: "loop_rel sd now fs s s1" "loop_ready sd s1"
      "sweep (ms_in s) (all_orders (ms_levels s)) =
        (fs @ swept_fills (ms_in s1) (all_orders (ms_levels s1)),
         swept_in (ms_in s1) (all_orders (ms_levels s1)), swept_rest (ms_in s1) (all_orders (ms_levels s1)))"
      using match_step_Some [OF Some] "1.prems" by blast
    have "loop_rel sd now (swept_fills (ms_in s1) (all_orders (ms_levels s1))) s1 (match_loop now s1)"
      "ms_in (match_loop now s1) = swept_in (ms_in s1) (all_orders (ms_levels s1))"
      "all_orders (ms_levels (match_loop now s1)) = swept_rest (ms_in s1) (all_orders (ms_levels s1))"
      using "1.IH" [OF Some] fs(2) by blast+
    then show ?thesis using fs(1,3) by (auto simp: eq swept_defs intro: loop_rel_trans)
  qed
qed

lemma ids_swept_rest: "\<exists>n. ids (swept_rest inc os) = drop n (ids os)"
proof -
  obtain n ys where ys: "ys = drop n os" and
    c: "swept_rest inc os = ys \<or> (\<exists>q. ys \<noteq> [] \<and> swept_rest inc os = reduce (hd ys) q # tl ys)"
    using swept_rest_tail [of os inc] by blast
  from c have "ids (swept_rest inc os) = ids ys" by (auto simp: neq_Nil_conv)
  then show ?thesis using ys by (auto simp: drop_map)
qed

lemma length_swept_rest: "length (swept_rest inc os) \<le> length os"
proof -
  obtain n where "ids (swept_rest inc os) = drop n (ids os)" using ids_swept_rest by blast
  then have "length (ids (swept_rest inc os)) = length (drop n (ids os))" by simp
  then show ?thesis by simp
qed

lemma length_swept_fills: "length (swept_fills inc os) \<le> length os"
proof -
  obtain rest where "filter (\<lambda>x. 0 < remaining_quantity x) os = map fst (swept_fills inc os) @ rest"
    using swept_prefix by blast
  then have "length (swept_fills inc os) \<le> length (filter (\<lambda>x. 0 < remaining_quantity x) os)" by simp
  also have "\<dots> \<le> length os" by simp
  finally show ?thesis .
qed

subsection \<open>The abstract book\<close>

text \<open>
  Each side as one sequence of orders in priority order. The abstract operations say what
  the book does without levels, binary search or the matching loop.
\<close>

record abook =
  ab_side :: "order_side \<Rightarrow> order list"
  ab_free :: nat
  ab_next :: u64
  ab_stp :: stp_policy

definition abs_book :: "book \<Rightarrow> abook" where
  "abs_book b = \<lparr>ab_side = (\<lambda>sd. flat sd b), ab_free = pool_free b, ab_next = next_trade_id b,
     ab_stp = book_stp b\<rparr>"

definition set_side :: "order_side \<Rightarrow> order list \<Rightarrow> abook \<Rightarrow> abook" where
  "set_side sd os a = a\<lparr>ab_side := (ab_side a)(sd := os),
     ab_free := ab_free a + length (ab_side a sd) - length os\<rparr>"

definition spec_rest :: "order \<Rightarrow> abook \<Rightarrow> abook" where
  "spec_rest inc a =
     (if otype inc = LIMIT \<and> 0 < remaining_quantity inc \<and> 0 < ab_free a
      then set_side (side inc) (insert_prio inc (ab_side a (side inc))) a else a)"

definition spec_match :: "(u64 \<Rightarrow> i64) \<Rightarrow> order \<Rightarrow> abook \<Rightarrow> trade list \<times> order \<times> abook" where
  "spec_match now inc a =
     (let (fs, inc', ys) = sweep inc (ab_side a (other (side inc))) in
      (trades_of now (ab_next a) inc fs, inc',
       spec_rest inc' ((set_side (other (side inc)) ys a)\<lparr>ab_next := ab_next a + of_nat (length fs)\<rparr>)))"

text \<open>An order the book can match: validated, live, and with an identifier not in use.\<close>

definition incoming_ok :: "order \<Rightarrow> book \<Rightarrow> bool" where
  "incoming_ok inc b \<longleftrightarrow> order_id inc \<notin> set (ids (book_orders b)) \<and>
     (otype inc \<noteq> MARKET \<longrightarrow> pos_finite (price inc)) \<and>
     0 < remaining_quantity inc \<and> remaining_quantity inc \<le> quantity inc"

lemma abs_book_simps [simp]:
  "ab_side (abs_book b) sd = flat sd b" "ab_free (abs_book b) = pool_free b"
  "ab_next (abs_book b) = next_trade_id b" "ab_stp (abs_book b) = book_stp b"
  by (simp_all add: abs_book_def)

lemma abook_eqI:
  "(\<And>sd. ab_side a sd = ab_side a' sd) \<Longrightarrow> ab_free a = ab_free a' \<Longrightarrow> ab_next a = ab_next a' \<Longrightarrow>
   ab_stp a = ab_stp a' \<Longrightarrow> a = a'" for a a' :: abook
  by (cases a; cases a') auto

lemma abs_set_side:
  assumes "free + length (all_orders ls) = pool_free b + length (flat sd b)"
  shows "abs_book (set_side_levels sd ls free b) = set_side sd (all_orders ls) (abs_book b)"
proof (rule abook_eqI)
  show "ab_side (abs_book (set_side_levels sd ls free b)) sd' = ab_side (set_side sd (all_orders ls) (abs_book b)) sd'" for sd'
    using side_cases [of sd' sd] by (auto simp: set_side_def)
qed (use assms in \<open>simp_all add: set_side_def\<close>)

lemma abs_next [simp]: "abs_book (b\<lparr>next_trade_id := n\<rparr>) = (abs_book b)\<lparr>ab_next := n\<rparr>"
  by (rule abook_eqI) simp_all

lemma rest_condition:
  "otype ord \<noteq> MARKET \<and> otype ord \<noteq> IOC \<and> otype ord \<noteq> FOK \<longleftrightarrow> otype ord = LIMIT"
  by (cases "otype ord") auto

lemma addOrder_refines:
  assumes wf: "book_wf capacity b" and r: "restable ord" and fresh: "order_id ord \<notin> set (ids (book_orders b))"
  shows "abs_book (snd (addOrder ord b)) = spec_rest ord (abs_book b)"
    and "book_wf capacity (snd (addOrder ord b))" and "fst (addOrder ord b) \<longleftrightarrow> 0 < pool_free b"
proof (atomize (full), cases "pool_free b = 0")
  case True
  then show "abs_book (snd (addOrder ord b)) = spec_rest ord (abs_book b) \<and>
    book_wf capacity (snd (addOrder ord b)) \<and> fst (addOrder ord b) = (0 < pool_free b)"
    using wf by (simp add: addOrder_full spec_rest_def)
next
  case False
  then obtain b' where b': "addOrder ord b = (True, b')" "book_wf capacity b'"
    "flat (side ord) b' = insert_prio ord (flat (side ord) b)"
    "side_levels (other (side ord)) b' = side_levels (other (side ord)) b"
    "pool_free b = Suc (pool_free b')" "next_trade_id b' = next_trade_id b" "book_stp b' = book_stp b"
    using addOrder_ok [OF wf r fresh] by blast
  have "flat sd b' = ab_side (spec_rest ord (abs_book b)) sd" for sd
    using side_cases [of sd "side ord"] b' r by (auto simp: spec_rest_def set_side_def restable_def flat_def)
  moreover have "length (insert_prio ord (flat (side ord) b)) = Suc (length (flat (side ord) b))"
    by (simp flip: size_mset)
  ultimately have "abs_book b' = spec_rest ord (abs_book b)"
    using b' r by (intro abook_eqI) (simp_all add: spec_rest_def set_side_def restable_def)
  then show "abs_book (snd (addOrder ord b)) = spec_rest ord (abs_book b) \<and>
    book_wf capacity (snd (addOrder ord b)) \<and> fst (addOrder ord b) = (0 < pool_free b)"
    using b' by simp
qed

lemma swept_in_fields [simp]:
  "order_id (swept_in inc os) = order_id inc" "otype (swept_in inc os) = otype inc"
  "side (swept_in inc os) = side inc" "price (swept_in inc os) = price inc"
  "quantity (swept_in inc os) = quantity inc" "trader_id (swept_in inc os) = trader_id inc"
  "symbol_id (swept_in inc os) = symbol_id inc" "priority_seq (swept_in inc os) = priority_seq inc"
  by (subst swept_in_eq, simp)+

lemma swept_in_le: "remaining_quantity (swept_in inc os) \<le> remaining_quantity inc"
  using sweep_conserves_in [of inc os] by (simp add: word_le_nat_alt)

text \<open>
  The book after the loop: the swept side is written back, and the result abstracts to the
  abstract book with that side and the trade counter replaced.
\<close>

lemma swept_book:
  assumes wf: "book_wf capacity b" and inc: "incoming_ok inc b" and opp: "opp = other (side inc)"
    and sw: "side_wf opp ls" and all: "all_orders ls = swept_rest inc (flat opp b)"
    and free: "f + length (all_orders ls) = pool_free b + length (flat opp b)"
    and b1: "b1 = (set_side_levels opp ls f b)\<lparr>next_trade_id := n\<rparr>"
  shows "book_wf capacity b1"
    and "abs_book b1 = (set_side opp (swept_rest inc (flat opp b)) (abs_book b))\<lparr>ab_next := n\<rparr>"
    and "order_id inc \<notin> set (ids (book_orders b1))"
proof -
  let ?os = "flat opp b"
  obtain k where k: "ids (swept_rest inc ?os) = drop k (ids ?os)" using ids_swept_rest by blast
  have sub: "set (ids (swept_rest inc ?os)) \<subseteq> set (ids ?os)" using k by (metis set_drop_subset)
  have dist: "distinct (ids (?os @ flat (side inc) b))"
    using wf by (simp add: book_wf_alt [of _ _ opp] opp)
  then have "distinct (ids (swept_rest inc ?os))" using k by (metis distinct_append distinct_drop map_append)
  then have "distinct (ids (swept_rest inc ?os @ flat (side inc) b))"
    using dist sub by (auto simp: subset_iff)
  then show "book_wf capacity b1"
    unfolding b1 book_wf_next using sw all free opp by (intro book_wf_set_side [OF wf]) auto
  show "abs_book b1 = (set_side opp (swept_rest inc ?os) (abs_book b))\<lparr>ab_next := n\<rparr>"
    using abs_set_side [of f ls b opp] free by (simp add: b1 all)
  show "order_id inc \<notin> set (ids (book_orders b1))"
    using inc sub by (auto simp: incoming_ok_def set_book_orders [of _ opp] b1 all opp)
qed

lemma match_and_rest_eq:
  assumes wf: "book_wf capacity b" and inc: "incoming_ok inc b" and opp: "opp = other (side inc)"
    and fs: "fs = swept_fills inc (flat opp b)" and room: "id_room (next_trade_id b) (length fs)"
    and in': "inc' = swept_in inc (flat opp b)"
  obtains b1 where "book_wf capacity b1" "order_id inc \<notin> set (ids (book_orders b1))"
    "abs_book b1 = (set_side opp (swept_rest inc (flat opp b)) (abs_book b))
      \<lparr>ab_next := next_trade_id b + of_nat (length fs)\<rparr>"
    "match_and_rest now inc b = (Inr (trades_of now (next_trade_id b) inc fs), inc',
      if 0 < remaining_quantity inc' \<and> otype inc = LIMIT then snd (addOrder inc' b1) else b1)"
proof -
  let ?os = "flat opp b"
  define s where "s = \<lparr>ms_levels = opposite inc b, ms_free = pool_free b, ms_in = inc,
    ms_next = next_trade_id b, ms_trades = [], ms_exn = None\<rparr>"
  have os: "all_orders (ms_levels s) = ?os" by (simp add: s_def opposite_eq flat_def opp)
  have "order_id inc \<notin> set (ids ?os)"
    using inc by (auto simp: incoming_ok_def set_book_orders [of b opp])
  then have ready: "loop_ready opp s"
    using book_wf_side [OF wf, of opp] room os by (simp add: loop_ready_def s_def opposite_eq flat_def opp fs)
  define s' where "s' = match_loop now s"
  have L: "loop_rel opp now fs s s'" "ms_in s' = inc'" "all_orders (ms_levels s') = swept_rest inc ?os"
    using match_loop_sweep [OF ready, of now] os by (simp_all add: s'_def) (simp_all add: s_def fs in')
  define b1 where "b1 = (set_side_levels opp (ms_levels s') (ms_free s') b)\<lparr>next_trade_id := ms_next s'\<rparr>"
  have sw: "side_wf opp (ms_levels s')" and n: "ms_next s' = next_trade_id b + of_nat (length fs)"
    and free: "ms_free s' + length (all_orders (ms_levels s')) = pool_free b + length ?os"
    and X: "ms_exn s' = None" "ms_trades s' = trades_of now (next_trade_id b) inc fs"
    using L(1) os by (simp_all add: loop_rel_def) (simp_all add: s_def)
  have "match_and_rest now inc b = (Inr (trades_of now (next_trade_id b) inc fs), inc',
      if 0 < remaining_quantity inc' \<and> otype inc = LIMIT then snd (addOrder inc' b1) else b1)"
    unfolding match_and_rest_def s_def [symmetric] s'_def [symmetric] Let_def set_opposite_eq
    unfolding opp [symmetric] b1_def [symmetric] using X L(2) [unfolded in'] rest_condition [of inc] by (auto simp: in')
  then show thesis
    using swept_book [OF wf inc opp sw L(3) free b1_def] by (intro that [of b1]) (simp_all add: n)
qed

lemma match_and_rest_refines:
  assumes wf: "book_wf capacity b" and inc: "incoming_ok inc b"
    and room: "id_room (next_trade_id b) (length (swept_fills inc (flat (other (side inc)) b)))"
    and spec: "spec_match now inc (abs_book b) = (ts, inc', a')"
  obtains b' where "match_and_rest now inc b = (Inr ts, inc', b')" "abs_book b' = a'" "book_wf capacity b'"
proof -
  define fs where "fs = swept_fills inc (flat (other (side inc)) b)"
  have ts: "ts = trades_of now (next_trade_id b) inc fs"
    and in': "inc' = swept_in inc (flat (other (side inc)) b)"
    using spec by (auto simp: spec_match_def sweep_parts fs_def)
  let ?rests = "0 < remaining_quantity inc' \<and> otype inc = LIMIT"
  obtain b1 where wf1: "book_wf capacity b1" and fresh: "order_id inc \<notin> set (ids (book_orders b1))"
    and abs1: "abs_book b1 = (set_side (other (side inc)) (swept_rest inc (flat (other (side inc)) b)) (abs_book b))
      \<lparr>ab_next := next_trade_id b + of_nat (length fs)\<rparr>"
    and eq: "match_and_rest now inc b = (Inr ts, inc', if ?rests then snd (addOrder inc' b1) else b1)"
    using match_and_rest_eq [OF wf inc refl fs_def _ in'] room unfolding ts fs_def by metis
  have a': "a' = spec_rest inc' (abs_book b1)"
    using spec by (auto simp: spec_match_def sweep_parts abs1 fs_def in')
  show thesis
  proof (cases ?rests)
    case True
    then have "restable inc'"
      using inc swept_in_le [of inc "flat (other (side inc)) b"]
      by (auto simp: restable_def incoming_ok_def in')
    then show thesis
      using addOrder_refines [OF wf1, of inc'] fresh eq a' True
      by (intro that [of "snd (addOrder inc' b1)"]) (simp_all add: in')
  next
    case False
    then have "spec_rest inc' (abs_book b1) = abs_book b1" by (auto simp: spec_rest_def in')
    then show thesis using a' wf1 eq False by (intro that [of b1]) auto
  qed
qed

end
