(* ===== verification/Book_Refinement.thy ===== *)
theory Book_Refinement
  imports Book_Matching
begin

text \<open>
  The operations of the abstract book, and the refinement of each operation of the source:
  self-trade prevention, \<open>matchOrder\<close>, \<open>cancelOrder\<close>, \<open>applyFill\<close> and \<open>replaceOrder\<close>.
\<close>

subsection \<open>Self-trade prevention\<close>

definition remove_first :: "('a \<Rightarrow> bool) \<Rightarrow> 'a list \<Rightarrow> 'a list" where
  "remove_first P xs = takeWhile (\<lambda>x. \<not> P x) xs @ tl (dropWhile (\<lambda>x. \<not> P x) xs)"

lemma remove_first_simps [simp]:
  "remove_first P [] = []"
  "remove_first P (x # xs) = (if P x then xs else x # remove_first P xs)"
  by (simp_all add: remove_first_def)

lemma remove_first_append:
  "remove_first P (xs @ ys) = (if \<exists>x \<in> set xs. P x then remove_first P xs @ ys else xs @ remove_first P ys)"
  by (induction xs) auto

lemma remove_first_none: "(\<And>x. x \<in> set xs \<Longrightarrow> \<not> P x) \<Longrightarrow> remove_first P xs = xs"
  by (induction xs) auto

lemma set_remove_first: "set (remove_first P xs) \<subseteq> set xs"
  by (induction xs) auto

lemma length_remove_first: "length (remove_first P xs) = length xs - (if \<exists>x \<in> set xs. P x then 1 else 0)"
proof (induction xs)
  case (Cons x xs)
  then show ?case by (cases xs) auto
qed simp

lemma distinct_remove_first: "distinct (map f xs) \<Longrightarrow> distinct (map f (remove_first P xs))"
  using set_remove_first [of P] by (induction xs) (auto simp: image_iff subset_iff)

text \<open>A resting order of the incoming order's trader that the incoming order can reach.\<close>

definition own_reachable :: "order \<Rightarrow> order \<Rightarrow> bool" where
  "own_reachable inc x \<longleftrightarrow> trader_id x = trader_id inc \<and> 0 < remaining_quantity x \<and> \<not> blocked inc (price x)"

definition stp_flat :: "bool \<Rightarrow> order \<Rightarrow> order list \<Rightarrow> order list" where
  "stp_flat oldest inc os =
     (if oldest then remove_first (own_reachable inc) os else filter (\<lambda>x. \<not> own_reachable inc x) os)"

lemma stp_flat_append:
  "stp_flat oldest inc (xs @ ys) =
     (if oldest \<and> (\<exists>x \<in> set xs. own_reachable inc x) then stp_flat oldest inc xs @ ys
      else stp_flat oldest inc xs @ stp_flat oldest inc ys)"
  by (auto simp: stp_flat_def remove_first_append remove_first_none)

lemma stp_flat_none: "(\<And>x. x \<in> set xs \<Longrightarrow> \<not> own_reachable inc x) \<Longrightarrow> stp_flat oldest inc xs = xs"
  by (auto simp: stp_flat_def remove_first_none filter_id_conv)

lemma set_stp_flat: "set (stp_flat oldest inc xs) \<subseteq> set xs"
  using set_remove_first [of "own_reachable inc" xs] by (auto simp: stp_flat_def)

lemma distinct_stp_flat: "distinct (ids xs) \<Longrightarrow> distinct (ids (stp_flat oldest inc xs))"
  by (simp add: stp_flat_def distinct_remove_first distinct_map_filter)

lemma stp_queue_flat:
  assumes "\<And>x. x \<in> set os \<Longrightarrow> \<not> blocked inc (price x)"
  shows "fst (stp_queue oldest (trader_id inc) os) = stp_flat oldest inc os"
    and "snd (stp_queue oldest (trader_id inc) os) + length (stp_flat oldest inc os) = length os"
    and "0 < snd (stp_queue oldest (trader_id inc) os) \<longleftrightarrow> (\<exists>x \<in> set os. own_reachable inc x)"
  using assms
  by (atomize (full), induction os) (auto simp: stp_flat_def own_reachable_def split: prod.splits)

lemma blocked_mono:
  "blocked inc p \<Longrightarrow> better (other (side inc)) p q \<Longrightarrow> blocked inc q"
  by (cases "side inc") (auto simp: blocked_def better_def d_gt_def split: if_splits intro: d_lt_trans)

lemma side_blocked_all:
  assumes "side_wf (other (side inc)) (l # ls)" "blocked inc (lv_price l)" "x \<in> set (all_orders (l # ls))"
  shows "blocked inc (price x)"
proof -
  obtain m where m: "m \<in> set (l # ls)" "x \<in> set (lv_orders m)" "resting_ok (other (side inc)) (lv_price m) x"
    using side_wf_orders [OF assms(1,3)] by blast
  have "blocked inc (lv_price m)"
    using m(1) assms(1,2) blocked_mono by (auto simp: side_wf_Cons)
  then show ?thesis using m(3) by (simp add: resting_ok_def)
qed

lemma stp_levels_flat:
  assumes "side_wf (other (side inc)) ls" "stp_levels oldest (blocked inc) (trader_id inc) ls = (ls', n)"
  shows "side_wf (other (side inc)) ls' \<and> all_orders ls' = stp_flat oldest inc (all_orders ls) \<and>
    n + length (all_orders ls') = length (all_orders ls) \<and>
    (\<forall>l' \<in> set ls'. \<exists>l \<in> set ls. lv_price l' = lv_price l)"
  using assms
proof (induction ls arbitrary: ls' n)
  case (Cons l ls)
  show ?case
  proof (cases "blocked inc (lv_price l)")
    case True
    then have "ls' = l # ls" "n = 0" using Cons.prems(2) by auto
    moreover have "stp_flat oldest inc (all_orders (l # ls)) = all_orders (l # ls)"
      using side_blocked_all [OF Cons.prems(1) True] by (intro stp_flat_none) (auto simp: own_reachable_def)
    ultimately show ?thesis using Cons.prems(1) by auto
  next
    case False
    have wl: "level_wf (other (side inc)) l" and wls: "side_wf (other (side inc)) ls"
      using Cons.prems(1) by (simp_all add: side_wf_Cons)
    obtain os k where q: "stp_queue oldest (trader_id inc) (lv_orders l) = (os, k)" by fastforce
    have nb: "\<And>x. x \<in> set (lv_orders l) \<Longrightarrow> \<not> blocked inc (price x)"
      using level_blocked [OF wl] False by blast
    have Q: "os = stp_flat oldest inc (lv_orders l)" "k + length os = length (lv_orders l)"
      "0 < k \<longleftrightarrow> (\<exists>x \<in> set (lv_orders l). own_reachable inc x)"
      using stp_queue_flat [where os = "lv_orders l" and oldest = oldest, OF nb] q by simp_all
    have ok: "\<And>x. x \<in> set os \<Longrightarrow> resting_ok (other (side inc)) (lv_price l) x"
      using wl Q(1) set_stp_flat [of oldest inc "lv_orders l"] by (auto simp: level_wf_def)
    show ?thesis
    proof (cases "oldest \<and> 0 < k")
      case True
      then have "ls' = erase_level l os @ ls" "n = k"
        using Cons.prems(2) False q by (auto simp: Let_def erase_level_def split: if_splits)
      then show ?thesis
        using side_wf_erase_level [of _ "[]" l ls os] Cons.prems(1) ok Q True
        by (auto simp: stp_flat_append erase_level_def split: if_splits)
    next
      case nk: False
      obtain ms m where r: "stp_levels oldest (blocked inc) (trader_id inc) ls = (ms, m)" by fastforce
      then have e: "ls' = erase_level l os @ ms" "n = k + m"
        using Cons.prems(2) False q nk by (auto simp: Let_def erase_level_def split: if_splits)
      note IH = Cons.IH [OF wls r]
      have "side_wf (other (side inc)) (erase_level l os @ ms)"
        using IH Cons.prems(1) ok wl by (fastforce simp: erase_level_def side_wf_Cons level_wf_def)
      moreover have "stp_flat oldest inc (all_orders (l # ls)) = os @ all_orders ms"
        using IH Q nk by (auto simp: stp_flat_append)
      ultimately show ?thesis using IH Q(2) e by (auto simp: erase_level_def)
    qed
  qed
qed (simp add: stp_flat_def)

definition spec_stp :: "order \<Rightarrow> abook \<Rightarrow> abook" where
  "spec_stp inc a =
     set_side (other (side inc)) (stp_flat (ab_stp a = CANCEL_OLDEST) inc (ab_side a (other (side inc)))) a"

lemma stp_remove_refines:
  assumes wf: "book_wf capacity b"
  shows "abs_book (stp_remove inc b) = spec_stp inc (abs_book b)" and "book_wf capacity (stp_remove inc b)"
proof -
  let ?opp = "other (side inc)"
  let ?old = "book_stp b = CANCEL_OLDEST"
  obtain ls n where st: "stp_levels ?old (blocked inc) (trader_id inc) (side_levels ?opp b) = (ls, n)" by fastforce
  have S: "side_wf ?opp ls" "all_orders ls = stp_flat ?old inc (flat ?opp b)"
    "n + length (all_orders ls) = length (flat ?opp b)"
    using stp_levels_flat [OF book_wf_side [OF wf] st] by (auto simp: flat_def)
  have eq: "stp_remove inc b = set_side_levels ?opp ls (pool_free b + n) b"
    using st by (simp add: stp_remove_def opposite_eq set_opposite_eq)
  show "abs_book (stp_remove inc b) = spec_stp inc (abs_book b)"
    using S abs_set_side [of "pool_free b + n" ls b ?opp] by (simp add: eq spec_stp_def)
  have "distinct (ids (flat ?opp b @ flat (other ?opp) b))"
    using wf book_wf_alt [of capacity b ?opp] by simp
  then have "distinct (ids (all_orders ls @ flat (other ?opp) b))"
    using set_stp_flat [of ?old inc "flat ?opp b"] distinct_stp_flat [of "flat ?opp b" ?old inc]
    by (fastforce simp: S(2))
  then show "book_wf capacity (stp_remove inc b)"
    unfolding eq using S by (intro book_wf_set_side [OF wf]) auto
qed

subsection \<open>\<open>matchOrder\<close>\<close>

lemma canFullyFill_exact:
  assumes "book_wf capacity b" "remaining_quantity inc \<noteq> 0"
  shows "canFullyFill inc b \<longleftrightarrow> remaining_quantity (swept_in inc (flat (other (side inc)) b)) = 0"
proof -
  have "\<And>l. l \<in> set (side_levels (other (side inc)) b) \<Longrightarrow> level_wf (other (side inc)) l"
    using book_wf_side [OF assms(1)] by (simp add: side_wf_def)
  then have "canFullyFill inc b = flat_fill_scan inc (ucast (remaining_quantity inc)) 0 (flat (other (side inc)) b)"
    unfolding canFullyFill_def opposite_eq flat_def by (rule fill_scan_flat)
  also have "\<dots> \<longleftrightarrow> remaining_quantity (swept_in inc (flat (other (side inc)) b)) = 0"
    using assms(2) by (intro flat_fill_scan_exact) (simp_all add: unat_ucast_32_64)
  finally show ?thesis .
qed

lemma wouldSelfTrade_exact:
  assumes "book_wf capacity b" "remaining_quantity inc \<noteq> 0"
  shows "wouldSelfTrade inc b \<longleftrightarrow>
    (\<exists>(x, q) \<in> set (swept_fills inc (flat (other (side inc)) b)). trader_id x = trader_id inc)"
proof -
  have "\<And>l. l \<in> set (side_levels (other (side inc)) b) \<Longrightarrow> level_wf (other (side inc)) l"
    using book_wf_side [OF assms(1)] by (simp add: side_wf_def)
  then have "wouldSelfTrade inc b = flat_self_scan inc (remaining_quantity inc) (flat (other (side inc)) b)"
    unfolding wouldSelfTrade_def opposite_eq flat_def by (rule self_scan_flat)
  then show ?thesis using flat_self_scan_exact [OF assms(2)] by simp
qed

definition spec_matchOrder :: "(u64 \<Rightarrow> i64) \<Rightarrow> order \<Rightarrow> abook \<Rightarrow> trade list \<times> order \<times> abook" where
  "spec_matchOrder now inc a =
     (let os = ab_side a (other (side inc)) in
      if otype inc = FOK \<and> remaining_quantity (swept_in inc os) \<noteq> 0 then ([], inc, a)
      else if ab_stp a \<noteq> STP_NONE \<and> (\<exists>(x, q) \<in> set (swept_fills inc os). trader_id x = trader_id inc) then
        (case ab_stp a of
           CANCEL_NEWEST \<Rightarrow> ([], inc, a)
         | CANCEL_OLDEST \<Rightarrow> spec_match now inc (spec_stp inc a)
         | CANCEL_BOTH \<Rightarrow> ([], inc, spec_stp inc a)
         | STP_NONE \<Rightarrow> spec_match now inc a)
      else spec_match now inc a)"

lemma flat_abs: "flat sd b = ab_side (abs_book b) sd"
  by simp

lemma flat_stp_remove:
  assumes "book_wf capacity b"
  shows "flat (other (side inc)) (stp_remove inc b) =
      stp_flat (book_stp b = CANCEL_OLDEST) inc (flat (other (side inc)) b)"
    and "flat (side inc) (stp_remove inc b) = flat (side inc) b"
    and "next_trade_id (stp_remove inc b) = next_trade_id b"
  using stp_remove_refines(1) [OF assms, of inc]
  by (auto simp: spec_stp_def set_side_def abs_book_def fun_eq_iff dest: fun_cong [of _ _ "other (side inc)"]
      dest: fun_cong [of _ _ "side inc"])

lemma incoming_ok_stp:
  assumes "book_wf capacity b" "incoming_ok inc b"
  shows "incoming_ok inc (stp_remove inc b)"
  using assms(2) set_stp_flat [of "book_stp b = CANCEL_OLDEST" inc "flat (other (side inc)) b"]
  by (auto simp: incoming_ok_def set_book_orders [of _ "side inc"] flat_stp_remove [OF assms(1)])

lemma length_stp_flat: "length (stp_flat oldest inc os) \<le> length os"
  by (simp add: stp_flat_def length_remove_first)

lemma matchOrder_refines:
  assumes wf: "book_wf capacity b" and inc: "incoming_ok inc b"
    and room: "id_room (next_trade_id b) (length (flat (other (side inc)) b))"
    and spec: "spec_matchOrder now inc (abs_book b) = (ts, inc', a')"
  obtains b' where "matchOrder now inc b = (Inr ts, inc', b')" "abs_book b' = a'" "book_wf capacity b'"
proof -
  let ?os = "flat (other (side inc)) b"
  have rem: "remaining_quantity inc \<noteq> 0" using inc by (auto simp: incoming_ok_def)
  note exact = canFullyFill_exact [OF wf rem] wouldSelfTrade_exact [OF wf rem]
  have R: "\<exists>b'. match_and_rest now inc b0 = (Inr ts, inc', b') \<and> abs_book b' = a' \<and> book_wf capacity b'"
    if "book_wf capacity b0" "incoming_ok inc b0" "spec_match now inc (abs_book b0) = (ts, inc', a')"
      "length (flat (other (side inc)) b0) \<le> length ?os" "next_trade_id b0 = next_trade_id b" for b0
    using match_and_rest_refines [OF that(1,2) _ that(3)] that(4,5)
      id_room_mono [OF room order.trans [OF length_swept_fills that(4)]] by (metis (no_types, lifting))
  note S = stp_remove_refines [OF wf, of inc]
  have R0: "\<exists>b'. match_and_rest now inc b = (Inr ts, inc', b') \<and> abs_book b' = a' \<and> book_wf capacity b'"
    if "spec_match now inc (abs_book b) = (ts, inc', a')"
    using R [OF wf inc that] by simp
  have R1: "\<exists>b'. match_and_rest now inc (stp_remove inc b) = (Inr ts, inc', b') \<and> abs_book b' = a' \<and> book_wf capacity b'"
    if "spec_match now inc (spec_stp inc (abs_book b)) = (ts, inc', a')"
    using R [OF S(2) incoming_ok_stp [OF wf inc]] that
    by (simp add: S(1) flat_stp_remove [OF wf] length_stp_flat)
  have "\<exists>b'. matchOrder now inc b = (Inr ts, inc', b') \<and> abs_book b' = a' \<and> book_wf capacity b'"
    using spec R0 R1 S wf
    by (cases "book_stp b") (auto simp: matchOrder_def spec_matchOrder_def Let_def exact split: if_splits)
  then show thesis using that by blast
qed

subsection \<open>\<open>getOrderById\<close>, \<open>cancelOrder\<close>, \<open>applyFill\<close> and \<open>replaceOrder\<close>\<close>

definition set_sides :: "(order_side \<Rightarrow> order list) \<Rightarrow> abook \<Rightarrow> abook" where
  "set_sides g a = a\<lparr>ab_side := g,
     ab_free := ab_free a + length (ab_side a BUY) + length (ab_side a SELL) - length (g BUY) - length (g SELL)\<rparr>"

definition spec_get :: "u64 \<Rightarrow> abook \<Rightarrow> order option" where
  "spec_get oid a = List.find (\<lambda>x. order_id x = oid) (ab_side a BUY @ ab_side a SELL)"

definition spec_cancel :: "u64 \<Rightarrow> abook \<Rightarrow> bool \<times> abook" where
  "spec_cancel oid a =
     (spec_get oid a \<noteq> None, set_sides (\<lambda>sd. filter (\<lambda>x. order_id x \<noteq> oid) (ab_side a sd)) a)"

definition spec_fill :: "u64 \<Rightarrow> u32 \<Rightarrow> abook \<Rightarrow> bool \<times> abook" where
  "spec_fill oid q a =
     (case spec_get oid a of
        None \<Rightarrow> (False, a)
      | Some x \<Rightarrow>
          if 0 < q \<and> q \<le> remaining_quantity x
          then (True, set_sides (\<lambda>sd. fill_orders oid q (ab_side a sd)) a) else (False, a))"

text \<open>
  Replacing: refused below what is already filled; a zero quantity cancels; a smaller
  quantity at the same price is an amendment in place; anything else is a cancel and a new
  order for the unfilled part, which is matched.
\<close>

definition amended :: "i64 \<Rightarrow> u32 \<Rightarrow> order \<Rightarrow> order" where
  "amended sysnow q old = old\<lparr>quantity := q,
     remaining_quantity := q - (quantity old - remaining_quantity old), timestamp := sysnow\<rparr>"

definition replacement :: "i64 \<Rightarrow> double \<Rightarrow> u32 \<Rightarrow> u64 \<Rightarrow> order \<Rightarrow> order" where
  "replacement sysnow p q seq old = old\<lparr>price := p, quantity := q,
     remaining_quantity := q - (quantity old - remaining_quantity old), timestamp := sysnow,
     priority_seq := seq\<rparr>"

definition spec_replace :: "(u64 \<Rightarrow> i64) \<Rightarrow> i64 \<Rightarrow> u64 \<Rightarrow> double \<Rightarrow> u32 \<Rightarrow> u64 \<Rightarrow> abook \<Rightarrow> replace_result \<times> abook" where
  "spec_replace now sysnow oid p q seq a =
     (case (if 0 < q \<and> \<not> pos_finite p then None else spec_get oid a) of
        None \<Rightarrow> (rr_fail, a)
      | Some old \<Rightarrow>
          if 0 < q \<and> q < quantity old - remaining_quantity old then (rr_fail, a)
          else if q = 0 then (rr_done 0, snd (spec_cancel oid a))
          else if p = price old \<and> q < quantity old then
            (rr_done (remaining_quantity (amended sysnow q old)),
             set_sides (\<lambda>sd. map (\<lambda>x. if order_id x = oid then amended sysnow q old else x) (ab_side a sd)) a)
          else if remaining_quantity (replacement sysnow p q seq old) = 0 then
            (rr_done 0, snd (spec_cancel oid a))
          else
            (case spec_matchOrder now (replacement sysnow p q seq old) (snd (spec_cancel oid a)) of
               (ts, new', a') \<Rightarrow>
                 (\<lparr>rr_success = True, rr_trades = ts, rr_final_remaining = remaining_quantity new'\<rparr>, a')))"

lemma abs_set_sides:
  assumes "book_wf capacity b" "book_wf capacity b'" "\<And>sd. flat sd b' = g sd"
    "next_trade_id b' = next_trade_id b" "book_stp b' = book_stp b"
  shows "abs_book b' = set_sides g (abs_book b)"
proof -
  have "pool_free b + length (flat BUY b) + length (flat SELL b) = capacity"
    "pool_free b' + length (flat BUY b') + length (flat SELL b') = capacity"
    using assms(1,2) by (simp_all add: book_wf_alt [of _ _ BUY])
  then show ?thesis using assms(3-) by (intro abook_eqI) (auto simp: set_sides_def)
qed

lemma getOrderById_refines: "getOrderById oid b = spec_get oid (abs_book b)"
  by (simp add: getOrderById_find spec_get_def book_orders_def flat_def side_levels_def)

lemma cancelOrder_refines:
  assumes wf: "book_wf capacity b"
  shows "fst (cancelOrder oid b) = fst (spec_cancel oid (abs_book b))"
    and "abs_book (snd (cancelOrder oid b)) = snd (spec_cancel oid (abs_book b))"
    and "book_wf capacity (snd (cancelOrder oid b))"
proof (atomize (full), rule cancelOrder_effect [OF wf, of oid], goal_cases)
  case (1 b')
  have "abs_book b' = set_sides (\<lambda>sd. filter (\<lambda>x. order_id x \<noteq> oid) (flat sd b)) (abs_book b)"
    using 1 by (intro abs_set_sides [OF wf])
  then show ?case
    using 1 by (simp add: spec_cancel_def getOrderById_None flip: getOrderById_refines)
qed

lemma applyFill_refines:
  assumes wf: "book_wf capacity b"
  shows "fst (applyFill oid q b) = fst (spec_fill oid q (abs_book b))"
    and "abs_book (snd (applyFill oid q b)) = snd (spec_fill oid q (abs_book b))"
    and "book_wf capacity (snd (applyFill oid q b))"
proof (atomize (full), rule applyFill_effect [OF wf, of oid q], goal_cases)
  case (1 b')
  show ?case
  proof (cases "fst (applyFill oid q b)")
    case True
    then have "abs_book b' = set_sides (\<lambda>sd. fill_orders oid q (flat sd b)) (abs_book b)"
      using 1 by (intro abs_set_sides [OF wf]) blast+
    then show ?thesis using 1 True by (auto simp: spec_fill_def simp flip: getOrderById_refines)
  next
    case False
    then show ?thesis
      using 1 by (auto simp: spec_fill_def simp flip: getOrderById_refines split: option.splits)
  qed
qed

lemma d_eq_pos: "pos_finite p \<Longrightarrow> d_eq p q \<longleftrightarrow> p = q"
  by (cases p; cases q) (auto simp: pos_finite_def)

lemma not_pos_finite: "\<not> isfinite p \<or> d_le p (Fin 0) \<longleftrightarrow> \<not> pos_finite p"
  by (cases p) (auto simp: pos_finite_def)

lemma fresh_after_cancel:
  assumes "book_wf capacity b"
  shows "oid \<notin> set (ids (book_orders (snd (cancelOrder oid b))))"
  by (rule cancelOrder_effect [OF assms, of oid]) (auto simp: set_book_orders [of _ BUY])

lemma replacement_ok:
  assumes wf: "book_wf capacity b" and old: "getOrderById oid b = Some old" and p: "pos_finite p"
    and q: "\<not> q < quantity old - remaining_quantity old" "remaining_quantity (replacement sysnow p q seq old) \<noteq> 0"
  shows "incoming_ok (replacement sysnow p q seq old) (snd (cancelOrder oid b))"
proof -
  have "q - (quantity old - remaining_quantity old) \<le> q"
    using q(1) by (simp add: word_le_nat_alt unat_sub not_less)
  moreover have "order_id old = oid" using old getOrderById_Some [OF wf] by simp
  moreover have "0 < remaining_quantity (replacement sysnow p q seq old)"
    using q(2) by (simp only: word_gt_0 simp_thms)
  ultimately show ?thesis
    using fresh_after_cancel [OF wf, of oid] p by (auto simp: incoming_ok_def replacement_def)
qed

lemma amended_ok:
  assumes "resting_ok sd (price old) old" "\<not> q < quantity old - remaining_quantity old"
  shows "resting_ok sd (price old) (amended sysnow q old)"
proof -
  have "q - (quantity old - remaining_quantity old) \<le> q"
    using assms(2) by (intro word_sub_le) (simp add: not_less)
  then show ?thesis using assms(1) by (simp add: resting_ok_def amended_def)
qed

lemma replaceInLevel_cases:
  assumes wf: "book_wf capacity b" and loc: "locate oid b = Some (sd, i, j)"
    and old: "getOrderById oid b = Some old" and p: "q \<noteq> 0 \<Longrightarrow> pos_finite p"
  shows "replaceInLevel now sysnow oid p q seq sd i j b =
    (if 0 < q \<and> q < quantity old - remaining_quantity old then (Inr rr_fail, b)
     else if q = 0 then (Inr (rr_done 0), snd (cancelOrder oid b))
     else if p = price old \<and> q < quantity old then
       (Inr (rr_done (remaining_quantity (amended sysnow q old))),
        set_side_levels sd (put_order i j (amended sysnow q old) (side_levels sd b)) (pool_free b) b)
     else if remaining_quantity (replacement sysnow p q seq old) = 0
       then (Inr (rr_done 0), snd (cancelOrder oid b))
     else case matchOrder now (replacement sysnow p q seq old) (snd (cancelOrder oid b)) of
         (Inl e, _, b2) \<Rightarrow> (Inl e, b2)
       | (Inr trades, new_order', b2) \<Rightarrow>
           (Inr \<lparr>rr_success = True, rr_trades = trades,
                 rr_final_remaining = remaining_quantity new_order'\<rparr>, b2))"
proof -
  have at: "order_at i j (side_levels sd b) = old" using old loc by (simp add: getOrderById_locate)
  have oid: "order_id old = oid" using old getOrderById_Some [OF wf] by simp
  have c: "cancelOrder oid b = (True, set_side_levels sd (erase_order i j (side_levels sd b)) (Suc (pool_free b)) b)"
    using loc by (simp add: cancelOrder_locate)
  have r: "(order_default sysnow)\<lparr>order_id := oid, trader_id := trader_id old,
      side := side old, otype := otype old, price := p, quantity := q,
      remaining_quantity := q - (quantity old - remaining_quantity old), symbol_id := symbol_id old,
      timestamp := sysnow, received_time := received_time old, priority_seq := seq\<rparr> =
      replacement sysnow p q seq old"
    using oid by (cases old) (simp add: replacement_def order_default_def)
  have am: "old\<lparr>quantity := q, remaining_quantity := q - (quantity old - remaining_quantity old),
      priority_seq := priority_seq old, timestamp := sysnow\<rparr> = amended sysnow q old"
    by (cases old) (simp add: amended_def)
  show ?thesis
    unfolding replaceInLevel_def Let_def at r am c snd_conv using d_eq_pos [OF p, of "price old"] by auto
qed

text \<open>The two branches that change the book: the in-place amendment and cancel-and-rematch.\<close>

lemma amend_refines:
  assumes wf: "book_wf capacity b" and loc: "locate oid b = Some (sd, i, j)"
    and old: "getOrderById oid b = Some old" and q: "\<not> q < quantity old - remaining_quantity old"
    and b': "b' = set_side_levels sd (put_order i j (amended sysnow q old) (side_levels sd b)) (pool_free b) b"
  shows "book_wf capacity b'"
    and "abs_book b' = set_sides (\<lambda>sd. map (\<lambda>x. if order_id x = oid then amended sysnow q old else x) (flat sd b))
      (abs_book b)"
proof -
  have ok: "resting_ok sd (price old) old"
    by (rule locate_split [OF wf loc]) (use old in \<open>simp add: resting_ok_def\<close>)
  have at: "order_at i j (side_levels sd b) = old" using old loc by (simp add: getOrderById_locate)
  have oid: "order_id (amended sysnow q old) = oid"
    using old getOrderById_Some [OF wf] by (simp add: amended_def)
  note P = put_located [OF wf loc oid, unfolded at, OF amended_ok [OF ok q], folded b']
  show "book_wf capacity b'" by (rule P(1))
  show "abs_book b' = set_sides (\<lambda>sd. map (\<lambda>x. if order_id x = oid then amended sysnow q old else x) (flat sd b))
      (abs_book b)"
    using P by (intro abs_set_sides [OF wf]) (simp_all add: b')
qed

lemma rematch_refines:
  assumes wf: "book_wf capacity b" and room: "id_room (next_trade_id b) (length (book_orders b))"
    and new: "incoming_ok new (snd (cancelOrder oid b))"
    and spec: "spec_matchOrder now new (abs_book (snd (cancelOrder oid b))) = (ts, new', a')"
  obtains b' where "matchOrder now new (snd (cancelOrder oid b)) = (Inr ts, new', b')"
    "abs_book b' = a'" "book_wf capacity b'"
proof -
  let ?bc = "snd (cancelOrder oid b)"
  have "length (flat (other (side new)) ?bc) \<le> length (book_orders b)"
    by (rule cancelOrder_effect [OF wf, of oid])
      (auto simp: length_book_orders [of b "side new"] intro: le_trans [OF length_filter_le])
  moreover have "next_trade_id ?bc = next_trade_id b" by (rule cancelOrder_effect [OF wf, of oid]) simp
  ultimately have "id_room (next_trade_id ?bc) (length (flat (other (side new)) ?bc))"
    using id_room_mono [OF room] by simp
  then show thesis
    using matchOrder_refines [OF cancelOrder_refines(3) [OF wf] new _ spec] that by blast
qed

lemma replaceOrder_refines:
  assumes wf: "book_wf capacity b" and room: "id_room (next_trade_id b) (length (book_orders b))"
    and spec: "spec_replace now sysnow oid p q seq (abs_book b) = (r, a')"
  obtains b' where "replaceOrder now sysnow oid p q seq b = (Inr r, b')" "abs_book b' = a'" "book_wf capacity b'"
proof (cases "(0 < q \<and> \<not> pos_finite p) \<or> getOrderById oid b = None")
  case True
  then have "replaceOrder now sysnow oid p q seq b = (Inr rr_fail, b)"
    unfolding replaceOrder_locate not_pos_finite by (auto simp: getOrderById_locate)
  moreover have "r = rr_fail" "a' = abs_book b"
    using True spec by (auto simp: spec_replace_def simp flip: getOrderById_refines split: if_splits)
  ultimately show thesis using that wf by blast
next
  case False
  then obtain old where old: "getOrderById oid b = Some old" and p: "q \<noteq> 0 \<Longrightarrow> pos_finite p"
    by (auto simp: word_neq_0_conv)
  then obtain sd i j where loc: "locate oid b = Some (sd, i, j)" by (auto simp: getOrderById_locate)
  note C = cancelOrder_refines [OF wf, of oid]
  let ?new = "replacement sysnow p q seq old" and ?bc = "snd (cancelOrder oid b)"
  have rep: "replaceOrder now sysnow oid p q seq b = replaceInLevel now sysnow oid p q seq sd i j b"
    unfolding replaceOrder_locate not_pos_finite using loc False by auto
  note cases = replaceInLevel_cases [where now = now and sysnow = sysnow and seq = seq and q = q, OF wf loc old p]
  note sp = spec [unfolded spec_replace_def, folded getOrderById_refines]
  consider (refuse) "0 < q" "q < quantity old - remaining_quantity old"
    | (cancel) "q = 0"
    | (amend) "q \<noteq> 0" "\<not> q < quantity old - remaining_quantity old" "p = price old" "q < quantity old"
    | (gone) "q \<noteq> 0" "\<not> q < quantity old - remaining_quantity old" "\<not> (p = price old \<and> q < quantity old)"
        "remaining_quantity ?new = 0"
    | (match) "q \<noteq> 0" "\<not> q < quantity old - remaining_quantity old" "\<not> (p = price old \<and> q < quantity old)"
        "remaining_quantity ?new \<noteq> 0"
    using word_neq_0_conv by blast
  then show thesis
  proof cases
    case refuse
    then show thesis using that [of b] wf cases rep sp old False by auto
  next
    case cancel
    then show thesis using that [of ?bc] C cases rep sp old False by auto
  next
    case amend
    let ?b' = "set_side_levels sd (put_order i j (amended sysnow q old) (side_levels sd b)) (pool_free b) b"
    note A = amend_refines [OF wf loc old amend(2) refl, of sysnow]
    have "replaceOrder now sysnow oid p q seq b = (Inr (rr_done (remaining_quantity (amended sysnow q old))), ?b')"
      using amend cases rep by simp
    then show thesis using that [of ?b'] A amend sp old False by auto
  next
    case gone
    then show thesis using that [of ?bc] C cases rep sp old False by auto
  next
    case match
    obtain ts new' a2 where m: "spec_matchOrder now ?new (abs_book ?bc) = (ts, new', a2)" by (cases "spec_matchOrder now ?new (abs_book ?bc)") auto
    have "incoming_ok ?new ?bc" by (rule replacement_ok [OF wf old p [OF match(1)] match(2,4)])
    with rematch_refines [OF wf room this m]
    obtain b' where b': "matchOrder now ?new ?bc = (Inr ts, new', b')" "abs_book b' = a2" "book_wf capacity b'"
      by blast
    have "replaceOrder now sysnow oid p q seq b =
        (Inr \<lparr>rr_success = True, rr_trades = ts, rr_final_remaining = remaining_quantity new'\<rparr>, b')"
      using rep cases match b'(1) by simp
    moreover have "r = \<lparr>rr_success = True, rr_trades = ts, rr_final_remaining = remaining_quantity new'\<rparr>" "a' = a2"
      using sp old False match m C(2) by auto
    ultimately show thesis using that b' by blast
  qed
qed

end
