(* ===== verification/Book_Properties.thy ===== *)
theory Book_Properties
  imports Book_Refinement
begin

text \<open>
  What the order book guarantees to its users, derived from the refinement: the properties of
  \<open>matchOrder\<close> and \<open>replaceOrder\<close> on every branch, with concrete books on which they apply,
  and the places where the code does less than its documentation promises.
\<close>

subsection \<open>The outcomes of \<open>matchOrder\<close>\<close>

text \<open>
  The order was matched against the book \<open>b0\<close>: the trades, the incoming order afterwards
  and both sides are those of the sweep, and a limit order's remainder rests if a slot is free.
\<close>

definition matched :: "(u64 \<Rightarrow> i64) \<Rightarrow> order \<Rightarrow> book \<Rightarrow> trade list \<Rightarrow> order \<Rightarrow> book \<Rightarrow> bool" where
  "matched now inc b0 ts inc' b' \<longleftrightarrow>
     (let os = flat (other (side inc)) b0;
          free = pool_free b0 + length os - length (swept_rest inc os)
      in ts = trades_of now (next_trade_id b0) inc (swept_fills inc os) \<and>
         inc' = swept_in inc os \<and>
         flat (other (side inc)) b' = swept_rest inc os \<and>
         flat (side inc) b' =
           (if otype inc = LIMIT \<and> 0 < remaining_quantity inc' \<and> 0 < free
            then insert_prio inc' (flat (side inc) b0) else flat (side inc) b0) \<and>
         next_trade_id b' = next_trade_id b0 + of_nat (length (swept_fills inc os)) \<and>
         book_stp b' = book_stp b0)"

lemma matched_spec:
  assumes "spec_match now inc (abs_book b0) = (ts, inc', abs_book b')"
  shows "matched now inc b0 ts inc' b'"
proof -
  let ?os = "flat (other (side inc)) b0"
  define a1 where "a1 = (set_side (other (side inc)) (swept_rest inc ?os) (abs_book b0))
    \<lparr>ab_next := next_trade_id b0 + of_nat (length (swept_fills inc ?os))\<rparr>"
  have e: "ts = trades_of now (next_trade_id b0) inc (swept_fills inc ?os)" "inc' = swept_in inc ?os"
    and a: "abs_book b' = spec_rest (swept_in inc ?os) a1"
    using assms by (auto simp: spec_match_def sweep_parts a1_def)
  have "flat sd b' = ab_side (spec_rest (swept_in inc ?os) a1) sd" for sd using a by (metis abs_book_simps(1))
  moreover have "next_trade_id b' = ab_next (spec_rest (swept_in inc ?os) a1)" "book_stp b' = ab_stp (spec_rest (swept_in inc ?os) a1)"
    using a by (metis abs_book_simps(3,4))+
  ultimately show ?thesis
    using e by (simp add: matched_def Let_def spec_rest_def a1_def set_side_def)
qed

lemma match_and_rest_matched:
  assumes m: "match_and_rest now inc b0 = (r, inc', b')"
    and wf0: "book_wf capacity b0" "incoming_ok inc b0"
    and le: "length (flat (other (side inc)) b0) \<le> length (flat (other (side inc)) b)"
      "next_trade_id b0 = next_trade_id b"
    and room: "id_room (next_trade_id b) (length (flat (other (side inc)) b))"
  shows "\<exists>ts. r = Inr ts \<and> matched now inc b0 ts inc' b' \<and> book_wf capacity b'"
proof -
  obtain ts inc2 a2 where sp: "spec_match now inc (abs_book b0) = (ts, inc2, a2)"
    by (cases "spec_match now inc (abs_book b0)") auto
  have "id_room (next_trade_id b0) (length (swept_fills inc (flat (other (side inc)) b0)))"
    using id_room_mono [OF room] le length_swept_fills le_trans by metis
  then obtain b2 where "match_and_rest now inc b0 = (Inr ts, inc2, b2)" "abs_book b2 = a2" "book_wf capacity b2"
    using match_and_rest_refines [OF wf0 _ sp] by blast
  then show ?thesis using m sp matched_spec by auto
qed

lemma matchOrder_cases [consumes 4, case_names Refused Matched]:
  assumes wf: "book_wf capacity b" and inc: "incoming_ok inc b"
    and room: "id_room (next_trade_id b) (length (flat (other (side inc)) b))"
    and m: "matchOrder now inc b = (r, inc', b')"
  obtains "r = Inr []" and "inc' = inc" and "b' = b \<or> (b' = stp_remove inc b \<and> book_stp b = CANCEL_BOTH \<and> wouldSelfTrade inc b)"
      and "book_wf capacity b'"
      and "(otype inc = FOK \<and> \<not> canFullyFill inc b) \<or>
        ((book_stp b = CANCEL_NEWEST \<or> book_stp b = CANCEL_BOTH) \<and> wouldSelfTrade inc b)"
  | b0 ts where "r = Inr ts" and "matched now inc b0 ts inc' b'" and "book_wf capacity b0" and "book_wf capacity b'"
      and "incoming_ok inc b0"
      and "b0 = b \<and> (book_stp b = STP_NONE \<or> \<not> wouldSelfTrade inc b) \<or>
           b0 = stp_remove inc b \<and> book_stp b = CANCEL_OLDEST \<and> wouldSelfTrade inc b"
      and "otype inc = FOK \<Longrightarrow> canFullyFill inc b"
proof -
  have rem: "remaining_quantity inc \<noteq> 0" using inc by (auto simp: incoming_ok_def)
  note S = stp_remove_refines [OF wf, of inc]
  note M = match_and_rest_matched [OF _ _ _ _ _ room]
  consider (fok) "otype inc = FOK" "\<not> canFullyFill inc b"
    | (stp) "otype inc = FOK \<Longrightarrow> canFullyFill inc b" "book_stp b = CANCEL_NEWEST \<or> book_stp b = CANCEL_BOTH" "wouldSelfTrade inc b"
    | (old) "otype inc = FOK \<Longrightarrow> canFullyFill inc b" "book_stp b = CANCEL_OLDEST" "wouldSelfTrade inc b"
    | (plain) "otype inc = FOK \<Longrightarrow> canFullyFill inc b" "book_stp b = STP_NONE \<or> \<not> wouldSelfTrade inc b"
    by (cases "book_stp b") auto
  then show thesis
  proof cases
    case fok
    then show thesis using m wf by (intro that(1)) (auto simp: matchOrder_def)
  next
    case stp
    then show thesis using m wf S(2) by (intro that(1)) (auto simp: matchOrder_def split: if_splits)
  next
    case old
    then have "match_and_rest now inc (stp_remove inc b) = (r, inc', b')"
      using m by (auto simp: matchOrder_def split: if_splits)
    moreover note wf0 = S(2) incoming_ok_stp [OF wf inc]
    ultimately show thesis
      using M [of now "stp_remove inc b"] old flat_stp_remove [OF wf, of inc] length_stp_flat that(2) by metis
  next
    case plain
    then have "match_and_rest now inc b = (r, inc', b')"
      using m by (auto simp: matchOrder_def split: if_splits)
    then show thesis using M [of now b] plain wf inc that(2) [of _ b] by blast
  qed
qed

subsection \<open>A concrete book\<close>

text \<open>
  One bid at 100, two asks at 101 and one at 102, in a pool of a hundred slots, for
  evaluating the definitions and instantiating the theorems.
\<close>

definition ex_order :: "u64 \<Rightarrow> u64 \<Rightarrow> order_side \<Rightarrow> order_type \<Rightarrow> double \<Rightarrow> u32 \<Rightarrow> order" where
  "ex_order oid tr sd t p q = \<lparr>order_id = oid, trader_id = tr, symbol_id = 1, side = sd, otype = t,
     price = p, quantity = q, remaining_quantity = q, timestamp = 0, received_time = 0,
     priority_seq = oid\<rparr>"

definition ex_book :: "stp_policy \<Rightarrow> book" where
  "ex_book pol = \<lparr>bids = [\<lparr>lv_price = Fin 100, lv_orders = [ex_order 1 10 BUY LIMIT (Fin 100) 5]\<rparr>],
     asks = [\<lparr>lv_price = Fin 101, lv_orders = [ex_order 2 20 SELL LIMIT (Fin 101) 4,
                                                ex_order 3 30 SELL LIMIT (Fin 101) 6]\<rparr>,
             \<lparr>lv_price = Fin 102, lv_orders = [ex_order 4 20 SELL LIMIT (Fin 102) 10]\<rparr>],
     next_trade_id = 1, book_stp = pol, pool_free = 96\<rparr>"

definition ex_now :: "u64 \<Rightarrow> i64" where
  "ex_now n = 1000"

abbreviation ex_buy :: "order_type \<Rightarrow> u64 \<Rightarrow> u32 \<Rightarrow> order" where
  "ex_buy t tr q \<equiv> ex_order 9 tr BUY t (Fin 101) q"

lemma ex_book_wf: "book_wf 100 (ex_book pol)"
proof -
  have "book_wf 100 (ex_book STP_NONE)" by code_simp
  then show ?thesis by (simp add: ex_book_def book_wf_def book_orders_def getOrderCount_def)
qed

lemma ex_incoming_ok: "q \<noteq> 0 \<Longrightarrow> incoming_ok (ex_buy t tr q) (ex_book pol)"
  by (simp add: incoming_ok_def ex_book_def ex_order_def book_orders_def pos_finite_def word_neq_0_conv)

lemma ex_id_room: "id_room (next_trade_id (ex_book pol)) (length (flat (other (side (ex_buy t tr q))) (ex_book pol)))"
  by (simp add: id_room_def ex_book_def ex_order_def flat_def side_levels_def)

lemma match_parts:
  "matchOrder now inc b = (fst (matchOrder now inc b), fst (snd (matchOrder now inc b)), snd (snd (matchOrder now inc b)))"
  by simp

lemma ex_match_Inr:
  assumes "q \<noteq> 0"
  shows "\<exists>ts inc' b'. matchOrder ex_now (ex_buy t tr q) (ex_book pol) = (Inr ts, inc', b')"
  by (cases "spec_matchOrder ex_now (ex_buy t tr q) (abs_book (ex_book pol))")
    (metis matchOrder_refines [OF ex_book_wf ex_incoming_ok [OF assms] ex_id_room])

lemmas ex_ok = ex_book_wf ex_incoming_ok ex_id_room

subsection \<open>Refinement\<close>

text \<open>
  C1. On a well-formed book, a validated order with a fresh identifier and with trade identifiers
  left, \<open>matchOrder\<close> throws nothing and does what the abstract book specifies: the same
  trades, the same incoming order afterwards, the same two sequences of orders, the same free
  slots and next trade identifier, for every order type and self-trade policy; the result is
  well-formed.
\<close>

theorem matchOrder_refines_spec:
  assumes "book_wf capacity b" "incoming_ok inc b"
    "id_room (next_trade_id b) (length (flat (other (side inc)) b))"
  shows "\<exists>b'. matchOrder now inc b =
      (Inr (fst (spec_matchOrder now inc (abs_book b))), fst (snd (spec_matchOrder now inc (abs_book b))), b') \<and>
    abs_book b' = snd (snd (spec_matchOrder now inc (abs_book b))) \<and> book_wf capacity b'"
  using matchOrder_refines [OF assms, of now] by (metis prod.collapse)

theorem matchOrder_refines_spec_witness:
  "\<exists>b'. matchOrder ex_now (ex_buy LIMIT 40 12) (ex_book STP_NONE) =
      (Inr (fst (spec_matchOrder ex_now (ex_buy LIMIT 40 12) (abs_book (ex_book STP_NONE)))),
       fst (snd (spec_matchOrder ex_now (ex_buy LIMIT 40 12) (abs_book (ex_book STP_NONE)))), b') \<and>
    abs_book b' = snd (snd (spec_matchOrder ex_now (ex_buy LIMIT 40 12) (abs_book (ex_book STP_NONE)))) \<and>
    book_wf 100 b'"
  by (rule matchOrder_refines_spec [OF ex_ok]) simp

text \<open>
  C6. \<open>replaceOrder\<close> on a well-formed book throws nothing and implements the abstract
  replacement: refusal, cancellation, amendment in place, and cancel-and-rematch.
\<close>

theorem replaceOrder_refines_spec:
  assumes "book_wf capacity b" "id_room (next_trade_id b) (length (book_orders b))"
  shows "\<exists>b'. replaceOrder now sysnow oid p q seq b = (Inr (fst (spec_replace now sysnow oid p q seq (abs_book b))), b') \<and>
    abs_book b' = snd (spec_replace now sysnow oid p q seq (abs_book b)) \<and> book_wf capacity b'"
  using replaceOrder_refines [OF assms, of now sysnow oid p q seq] by (metis prod.collapse)

theorem replaceOrder_refines_spec_witness:
  "\<exists>b'. replaceOrder ex_now 7 1 (Fin 101) 8 12 (ex_book STP_NONE) =
      (Inr (fst (spec_replace ex_now 7 1 (Fin 101) 8 12 (abs_book (ex_book STP_NONE)))), b') \<and>
    abs_book b' = snd (spec_replace ex_now 7 1 (Fin 101) 8 12 (abs_book (ex_book STP_NONE))) \<and> book_wf 100 b'"
  by (rule replaceOrder_refines_spec [OF ex_book_wf])
    (simp add: id_room_def ex_book_def ex_order_def book_orders_def)

text \<open>
  C13. \<open>cancelOrder\<close> returns whether the identifier rests in the book, removes exactly that
  order, keeps every other order and its priority, and returns its slot to the pool.
\<close>

theorem cancelOrder_correct:
  assumes "book_wf capacity b"
  shows "\<exists>b'. cancelOrder oid b = (getOrderById oid b \<noteq> None, b') \<and> book_wf capacity b' \<and>
    (\<forall>sd. flat sd b' = filter (\<lambda>x. order_id x \<noteq> oid) (flat sd b)) \<and>
    getOrderById oid b' = None \<and> pool_free b' = pool_free b + (if getOrderById oid b = None then 0 else 1)"
proof (rule cancelOrder_effect [OF assms, of oid])
  fix b' assume C: "cancelOrder oid b = (oid \<in> set (ids (book_orders b)), b')" "book_wf capacity b'"
    "\<And>sd. flat sd b' = filter (\<lambda>y. order_id y \<noteq> oid) (flat sd b)"
  have "getOrderById oid b' = None"
    using C(3) by (auto simp: getOrderById_None set_book_orders [of _ BUY])
  moreover have "pool_free b' = pool_free b + (if getOrderById oid b = None then 0 else 1)"
    using C(1) by (auto simp: cancelOrder_locate getOrderById_None locate_None split: option.splits)
  ultimately show ?thesis using C getOrderById_None [of oid b] by (intro exI [of _ b']) auto
qed

theorem cancelOrder_correct_witness:
  "\<exists>b'. cancelOrder 3 (ex_book STP_NONE) = (getOrderById 3 (ex_book STP_NONE) \<noteq> None, b') \<and> book_wf 100 b' \<and>
    (\<forall>sd. flat sd b' = filter (\<lambda>x. order_id x \<noteq> 3) (flat sd (ex_book STP_NONE))) \<and>
    getOrderById 3 b' = None \<and>
    pool_free b' = pool_free (ex_book STP_NONE) + (if getOrderById 3 (ex_book STP_NONE) = None then 0 else 1)"
  by (rule cancelOrder_correct [OF ex_book_wf])

text \<open>
  C14. \<open>applyFill\<close> succeeds exactly for a positive quantity that the named resting order still
  has. It then reduces that order by the quantity, removes it at zero, and touches nothing else;
  a refused fill leaves the book unchanged.
\<close>

theorem applyFill_correct:
  assumes "book_wf capacity b"
  shows "\<exists>b'. applyFill oid q b =
      (0 < q \<and> (\<exists>x. getOrderById oid b = Some x \<and> q \<le> remaining_quantity x), b') \<and> book_wf capacity b' \<and>
    (if fst (applyFill oid q b) then \<forall>sd. flat sd b' = fill_orders oid q (flat sd b) else b' = b)"
  by (rule applyFill_effect [OF assms, of oid q]) auto

theorem applyFill_correct_witness:
  "\<exists>b'. applyFill 3 6 (ex_book STP_NONE) =
      ((0::u32) < 6 \<and> (\<exists>x. getOrderById 3 (ex_book STP_NONE) = Some x \<and> 6 \<le> remaining_quantity x), b') \<and> book_wf 100 b' \<and>
    (if fst (applyFill 3 6 (ex_book STP_NONE))
     then \<forall>sd. flat sd b' = fill_orders 3 6 (flat sd (ex_book STP_NONE)) else b' = ex_book STP_NONE)"
  by (rule applyFill_correct [OF ex_book_wf])

subsection \<open>Matching\<close>

lemma flat_resting:
  assumes "book_wf capacity b" "x \<in> set (flat sd b)"
  shows "resting_ok sd (price x) x" and "pos_finite (price x)"
proof -
  have "x \<in> set (all_orders (side_levels sd b))" using assms(2) by (simp add: flat_def)
  with book_wf_side [OF assms(1), of sd] obtain l :: level where "resting_ok sd (lv_price l) x" "pos_finite (lv_price l)"
    by (rule side_wf_orders) blast
  then show "resting_ok sd (price x) x" "pos_finite (price x)" by (simp_all add: resting_ok_def)
qed

lemma trades_self_prices:
  assumes "t \<in> set (trades_of now n inc fs)"
  obtains x q where "(x, q) \<in> set fs" "trade_price t = price x" "trade_quantity t = q"
    "(if side inc = BUY then trader_id x = sell_trader_id t \<and> trader_id inc = buy_trader_id t
      else trader_id x = buy_trader_id t \<and> trader_id inc = sell_trader_id t)"
  using assms
proof (induction fs arbitrary: n thesis)
  case (Cons f fs)
  show ?case
  proof (cases "t = trade_of now n inc (fst f) (snd f)")
    case True
    then show ?thesis by (intro Cons.prems(1) [of "fst f" "snd f"]) (auto simp: trade_of_def)
  next
    case False
    then have "t \<in> set (trades_of now (n + 1) inc fs)" using Cons.prems(2) by simp
    then show ?thesis using Cons.IH Cons.prems(1) by (metis list.set_intros(2))
  qed
qed simp

lemma sum_trades_of: "(\<Sum>t\<leftarrow>trades_of now n inc fs. unat (trade_quantity t)) = filled fs"
  by (induction fs arbitrary: n) (simp_all add: trade_of_def)

text \<open>
  The resting orders the self-trade policy takes out of the book before anything is matched: of the orders of the same trader that the incoming
  order can reach, the first under \<open>CANCEL_OLDEST\<close> and all of them under \<open>CANCEL_BOTH\<close>, once a self trade threatens and a fill-or-kill
  order has passed its check.
\<close>

definition policy_removes :: "order \<Rightarrow> book \<Rightarrow> order list" where
  "policy_removes inc b =
     (if (otype inc = FOK \<longrightarrow> canFullyFill inc b) \<and> wouldSelfTrade inc b then
        (case book_stp b of
           CANCEL_OLDEST \<Rightarrow> take 1 (filter (own_reachable inc) (flat (other (side inc)) b))
         | CANCEL_BOTH \<Rightarrow> filter (own_reachable inc) (flat (other (side inc)) b)
         | _ \<Rightarrow> [])
      else [])"

abbreviation policy_keeps :: "order \<Rightarrow> book \<Rightarrow> order list" where
  "policy_keeps inc b \<equiv> filter (\<lambda>x. x \<notin> set (policy_removes inc b)) (flat (other (side inc)) b)"

lemma remove_first_filter: "distinct xs \<Longrightarrow> remove_first P xs = filter (\<lambda>x. x \<notin> set (take 1 (filter P xs))) xs"
proof (induction xs)
  case (Cons x xs)
  have "x \<notin> set (take 1 (filter P xs))" using Cons.prems by (auto dest: in_set_takeD)
  moreover have "filter (\<lambda>y. y \<noteq> x) xs = xs" using Cons.prems by (auto simp: filter_id_conv)
  ultimately show ?case using Cons by auto
qed simp

lemma total_without_first: "total xs = total (remove_first P xs) + total (take 1 (filter P xs))"
  by (induction xs) auto

lemma total_filter: "total xs = total (filter (\<lambda>x. \<not> P x) xs) + total (filter P xs)"
  by (induction xs) auto

lemma distinct_flat: "book_wf capacity b \<Longrightarrow> distinct (flat sd b)"
  using distinct_book_ids [of b sd] by (auto simp: book_wf_def distinct_map)

lemma policy_keeps_stp:
  assumes "book_wf capacity b" "(otype inc = FOK \<longrightarrow> canFullyFill inc b)" "wouldSelfTrade inc b" "book_stp b = CANCEL_OLDEST \<or> book_stp b = CANCEL_BOTH"
  shows "policy_keeps inc b = flat (other (side inc)) (stp_remove inc b)"
    and "total (flat (other (side inc)) b) = total (policy_keeps inc b) + total (policy_removes inc b)"
proof -
  let ?os = "flat (other (side inc)) b"
  have S: "flat (other (side inc)) (stp_remove inc b) = stp_flat (book_stp b = CANCEL_OLDEST) inc ?os" by (rule flat_stp_remove [OF assms(1)])
  show keeps: "policy_keeps inc b = flat (other (side inc)) (stp_remove inc b)"
    using assms(2-4) remove_first_filter [OF distinct_flat [OF assms(1)], of "own_reachable inc"] unfolding S
    by (auto simp: policy_removes_def stp_flat_def intro: filter_cong)
  show "total ?os = total (policy_keeps inc b) + total (policy_removes inc b)"
    using assms(2-4) total_without_first [of ?os "own_reachable inc"] total_filter [of ?os "own_reachable inc"] unfolding keeps S
    by (auto simp: policy_removes_def stp_flat_def)
qed

text \<open>What the policy leaves is what the order is matched against, or what is left of the opposite side when it is refused.\<close>

lemma matchOrder_policy [consumes 4, case_names Refused Matched]:
  assumes wf: "book_wf capacity b" and inc: "incoming_ok inc b"
    and room: "id_room (next_trade_id b) (length (flat (other (side inc)) b))"
    and m: "matchOrder now inc b = (r, inc', b')"
  obtains "r = Inr []" and "inc' = inc" and "flat (other (side inc)) b' = policy_keeps inc b" and "flat (side inc) b' = flat (side inc) b"
      and "book_stp b \<noteq> CANCEL_BOTH \<Longrightarrow> b' = b"
      and "total (flat (other (side inc)) b) = total (policy_keeps inc b) + total (policy_removes inc b)"
  | b0 ts where "r = Inr ts" and "matched now inc b0 ts inc' b'" and "flat (other (side inc)) b0 = policy_keeps inc b" and "next_trade_id b0 = next_trade_id b"
      and "book_stp b \<noteq> CANCEL_OLDEST \<Longrightarrow> b0 = b"
      and "otype inc = FOK \<Longrightarrow> canFullyFill inc b"
      and "total (flat (other (side inc)) b) = total (policy_keeps inc b) + total (policy_removes inc b)"
  using assms
proof (cases rule: matchOrder_cases)
  case Refused
  show thesis
  proof (cases "(otype inc = FOK \<longrightarrow> canFullyFill inc b) \<and> wouldSelfTrade inc b \<and> book_stp b = CANCEL_BOTH")
    case True
    then have "b' = stp_remove inc b" using m by (auto simp: matchOrder_def split: if_splits)
    then show thesis using True Refused(1,2) policy_keeps_stp [OF wf] flat_stp_remove(2) [OF wf, of inc] by (intro that(1)) auto
  next
    case False
    then have "policy_removes inc b = []" using Refused(5) m
      by (cases "book_stp b") (auto simp: policy_removes_def)
    moreover have "b' = b" using m False Refused(5) by (auto simp: matchOrder_def split: if_splits)
    ultimately show thesis using Refused(1,2) by (intro that(1)) simp_all
  qed
next
  case (Matched b0 ts)
  show thesis
  proof (cases "b0 = b \<and> (book_stp b = STP_NONE \<or> \<not> wouldSelfTrade inc b)")
    case True
    then have "policy_removes inc b = []" by (auto simp: policy_removes_def)
    then show thesis using True Matched(1,2,7) by (intro that(2) [of ts b]) auto
  next
    case False
    then show thesis
      using Matched(1,2,6,7) policy_keeps_stp [OF wf, of inc] flat_stp_remove(3) [OF wf, of inc] by (intro that(2) [of ts b0]) auto
  qed
qed

text \<open>
  C7. Price-time priority, under every policy: the trades
  \<open>matchOrder\<close> returns are, in order, with the first live orders of the opposite side in
  priority order, less the orders of the same trader that the self-trade policy removed first: no other order is skipped, every one but the last is filled completely, each trade is
  at the price of the resting order, and the trade identifiers are consecutive.
\<close>

theorem matchOrder_price_time_priority:
  assumes "book_wf capacity b" "incoming_ok inc b"
    "id_room (next_trade_id b) (length (flat (other (side inc)) b))"
    "matchOrder now inc b = (r, inc', b')"
  shows "\<exists>fs rest. r = Inr (trades_of now (next_trade_id b) inc fs) \<and>
    filter (\<lambda>x. 0 < remaining_quantity x) (policy_keeps inc b) = map fst fs @ rest \<and>
    (\<forall>i. i + 1 < length fs \<longrightarrow> snd (fs ! i) = remaining_quantity (fst (fs ! i)))"
  using assms
proof (cases rule: matchOrder_policy)
  case Refused
  then show ?thesis by (intro exI [of _ "[]"] exI [of _ "filter (\<lambda>x. 0 < remaining_quantity x) (policy_keeps inc b)"]) simp
next
  case (Matched b0 ts)
  let ?os = "policy_keeps inc b"
  have ts: "ts = trades_of now (next_trade_id b) inc (swept_fills inc ?os)" using Matched(2-4) by (simp add: matched_def Let_def)
  obtain rest where "filter (\<lambda>x. 0 < remaining_quantity x) ?os = map fst (swept_fills inc ?os) @ rest"
    using swept_prefix by blast
  then show ?thesis using Matched(1) ts swept_complete [of _ inc ?os] by blast
qed

theorem matchOrder_price_time_priority_witness:
  "\<exists>fs rest. fst (matchOrder ex_now (ex_buy FOK 20 10) (ex_book CANCEL_OLDEST)) =
      Inr (trades_of ex_now (next_trade_id (ex_book CANCEL_OLDEST)) (ex_buy FOK 20 10) fs) \<and>
    filter (\<lambda>x. 0 < remaining_quantity x) (policy_keeps (ex_buy FOK 20 10) (ex_book CANCEL_OLDEST)) = map fst fs @ rest \<and>
    (\<forall>i. i + 1 < length fs \<longrightarrow> snd (fs ! i) = remaining_quantity (fst (fs ! i)))"
  by (rule matchOrder_price_time_priority [OF ex_ok match_parts]) simp

text \<open>
  C8. Conservation, under every policy. What the trades exchanged is what the incoming order lost; what the
  opposite side lost is what the trades exchanged and the quantity of the orders the self-trade policy removed, which is nothing unless the policy is
  \<open>CANCEL_OLDEST\<close> or \<open>CANCEL_BOTH\<close> and the order would trade with its own trader.
\<close>

theorem matchOrder_conserves_quantity:
  assumes "book_wf capacity b" "incoming_ok inc b"
    "id_room (next_trade_id b) (length (flat (other (side inc)) b))"
    "matchOrder now inc b = (Inr ts, inc', b')"
  shows "unat (remaining_quantity inc) = unat (remaining_quantity inc') + (\<Sum>t\<leftarrow>ts. unat (trade_quantity t)) \<and>
    total (flat (other (side inc)) b) =
      total (flat (other (side inc)) b') + (\<Sum>t\<leftarrow>ts. unat (trade_quantity t)) + total (policy_removes inc b)"
  using assms
proof (cases rule: matchOrder_policy)
  case Refused
  then show ?thesis by simp
next
  case (Matched b0 us)
  then show ?thesis
    using sweep_conserves_in [of inc "policy_keeps inc b"] sweep_conserves_rest [of "policy_keeps inc b" inc]
    by (simp add: matched_def Let_def sum_trades_of)
qed

theorem matchOrder_conserves_quantity_witness:
  "\<exists>ts inc' b'. matchOrder ex_now (ex_buy LIMIT 20 12) (ex_book CANCEL_OLDEST) = (Inr ts, inc', b') \<and>
    unat (remaining_quantity (ex_buy LIMIT 20 12)) = unat (remaining_quantity inc') + (\<Sum>t\<leftarrow>ts. unat (trade_quantity t)) \<and>
    total (flat (other (side (ex_buy LIMIT 20 12))) (ex_book CANCEL_OLDEST)) =
      total (flat (other (side (ex_buy LIMIT 20 12))) b') + (\<Sum>t\<leftarrow>ts. unat (trade_quantity t)) +
      total (policy_removes (ex_buy LIMIT 20 12) (ex_book CANCEL_OLDEST))"
proof -
  obtain ts inc' b' where m: "matchOrder ex_now (ex_buy LIMIT 20 12) (ex_book CANCEL_OLDEST) = (Inr ts, inc', b')"
    using ex_match_Inr [of 12 20 LIMIT CANCEL_OLDEST] by auto
  show ?thesis using m matchOrder_conserves_quantity [OF ex_ok m] by (intro exI conjI) auto
qed

text \<open>
  C9. Limit protection. Every trade is for a positive quantity at a finite positive price no
  worse than the incoming order's limit: never above a buyer's, never below a seller's. Only a
  market order trades at any price.
\<close>

theorem matchOrder_respects_limit:
  assumes "book_wf capacity b" "incoming_ok inc b"
    "id_room (next_trade_id b) (length (flat (other (side inc)) b))"
    "matchOrder now inc b = (Inr ts, inc', b')" "t \<in> set ts"
  shows "0 < trade_quantity t \<and> pos_finite (trade_price t) \<and>
    (otype inc = MARKET \<or>
     (if side inc = BUY then d_le (trade_price t) (price inc) else d_le (price inc) (trade_price t)))"
  using assms(1-4)
proof (cases rule: matchOrder_cases)
  case Refused
  then show ?thesis using assms(5) by auto
next
  case (Matched b0 us)
  let ?os = "flat (other (side inc)) b0"
  have "t \<in> set (trades_of now (next_trade_id b0) inc (swept_fills inc ?os))"
    using Matched(1,2) assms(5) by (simp add: matched_def Let_def)
  then obtain x q where x: "(x, q) \<in> set (swept_fills inc ?os)" "trade_price t = price x" "trade_quantity t = q"
    by (rule trades_self_prices)
  note f = swept_fill_ok [OF x(1)]
  then have px: "pos_finite (price x)" using flat_resting [OF Matched(3)] by blast
  show ?thesis
  proof (cases "otype inc = MARKET")
    case False
    then have "isfinite (price inc)" using assms(2) by (simp add: incoming_ok_def pos_finite_isfinite)
    then show ?thesis
      using f x px False by (auto simp: blocked_def d_gt_def d_le_not_lt pos_finite_isfinite)
  qed (use f x px in auto)
qed

theorem matchOrder_respects_limit_witness:
  "\<exists>ts inc' b'. matchOrder ex_now (ex_buy IOC 40 3) (ex_book STP_NONE) = (Inr ts, inc', b') \<and> ts \<noteq> [] \<and>
    0 < trade_quantity (hd ts) \<and> pos_finite (trade_price (hd ts)) \<and>
    (otype (ex_buy IOC 40 3) = MARKET \<or>
     (if side (ex_buy IOC 40 3) = BUY then d_le (trade_price (hd ts)) (price (ex_buy IOC 40 3))
      else d_le (price (ex_buy IOC 40 3)) (trade_price (hd ts))))"
proof -
  obtain ts inc' b' where m: "matchOrder ex_now (ex_buy IOC 40 3) (ex_book STP_NONE) = (Inr ts, inc', b')"
    using ex_match_Inr [of 3 40 IOC STP_NONE] by auto
  moreover have "fst (matchOrder ex_now (ex_buy IOC 40 3) (ex_book STP_NONE)) \<noteq> Inr []" by code_simp
  ultimately have "ts \<noteq> []" by auto
  then show ?thesis
    using m matchOrder_respects_limit [OF ex_ok m, of "hd ts"] by (intro exI conjI) auto
qed

text \<open>
  Only limit orders rest. After a market, immediate-or-cancel or fill-or-kill order, the
  order's own side of the book is unchanged.
\<close>

theorem only_limit_orders_rest:
  assumes "book_wf capacity b" "incoming_ok inc b"
    "id_room (next_trade_id b) (length (flat (other (side inc)) b))"
    "matchOrder now inc b = (r, inc', b')" "otype inc \<noteq> LIMIT"
  shows "flat (side inc) b' = flat (side inc) b \<and> getOrderById (order_id inc) b' = None"
proof -
  have own: "flat (side inc) b' = flat (side inc) b"
    using assms(1-4)
  proof (cases rule: matchOrder_cases)
    case (Matched b0 ts)
    then show ?thesis using assms(5) flat_stp_remove(2) [OF assms(1)] by (auto simp: matched_def Let_def)
  qed (use flat_stp_remove(2) [OF assms(1)] in auto)
  have fresh: "order_id inc \<notin> set (ids (flat (other (side inc)) b0))" if "incoming_ok inc b0" for b0
    using that by (simp add: incoming_ok_def set_book_orders [of _ "side inc"] image_Un)
  have "order_id inc \<notin> set (ids (flat (other (side inc)) b'))"
    using assms(1-4)
  proof (cases rule: matchOrder_cases)
    case Refused
    then show ?thesis using fresh [OF assms(2)] fresh [OF incoming_ok_stp [OF assms(1,2)]] by blast
  next
    case (Matched b0 ts)
    obtain n where "ids (swept_rest inc (flat (other (side inc)) b0)) = drop n (ids (flat (other (side inc)) b0))"
      using ids_swept_rest by blast
    then have "set (ids (swept_rest inc (flat (other (side inc)) b0))) \<subseteq> set (ids (flat (other (side inc)) b0))"
      by (metis set_drop_subset)
    moreover have "flat (other (side inc)) b' = swept_rest inc (flat (other (side inc)) b0)"
      using Matched(2) by (simp add: matched_def Let_def)
    ultimately show ?thesis using fresh [OF Matched(5)] by (simp only: subset_iff) blast
  qed
  then show ?thesis
    using own assms(2) by (auto simp: getOrderById_None incoming_ok_def set_book_orders [of _ "side inc"])
qed

theorem only_limit_orders_rest_witness:
  "flat (side (ex_buy IOC 40 12)) (snd (snd (matchOrder ex_now (ex_buy IOC 40 12) (ex_book STP_NONE)))) =
     flat (side (ex_buy IOC 40 12)) (ex_book STP_NONE) \<and>
   getOrderById (order_id (ex_buy IOC 40 12)) (snd (snd (matchOrder ex_now (ex_buy IOC 40 12) (ex_book STP_NONE)))) = None"
  by (rule only_limit_orders_rest [OF ex_ok match_parts]) (simp_all add: ex_order_def)

text \<open>
  C11. Fill-or-kill is atomic under every policy but \<open>CANCEL_OLDEST\<close> (\<open>fok_partial_under_cancel_oldest\<close> below): the order is either filled
  completely, or there is no trade, the order is as it was and so is the book, except that \<open>CANCEL_BOTH\<close> has taken out the orders of the same trader
  that it would have met.
\<close>

theorem fok_all_or_nothing:
  assumes "book_wf capacity b" "incoming_ok inc b"
    "id_room (next_trade_id b) (length (flat (other (side inc)) b))"
    "matchOrder now inc b = (r, inc', b')" "otype inc = FOK" "book_stp b \<noteq> CANCEL_OLDEST"
  shows "remaining_quantity inc' = 0 \<or>
    (r = Inr [] \<and> inc' = inc \<and> (book_stp b \<noteq> CANCEL_BOTH \<longrightarrow> b' = b) \<and>
     flat (side inc) b' = flat (side inc) b \<and> flat (other (side inc)) b' = policy_keeps inc b)"
  using assms(1-4)
proof (cases rule: matchOrder_policy)
  case (Matched b0 ts)
  moreover have "remaining_quantity inc \<noteq> 0" using assms(2) by (auto simp: incoming_ok_def)
  ultimately show ?thesis
    using assms(1,5,6) canFullyFill_exact [OF assms(1)] by (auto simp: matched_def Let_def)
qed auto

theorem fok_all_or_nothing_witness:
  "remaining_quantity (fst (snd (matchOrder ex_now (ex_buy FOK 20 10) (ex_book CANCEL_BOTH)))) = 0 \<or>
   (fst (matchOrder ex_now (ex_buy FOK 20 10) (ex_book CANCEL_BOTH)) = Inr [] \<and>
    fst (snd (matchOrder ex_now (ex_buy FOK 20 10) (ex_book CANCEL_BOTH))) = ex_buy FOK 20 10 \<and>
    flat (other (side (ex_buy FOK 20 10))) (snd (snd (matchOrder ex_now (ex_buy FOK 20 10) (ex_book CANCEL_BOTH)))) =
      policy_keeps (ex_buy FOK 20 10) (ex_book CANCEL_BOTH))"
proof -
  have h: "(10 :: u32) \<noteq> 0" "otype (ex_buy FOK 20 10) = FOK" "book_stp (ex_book CANCEL_BOTH) \<noteq> CANCEL_OLDEST" by (simp_all add: ex_order_def ex_book_def)
  show ?thesis using fok_all_or_nothing [OF ex_ok(1) ex_ok(2) [OF h(1)] ex_ok(3) match_parts h(2,3), of ex_now] by blast
qed

text \<open>
  C12. Self-trade prevention. Under \<open>CANCEL_NEWEST\<close> and \<open>CANCEL_BOTH\<close> no trade has the same
  trader on both sides.
\<close>

theorem no_self_trade:
  assumes "book_wf capacity b" "incoming_ok inc b"
    "id_room (next_trade_id b) (length (flat (other (side inc)) b))"
    "matchOrder now inc b = (Inr ts, inc', b')"
    "book_stp b = CANCEL_NEWEST \<or> book_stp b = CANCEL_BOTH" "t \<in> set ts"
  shows "buy_trader_id t \<noteq> sell_trader_id t"
  using assms(1-4)
proof (cases rule: matchOrder_cases)
  case (Matched b0 us)
  have "remaining_quantity inc \<noteq> 0" using assms(2) by (auto simp: incoming_ok_def)
  then have "\<forall>(x, q) \<in> set (swept_fills inc (flat (other (side inc)) b)). trader_id x \<noteq> trader_id inc"
    using Matched(6) assms(5) wouldSelfTrade_exact [OF assms(1)] by auto
  moreover have "t \<in> set (trades_of now (next_trade_id b) inc (swept_fills inc (flat (other (side inc)) b)))"
    using Matched(1,2,6) assms(5,6) by (auto simp: matched_def Let_def)
  ultimately show ?thesis by (auto elim!: trades_self_prices split: if_splits)
qed (use assms(6) in auto)

theorem no_self_trade_witness:
  "\<exists>ts inc' b'. matchOrder ex_now (ex_buy IOC 40 3) (ex_book CANCEL_NEWEST) = (Inr ts, inc', b') \<and> ts \<noteq> [] \<and>
    buy_trader_id (hd ts) \<noteq> sell_trader_id (hd ts)"
proof -
  obtain ts inc' b' where m: "matchOrder ex_now (ex_buy IOC 40 3) (ex_book CANCEL_NEWEST) = (Inr ts, inc', b')"
    using ex_match_Inr [of 3 40 IOC CANCEL_NEWEST] by auto
  moreover have "fst (matchOrder ex_now (ex_buy IOC 40 3) (ex_book CANCEL_NEWEST)) \<noteq> Inr []" by code_simp
  ultimately have "ts \<noteq> []" by auto
  then show ?thesis
    using m no_self_trade [OF ex_ok m, of "hd ts"] by (intro exI conjI) (auto simp: ex_book_def)
qed

subsection \<open>The book is never left crossed\<close>

lemma uncrossed_flat:
  assumes "book_wf capacity b"
  shows "uncrossed b \<longleftrightarrow> (\<forall>x \<in> set (flat BUY b). \<forall>y \<in> set (flat SELL b). d_lt (price x) (price y))"
proof -
  have P: "price ` set (flat sd b) = lv_price ` set (side_levels sd b)" for sd
  proof -
    have "price ` set (lv_orders l) = {lv_price l}" if "l \<in> set (side_levels sd b)" for l
    proof -
      have "level_wf sd l" using book_wf_side [OF assms, of sd] that by (simp add: side_wf_def)
      then show ?thesis by (cases "lv_orders l") (auto simp: level_wf_def resting_ok_def)
    qed
    then show ?thesis by (auto simp: flat_def all_orders_def image_UN)
  qed
  have "(\<forall>p \<in> price ` set (flat BUY b). \<forall>q \<in> price ` set (flat SELL b). d_lt p q) =
    (\<forall>p \<in> lv_price ` set (side_levels BUY b). \<forall>q \<in> lv_price ` set (side_levels SELL b). d_lt p q)"
    unfolding P ..
  then show ?thesis by (simp add: uncrossed_def side_levels_def)
qed

text \<open>\<open>apart sd p q\<close>: an order of side \<open>sd\<close> at \<open>p\<close> does not reach one of the other side at \<open>q\<close>.\<close>

definition apart :: "order_side \<Rightarrow> double \<Rightarrow> double \<Rightarrow> bool" where
  "apart sd p q = (if sd = BUY then d_lt p q else d_lt q p)"

lemma uncrossed_apart:
  assumes "book_wf capacity b"
  shows "uncrossed b \<longleftrightarrow> (\<forall>x \<in> set (flat sd b). \<forall>y \<in> set (flat (other sd) b). apart sd (price x) (price y))"
  unfolding uncrossed_flat [OF assms] by (cases sd) (auto simp: apart_def)

lemma blocked_apart: "blocked inc p \<Longrightarrow> apart (side inc) (price inc) p"
  by (auto simp: blocked_def apart_def d_gt_def)

lemma price_swept_rest: "price ` set (swept_rest inc os) \<subseteq> price ` set os"
proof -
  obtain n ys where ys: "ys = drop n os" and
    c: "swept_rest inc os = ys \<or> (\<exists>q. ys \<noteq> [] \<and> swept_rest inc os = reduce (hd ys) q # tl ys)"
    using swept_rest_tail [of os inc] by blast
  from c have "map price (swept_rest inc os) = map price ys" by (auto simp: neq_Nil_conv)
  then have "price ` set (swept_rest inc os) = price ` set ys" by (metis set_map)
  then show ?thesis using ys set_drop_subset [of n os] by auto
qed

lemma rest_blocked:
  assumes wf: "book_wf capacity b'" and rest: "flat (other (side inc)) b' = swept_rest inc os"
    and rem: "remaining_quantity (swept_in inc os) \<noteq> 0" and y: "y \<in> set (swept_rest inc os)"
  shows "blocked inc (price y)"
proof -
  obtain l ls where ls: "side_levels (other (side inc)) b' = l # ls"
    using rest y by (cases "side_levels (other (side inc)) b'") (auto simp: flat_def)
  have sw: "side_wf (other (side inc)) (l # ls)" using book_wf_side [OF wf, of "other (side inc)"] ls by simp
  then have wl: "level_wf (other (side inc)) l" by (simp add: side_wf_Cons)
  then obtain x xs where x: "lv_orders l = x # xs" by (cases "lv_orders l") (auto simp: level_wf_def)
  have "hd (swept_rest inc os) = x" using ls x rest by (simp add: flat_def flip: rest)
  then have "blocked inc (price x)" using swept_stops [of inc os] rem y by auto
  then have "blocked inc (lv_price l)" using level_blocked [OF wl, of x] x by simp
  moreover have "y \<in> set (all_orders (l # ls))" using y by (simp add: flat_def ls flip: rest)
  ultimately show ?thesis by (rule side_blocked_all [OF sw])
qed

lemma uncrossed_after_match:
  assumes "book_wf capacity b" "incoming_ok inc b"
    "id_room (next_trade_id b) (length (flat (other (side inc)) b))"
    "matchOrder now inc b = (r, inc', b')" "uncrossed b"
  shows "uncrossed b'"
proof -
  let ?sd = "side inc" and ?opp = "other (side inc)"
  have U: "\<forall>x \<in> set (flat ?sd b). \<forall>y \<in> set (flat ?opp b). apart ?sd (price x) (price y)"
    using assms(5) uncrossed_apart [OF assms(1), of ?sd] by simp
  have stp: "set (flat ?opp (stp_remove inc b)) \<subseteq> set (flat ?opp b)" "flat ?sd (stp_remove inc b) = flat ?sd b"
    using flat_stp_remove [OF assms(1), of inc] set_stp_flat by auto
  show ?thesis
    using assms(1-4)
  proof (cases rule: matchOrder_cases)
    case Refused
    then show ?thesis using U stp assms(5) uncrossed_apart [OF Refused(4), of ?sd] by auto
  next
    case (Matched b0 ts)
    let ?os = "flat ?opp b0"
    have b0: "set ?os \<subseteq> set (flat ?opp b)" "flat ?sd b0 = flat ?sd b" using Matched(6) stp by auto
    have opp: "flat ?opp b' = swept_rest inc ?os" and inc': "inc' = swept_in inc ?os"
      using Matched(2) by (simp_all add: matched_def Let_def)
    have own: "set (flat ?sd b') \<subseteq> set (flat ?sd b) \<union> (if remaining_quantity inc' \<noteq> 0 then {inc'} else {})"
      using Matched(2) b0(2) by (auto simp: matched_def Let_def)
    have "apart ?sd (price x) (price y)" if x: "x \<in> set (flat ?sd b')" and y: "y \<in> set (flat ?opp b')" for x y
    proof (cases "x \<in> set (flat ?sd b)")
      case True
      have "price y \<in> price ` set (flat ?opp b)" using y opp price_swept_rest [of inc ?os] b0(1) by auto
      then show ?thesis using U True by auto
    next
      case False
      then have "x = swept_in inc ?os" "remaining_quantity (swept_in inc ?os) \<noteq> 0"
        using own x inc' by (auto split: if_splits)
      then show ?thesis using rest_blocked [OF Matched(4) opp] y opp blocked_apart by simp
    qed
    then show ?thesis using uncrossed_apart [OF Matched(4), of ?sd] by blast
  qed
qed

text \<open>
  C10. Matching never leaves the book crossed: if no bid reaches an ask before \<open>matchOrder\<close>, none
  does afterwards, whatever the order type and the self-trade policy.
\<close>

theorem matchOrder_keeps_uncrossed:
  assumes "book_wf capacity b" "incoming_ok inc b"
    "id_room (next_trade_id b) (length (flat (other (side inc)) b))"
    "matchOrder now inc b = (r, inc', b')" "uncrossed b"
  shows "uncrossed b'"
  using assms by (rule uncrossed_after_match)

theorem matchOrder_keeps_uncrossed_witness:
  "uncrossed (snd (snd (matchOrder ex_now (ex_buy LIMIT 40 12) (ex_book STP_NONE))))"
  by (rule matchOrder_keeps_uncrossed [OF ex_ok match_parts]) (simp_all add: ex_book_def uncrossed_def)

text \<open>
  \<open>addOrder\<close> finds its place by binary search: it succeeds exactly when the pool has a free
  slot, and puts the order behind every order of its side that is not worse and before the
  first that is; everything else keeps its place.
\<close>

theorem addOrder_correct:
  assumes "book_wf capacity b" "restable ord" "order_id ord \<notin> set (ids (book_orders b))"
  shows "\<exists>b'. addOrder ord b = (0 < pool_free b, b') \<and> book_wf capacity b' \<and>
    flat (other (side ord)) b' = flat (other (side ord)) b \<and>
    flat (side ord) b' = (if 0 < pool_free b then insert_prio ord (flat (side ord) b) else flat (side ord) b)"
proof -
  note R = addOrder_refines [OF assms]
  have "flat sd (snd (addOrder ord b)) = ab_side (spec_rest ord (abs_book b)) sd" for sd
    using R(1) by (metis abs_book_simps(1))
  then show ?thesis
    using R(2,3) assms(2)
    by (intro exI [of _ "snd (addOrder ord b)"])
      (auto simp: spec_rest_def set_side_def restable_def intro: prod_eqI)
qed

theorem addOrder_correct_witness:
  "\<exists>b'. addOrder (ex_buy LIMIT 40 12) (ex_book STP_NONE) = (0 < pool_free (ex_book STP_NONE), b') \<and> book_wf 100 b' \<and>
    flat (other (side (ex_buy LIMIT 40 12))) b' = flat (other (side (ex_buy LIMIT 40 12))) (ex_book STP_NONE) \<and>
    flat (side (ex_buy LIMIT 40 12)) b' =
      (if 0 < pool_free (ex_book STP_NONE)
       then insert_prio (ex_buy LIMIT 40 12) (flat (side (ex_buy LIMIT 40 12)) (ex_book STP_NONE))
       else flat (side (ex_buy LIMIT 40 12)) (ex_book STP_NONE))"
  by (rule addOrder_correct [OF ex_book_wf])
    (simp_all add: restable_def ex_order_def ex_book_def book_orders_def)

subsection \<open>Identifiers of trades\<close>

lemma map_trade_id: "map trade_id (trades_of now n inc fs) = map (\<lambda>i. n + of_nat i) [0..<length fs]"
  by (intro nth_equalityI) (simp_all add: nth_trades_of trade_of_def)

lemma id_room_distinct:
  assumes "id_room n k"
  shows "distinct (map (\<lambda>i. n + of_nat i) [0..<k])" and "0 \<notin> set (map (\<lambda>i. n + of_nat i) [0..<k])"
proof -
  have u: "unat (n + of_nat i) = unat n + i" if "i < k" for i
  proof -
    have "unat n + i < 2 ^ 64" using assms that by (auto simp: id_room_def)
    moreover from this have "unat (of_nat i :: u64) = i" by (simp add: unat_of_nat)
    ultimately show ?thesis by (simp add: unat_add_lem [THEN iffD1])
  qed
  have "inj_on (\<lambda>i. n + of_nat i) {0..<k}"
    using u by (intro inj_onI) (metis add_left_cancel atLeastLessThan_iff)
  then show "distinct (map (\<lambda>i. n + of_nat i) [0..<k])" by (simp add: distinct_map)
  have "n + of_nat i \<noteq> 0" if "i < k" for i
  proof -
    have "unat n \<noteq> 0" using assms that by (auto simp: id_room_def unat_eq_zero)
    then have "unat (n + of_nat i) \<noteq> 0" using u [OF that] by simp
    then show ?thesis by auto
  qed
  then show "0 \<notin> set (map (\<lambda>i. n + of_nat i) [0..<k])" 
    unfolding set_map set_upt image_iff by (metis atLeastLessThan_iff)
qed

text \<open>
  Trade identifiers are non-zero, consecutive from \<open>next_trade_id_\<close> on and never repeated; the
  book's counter is advanced by the number of trades.
\<close>

theorem matchOrder_trade_ids:
  assumes "book_wf capacity b" "incoming_ok inc b"
    "id_room (next_trade_id b) (length (flat (other (side inc)) b))"
    "matchOrder now inc b = (Inr ts, inc', b')"
  shows "map trade_id ts = map (\<lambda>i. next_trade_id b + of_nat i) [0..<length ts] \<and>
    distinct (map trade_id ts) \<and> 0 \<notin> set (map trade_id ts) \<and>
    next_trade_id b' = next_trade_id b + of_nat (length ts)"
  using assms
proof (cases rule: matchOrder_cases)
  case Refused
  then show ?thesis using flat_stp_remove(3) [OF assms(1), of inc] by auto
next
  case (Matched b0 us)
  let ?os = "flat (other (side inc)) b0"
  have n: "next_trade_id b0 = next_trade_id b" "length ?os \<le> length (flat (other (side inc)) b)"
    using Matched(6) flat_stp_remove [OF assms(1), of inc] length_stp_flat by auto
  then have "id_room (next_trade_id b) (length (swept_fills inc ?os))"
    using id_room_mono [OF assms(3)] length_swept_fills le_trans by blast
  from id_room_distinct [OF this] show ?thesis
    using Matched(1,2) n by (simp add: matched_def Let_def map_trade_id)
qed

theorem matchOrder_trade_ids_witness:
  "\<exists>ts inc' b'. matchOrder ex_now (ex_buy MARKET 40 15) (ex_book STP_NONE) = (Inr ts, inc', b') \<and>
    map trade_id ts = map (\<lambda>i. next_trade_id (ex_book STP_NONE) + of_nat i) [0..<length ts] \<and>
    distinct (map trade_id ts) \<and> 0 \<notin> set (map trade_id ts) \<and>
    next_trade_id b' = next_trade_id (ex_book STP_NONE) + of_nat (length ts)"
proof -
  obtain ts inc' b' where m: "matchOrder ex_now (ex_buy MARKET 40 15) (ex_book STP_NONE) = (Inr ts, inc', b')"
    using ex_match_Inr [of 15 40 MARKET STP_NONE] by auto
  show ?thesis using m matchOrder_trade_ids [OF ex_ok m] by (intro exI conjI) auto
qed

subsection \<open>Where the code promises less than its documentation\<close>

text \<open>
  Under \<open>CANCEL_OLDEST\<close> a fill-or-kill order can be filled in part: the liquidity check counts
  the trader's own resting order, which the policy then removes. The order for ten trades six
  and keeps four.
\<close>

theorem fok_partial_under_cancel_oldest:
  "case matchOrder ex_now (ex_buy FOK 20 10) (ex_book CANCEL_OLDEST) of
     (r, inc', b') \<Rightarrow> r = Inr (trades_of ex_now 1 (ex_buy FOK 20 10) [(ex_order 3 30 SELL LIMIT (Fin 101) 6, 6)]) \<and>
       remaining_quantity inc' = 4"
  by code_simp

text \<open>
  Under \<open>CANCEL_OLDEST\<close> a trader can still trade with himself: the policy removes only the
  first of his resting orders, and the market order for twelve meets the second.
\<close>

theorem self_trade_under_cancel_oldest:
  "case matchOrder ex_now (ex_buy MARKET 20 12) (ex_book CANCEL_OLDEST) of
     (Inl e, _) \<Rightarrow> False
   | (Inr ts, _) \<Rightarrow> list_ex (\<lambda>t. buy_trader_id t = 20 \<and> sell_trader_id t = 20) ts"
  by code_simp

text \<open>
  Amending a partly filled order down to what it already filled leaves an order with no
  quantity in the book: the order for ten with six filled, replaced by six at the same
  price, stays at the front of its level with nothing remaining.
\<close>

theorem replace_leaves_empty_order:
  "case replaceOrder ex_now 7 1 (Fin 100) 6 12
      (snd (addOrder ((ex_order 1 10 BUY LIMIT (Fin 100) 10)\<lparr>remaining_quantity := 4\<rparr>) (OrderBook 100))) of
     (Inl e, _) \<Rightarrow> False
   | (Inr r, b') \<Rightarrow> rr_success r \<and> map_option remaining_quantity (getOrderById 1 b') = Some 0 \<and>
       getBestBid b' = Fin 100"
  by code_simp

end
