(* ===== verification/Market_Data.thy ===== *)
theory Market_Data
  imports Order_Types
begin

text \<open>
  The market data events (\<open>include/MarketDataTypes.h\<close>) and the publisher that hands every event to its
  subscribers (\<open>include/MarketDataPublisher.h\<close>, \<open>src/MarketDataPublisher.cpp\<close>).
\<close>

record accepted_event =
  oa_timestamp :: u64
  oa_sequence :: u64
  oa_orderId :: u64
  oa_symbolId :: u32
  oa_traderId :: u32
  oa_isBuy :: bool
  oa_priceTicks :: i64
  oa_quantity :: u32
  oa_remainingQuantity :: u32
  oa_orderType :: order_type
  oa_prioritySeq :: u64

record trade_event =
  te_timestamp :: u64
  te_sequence :: u64
  te_restingOrderId :: u64
  te_aggressorOrderId :: u64
  te_symbolId :: u32
  te_traderId :: u32
  te_tradeQuantity :: u32
  te_tradePriceTicks :: i64
  te_aggressorIsBuy :: bool

record cancelled_event =
  oc_timestamp :: u64
  oc_sequence :: u64
  oc_orderId :: u64
  oc_symbolId :: u32
  oc_traderId :: u32
  oc_cancelledQuantity :: u32

record rejected_event =
  or_timestamp :: u64
  or_sequence :: u64
  or_orderId :: u64
  or_symbolId :: u32
  or_traderId :: u32

datatype market_event =
    OrderAcceptedEvent accepted_event
  | TradeEvent trade_event
  | OrderCancelledEvent cancelled_event
  | OrderRejectedEvent rejected_event

primrec ev_sequence :: "market_event \<Rightarrow> u64" where
  "ev_sequence (OrderAcceptedEvent e) = oa_sequence e"
| "ev_sequence (TradeEvent e) = te_sequence e"
| "ev_sequence (OrderCancelledEvent e) = oc_sequence e"
| "ev_sequence (OrderRejectedEvent e) = or_sequence e"

subsection \<open>The publisher\<close>

text \<open>
  The subscriber vector of the current snapshot. A subscriber is an address, 0 the null pointer.
  The mutations are serialised by the mutex and replace the snapshot as a whole; a concurrent
  \<open>publish\<close> works on the snapshot it loaded.
\<close>

type_synonym publisher = "nat list"

definition MarketDataPublisher :: publisher where
  "MarketDataPublisher = []"

definition pub_reserve :: "nat \<Rightarrow> publisher \<Rightarrow> publisher" where
  "pub_reserve n p = p"

definition subscribe :: "nat \<Rightarrow> publisher \<Rightarrow> publisher" where
  "subscribe s p = (if s = 0 then p else if s \<in> set p then p else p @ [s])"

definition unsubscribe :: "nat \<Rightarrow> publisher \<Rightarrow> publisher" where
  "unsubscribe s p = filter (\<lambda>x. x \<noteq> s) p"

text \<open>The calls of \<open>onEvent\<close>, in order.\<close>

definition publish :: "market_event \<Rightarrow> publisher \<Rightarrow> (nat \<times> market_event) list" where
  "publish ev p = map (\<lambda>s. (s, ev)) p"

datatype pub_op = Subscribe nat | Unsubscribe nat | Reserve nat

primrec pub_step :: "pub_op \<Rightarrow> publisher \<Rightarrow> publisher" where
  "pub_step (Subscribe s) p = subscribe s p"
| "pub_step (Unsubscribe s) p = unsubscribe s p"
| "pub_step (Reserve n) p = pub_reserve n p"

text \<open>Whether a subscriber is subscribed after a sequence of operations: the last one that names it decides.\<close>

primrec subscribed :: "nat \<Rightarrow> pub_op list \<Rightarrow> bool \<Rightarrow> bool" where
  "subscribed s [] b = b"
| "subscribed s (c # cs) b =
     subscribed s cs (case c of Subscribe x \<Rightarrow> b \<or> (x = s \<and> s \<noteq> 0) | Unsubscribe x \<Rightarrow> b \<and> x \<noteq> s | Reserve n \<Rightarrow> b)"

lemma pub_steps:
  "distinct p \<Longrightarrow> distinct (fold pub_step cs p) \<and> (s \<in> set (fold pub_step cs p) \<longleftrightarrow> subscribed s cs (s \<in> set p))"
proof (induction cs arbitrary: p)
  case (Cons c cs)
  have "distinct (pub_step c p)"
    using Cons.prems by (cases c) (auto simp: subscribe_def unsubscribe_def pub_reserve_def)
  moreover have "s \<in> set (pub_step c p) \<longleftrightarrow>
      (case c of Subscribe x \<Rightarrow> s \<in> set p \<or> (x = s \<and> s \<noteq> 0) | Unsubscribe x \<Rightarrow> s \<in> set p \<and> x \<noteq> s | Reserve n \<Rightarrow> s \<in> set p)"
    by (cases c) (auto simp: subscribe_def unsubscribe_def pub_reserve_def)
  ultimately show ?case using Cons.IH [of "pub_step c p"] by simp
qed simp

text \<open>
  However subscriptions were made and undone, a published event reaches a subscriber exactly
  once if it is subscribed, and not at all otherwise.
\<close>

theorem publish_exactly_once:
  "count_list (publish ev (fold pub_step cs MarketDataPublisher)) (s, ev) = (if subscribed s cs False then 1 else 0)"
proof -
  let ?p = "fold pub_step cs MarketDataPublisher"
  have p: "distinct ?p" "s \<in> set ?p \<longleftrightarrow> subscribed s cs False"
    using pub_steps [of MarketDataPublisher cs s] by (simp_all add: MarketDataPublisher_def)
  have "count_list (publish ev q) (s, ev) = (if s \<in> set q then 1 else 0)" if "distinct q" for q
    using that by (induction q) (auto simp: publish_def)
  then show ?thesis using p by simp
qed

end
