(* ===== verification/Price_Ticks.thy ===== *)
theory Price_Ticks
  imports Order_Types
begin

text \<open>
  Prices in the journal are integers of a millionth: \<open>doubleToTicks\<close> of
  \<open>src/MatchingEngine.cpp\<close> makes them, \<open>Recovery::processRecord\<close> turns them back into doubles. The
  arithmetic is that of the doubles, rounding at every operation.
\<close>

text \<open>
  \<open>static_cast<std::int64_t>(price * 1000000.0 + 0.5)\<close>. Where the value does not fit, the
  conversion is undefined in C++: \<open>ub\<close> stands for what an implementation does then.
\<close>

definition doubleToTicks :: "(double \<Rightarrow> i64) \<Rightarrow> double \<Rightarrow> i64" where
  "doubleToTicks ub p =
     (let d = d_add (d_mul p (Fin 1000000)) (Fin (1 / 2))
      in case i64_of_double d of Some n \<Rightarrow> n | None \<Rightarrow> ub d)"

text \<open>\<open>static_cast<double>(price_ticks) / 1000000.0\<close>\<close>

definition ticksToDouble :: "i64 \<Rightarrow> double" where
  "ticksToDouble k = d_div (double_of_int k) 1000000"

subsection \<open>The round trip\<close>

lemma rnd_error_mid:
  assumes "1 / 1000000 \<le> x" "x \<le> 10 ^ 16"
  obtains y where "rnd x = Fin y" and "\<bar>y - x\<bar> \<le> x / 2 ^ 53"
proof -
  have "(2 :: rat) powi (-1022) \<le> 2 powi (-20)" by (intro power_int_increasing) simp_all
  also have "\<dots> \<le> 1 / 1000000" by (simp add: power_int_minus)
  finally have lo: "2 powi (-1022) \<le> \<bar>x\<bar>" using assms(1) by simp
  have "x < 2 powi 54" using assms(2) by (simp add: power_int_numeral)
  also have "(2 :: rat) powi 54 \<le> 2 powi 1023" by (intro power_int_increasing) simp_all
  finally have hi: "\<bar>x\<bar> < 2 powi 1023" using assms(1) by simp
  show thesis using rnd_error [OF lo hi] that assms(1) by (metis abs_of_nonneg order_trans zero_le_divide_1_iff zero_le_numeral)
qed

text \<open>The same as two inequalities, for linear arithmetic.\<close>

lemma rnd_error_lin:
  assumes "1 / 1000000 \<le> x" "x \<le> 10000000000000000"
  obtains y where "rnd x = Fin y" and "y \<le> x + x / 9007199254740992" and "x - x / 9007199254740992 \<le> y"
proof -
  have "x \<le> 10 ^ 16" using assms(2) by simp
  then obtain y where y: "rnd x = Fin y" "\<bar>y - x\<bar> \<le> x / 2 ^ 53" using rnd_error_mid [OF assms(1)] by blast
  have "x / 2 ^ 53 = x / 9007199254740992" by simp
  then show thesis using that [OF y(1)] y(2) by linarith
qed

lemma ticks_roundtrip:
  assumes k: "0 < k" "k \<le> 10 ^ 15"
  shows "\<exists>p. ticksToDouble k = Fin p \<and> 0 < p \<and> doubleToTicks ub (Fin p) = k"
proof -
  define K where "K = (of_int k :: rat)"
  have K: "1 \<le> K" "K \<le> 1000000000000000" using k by (simp_all add: K_def)
  have dk: "double_of_int k = Fin K"
    using rnd_of_int [of k] k by (simp add: double_of_int_def K_def)
  have b1: "1 / 1000000 \<le> K / 1000000" "K / 1000000 \<le> 10000000000000000" using K by linarith+
  obtain p where p: "rnd (K / 1000000) = Fin p" "p \<le> K / 1000000 + K / 1000000 / 9007199254740992"
    "K / 1000000 - K / 1000000 / 9007199254740992 \<le> p"
    using rnd_error_lin [OF b1] .
  have b2: "1 / 1000000 \<le> p * 1000000" "p * 1000000 \<le> 10000000000000000" "0 < p" using p K by linarith+
  obtain y where y: "rnd (p * 1000000) = Fin y" "y \<le> p * 1000000 + p * 1000000 / 9007199254740992"
    "p * 1000000 - p * 1000000 / 9007199254740992 \<le> y"
    using rnd_error_lin [OF b2(1,2)] .
  have b3: "1 / 1000000 \<le> y + 1 / 2" "y + 1 / 2 \<le> 10000000000000000" using p y K by linarith+
  obtain z where z: "rnd (y + 1 / 2) = Fin z" "z \<le> y + 1 / 2 + (y + 1 / 2) / 9007199254740992"
    "y + 1 / 2 - (y + 1 / 2) / 9007199254740992 \<le> z"
    using rnd_error_lin [OF b3] .
  have e1: "K / 9007199254740992 \<le> 1112 / 10000" using K by linarith
  then have e2: "p * 1000000 \<le> K + 1112 / 10000" "K - 1112 / 10000 \<le> p * 1000000" using p(2,3) by linarith+
  then have "p * 1000000 / 9007199254740992 \<le> 1112 / 10000" using K by linarith
  then have e3: "y \<le> K + 2224 / 10000" "K - 2224 / 10000 \<le> y" using e2 y(2,3) by linarith+
  then have "y + 1 / 2 \<le> 1001000000000000" using K by linarith
  then have d: "(y + 1 / 2) / 9007199254740992 \<le> 1112 / 10000" by (simp add: divide_le_eq)
  have "z \<le> y + 1 / 2 + 1112 / 10000" by (rule order_trans [OF z(2) add_left_mono [OF d]])
  moreover have "y + 1 / 2 - 1112 / 10000 \<le> z" by (rule order_trans [OF diff_left_mono [OF d] z(3)])
  ultimately have "z - (K + 1 / 2) < 1 / 2" "K + 1 / 2 - z < 1 / 2" using e3 by linarith+
  then have "\<bar>z - (of_int k + 1 / 2)\<bar> < 1 / 2" unfolding K_def by linarith
  then have "trunc_rat z = k" using k by (intro trunc_near) simp_all
  moreover have "in_i64 k" using k by (simp add: in_i64_def)
  ultimately show ?thesis
    using dk p(1) y(1) z(1) b2(3) by (simp add: ticksToDouble_def doubleToTicks_def Let_def)
qed

text \<open>
  The ticks a price is journaled with survive the conversion to a double and back: for every number
  of ticks up to \<open>10 ^ 15\<close> (prices up to a thousand million), the double recovery computes is a
  positive finite price, and \<open>doubleToTicks\<close> of it is the same number of ticks. Three roundings of
  the double arithmetic are within the half tick.
\<close>

theorem price_ticks_roundtrip:
  assumes "0 < k" "k \<le> 10 ^ 15"
  shows "pos_finite (ticksToDouble k) \<and> doubleToTicks ub (ticksToDouble k) = k"
  using ticks_roundtrip [OF assms, of ub] by auto

theorem price_ticks_roundtrip_witness:
  "pos_finite (ticksToDouble 101250000) \<and> doubleToTicks (\<lambda>_. 0) (ticksToDouble 101250000) = 101250000"
  by (rule price_ticks_roundtrip) simp_all

end
