(* ===== verification/Matching_Engine.thy ===== *)
theory Matching_Engine
  imports Book_Properties Market_Data Price_Ticks "HOL-Library.Sublist"
begin

text \<open>
  The matching engine of \<open>include/MatchingEngine.h\<close> and \<open>src/MatchingEngine.cpp\<close>: the life cycle, the
  priority and event counters, and the operations that drive the order book and publish what
  happened.

  The pointers to the publisher, the event counter and the journal are optional in the code; a null
  pointer is \<open>False\<close> or \<open>None\<close> here. \<open>eng_published\<close> collects the events handed to the
  publisher, in order. The journal matters to the engine through \<open>Journal::isHealthy\<close> only. The
  compare-and-swap loops on the priority counter end after one exchange when no other thread
  interferes; the model performs that exchange.
\<close>

datatype engine_state = RECOVERING | READY | HALTED

record engine =
  eng_book :: book
  eng_publisher :: bool
  eng_sequence :: "u64 option"
  eng_journal :: "bool option"
  eng_state :: engine_state
  eng_priority :: u64
  eng_published :: "market_event list"

text \<open>
  What the operations read from outside: the steady clock of each trade, the system clock, the epoch
  clock of the events, and the value of an undefined conversion.
\<close>

record env =
  env_now :: "u64 \<Rightarrow> i64"
  env_system :: i64
  env_epoch :: u64
  env_ub :: "double \<Rightarrow> i64"

definition MatchingEngine :: "nat \<Rightarrow> engine" where
  "MatchingEngine capacity = \<lparr>eng_book = OrderBook capacity, eng_publisher = False, eng_sequence = None,
     eng_journal = None, eng_state = READY, eng_priority = 0, eng_published = []\<rparr>"

subsection \<open>Life cycle\<close>

definition isReady :: "engine \<Rightarrow> bool" where
  "isReady e \<longleftrightarrow> eng_state e = READY"

definition isHalted :: "engine \<Rightarrow> bool" where
  "isHalted e \<longleftrightarrow> eng_state e = HALTED"

definition isHealthy :: "engine \<Rightarrow> bool" where
  "isHealthy e \<longleftrightarrow> eng_state e \<noteq> HALTED \<and> eng_journal e \<noteq> Some False"

definition beginRecovery :: "engine \<Rightarrow> engine" where
  "beginRecovery e = (if eng_state e = READY then e\<lparr>eng_state := RECOVERING\<rparr> else e)"

definition markReady :: "engine \<Rightarrow> bool \<times> engine" where
  "markReady e = (if eng_state e = RECOVERING then (True, e\<lparr>eng_state := READY\<rparr>) else (False, e))"

definition halt :: "engine \<Rightarrow> engine" where
  "halt e = e\<lparr>eng_state := HALTED\<rparr>"

subsection \<open>Counters\<close>

definition tryNextPriority :: "engine \<Rightarrow> u64 option \<times> engine" where
  "tryNextPriority e =
     (if eng_priority e = UINT64_MAX then (None, e)
      else (Some (eng_priority e), e\<lparr>eng_priority := eng_priority e + 1\<rparr>))"

definition seedPrioritySequence :: "u64 \<Rightarrow> engine \<Rightarrow> bool \<times> engine" where
  "seedPrioritySequence next_seq e =
     (if next_seq < eng_priority e then (False, e)
      else if next_seq = eng_priority e then (True, e)
      else (True, e\<lparr>eng_priority := next_seq\<rparr>))"

definition seedSequence :: "u64 \<Rightarrow> engine \<Rightarrow> engine" where
  "seedSequence n e = (case eng_sequence e of None \<Rightarrow> e | Some _ \<Rightarrow> e\<lparr>eng_sequence := Some n\<rparr>)"

definition nextSequence :: "engine \<Rightarrow> u64 \<times> engine" where
  "nextSequence e =
     (case eng_sequence e of
        Some n \<Rightarrow> (n, e\<lparr>eng_sequence := Some (n + 1)\<rparr>)
      | None \<Rightarrow> (0, e))"

text \<open>\<open>publisher_->publish(Event(ts, nextSequence(), ...))\<close>\<close>

definition publish_next :: "(u64 \<Rightarrow> market_event) \<Rightarrow> engine \<Rightarrow> engine" where
  "publish_next mk e = (let (n, e1) = nextSequence e in e1\<lparr>eng_published := eng_published e1 @ [mk n]\<rparr>)"

subsection \<open>The events\<close>

definition trade_ev :: "env \<Rightarrow> order_side \<Rightarrow> u32 \<Rightarrow> trade \<Rightarrow> u64 \<Rightarrow> market_event" where
  "trade_ev v sd sy t n =
     (if sd = BUY
      then TradeEvent \<lparr>te_timestamp = env_epoch v, te_sequence = n, te_restingOrderId = sell_order_id t,
             te_aggressorOrderId = buy_order_id t, te_symbolId = sy, te_traderId = ucast (buy_trader_id t),
             te_tradeQuantity = trade_quantity t,
             te_tradePriceTicks = doubleToTicks (env_ub v) (trade_price t), te_aggressorIsBuy = True\<rparr>
      else TradeEvent \<lparr>te_timestamp = env_epoch v, te_sequence = n, te_restingOrderId = buy_order_id t,
             te_aggressorOrderId = sell_order_id t, te_symbolId = sy, te_traderId = ucast (sell_trader_id t),
             te_tradeQuantity = trade_quantity t,
             te_tradePriceTicks = doubleToTicks (env_ub v) (trade_price t), te_aggressorIsBuy = False\<rparr>)"

definition accepted_ev :: "env \<Rightarrow> order \<Rightarrow> double \<Rightarrow> u32 \<Rightarrow> u32 \<Rightarrow> u64 \<Rightarrow> u64 \<Rightarrow> market_event" where
  "accepted_ev v ord p q rem prio n =
     OrderAcceptedEvent \<lparr>oa_timestamp = env_epoch v, oa_sequence = n, oa_orderId = order_id ord,
       oa_symbolId = symbol_id ord, oa_traderId = ucast (trader_id ord), oa_isBuy = (side ord = BUY),
       oa_priceTicks = doubleToTicks (env_ub v) p, oa_quantity = q, oa_remainingQuantity = rem,
       oa_orderType = otype ord, oa_prioritySeq = prio\<rparr>"

definition cancelled_ev :: "env \<Rightarrow> u64 \<Rightarrow> order \<Rightarrow> u64 \<Rightarrow> market_event" where
  "cancelled_ev v oid old n =
     OrderCancelledEvent \<lparr>oc_timestamp = env_epoch v, oc_sequence = n, oc_orderId = oid,
       oc_symbolId = symbol_id old, oc_traderId = ucast (trader_id old),
       oc_cancelledQuantity = remaining_quantity old\<rparr>"

text \<open>The loop over the trades.\<close>

definition publish_trades :: "env \<Rightarrow> order_side \<Rightarrow> u32 \<Rightarrow> trade list \<Rightarrow> engine \<Rightarrow> engine" where
  "publish_trades v sd sy ts e = fold (\<lambda>t. publish_next (trade_ev v sd sy t)) ts e"

subsection \<open>The operations\<close>

definition may_rest :: "order_type \<Rightarrow> bool" where
  "may_rest t \<longleftrightarrow> t \<noteq> MARKET \<and> t \<noteq> IOC \<and> t \<noteq> FOK"

definition processOrder :: "env \<Rightarrow> order \<Rightarrow> engine \<Rightarrow> (exn + trade list) \<times> order \<times> engine" where
  "processOrder v ord e =
     (if \<not> isHealthy e then (Inr [], ord, e)
      else case tryNextPriority e of
        (None, e1) \<Rightarrow> (Inr [], ord, halt e1)
      | (Some prio, e1) \<Rightarrow>
          (case matchOrder (env_now v) (ord\<lparr>priority_seq := prio\<rparr>) (eng_book e1) of
             (Inl ex, ord', b) \<Rightarrow> (Inl ex, ord', e1\<lparr>eng_book := b\<rparr>)
           | (Inr trades, ord', b) \<Rightarrow>
               let e2 = e1\<lparr>eng_book := b\<rparr>;
                   e3 = (if eng_publisher e2 then
                           let e4 = publish_trades v (side ord') (symbol_id ord') trades e2
                           in if 0 < remaining_quantity ord' \<and> may_rest (otype ord')
                              then publish_next (accepted_ev v ord' (price ord') (quantity ord')
                                     (remaining_quantity ord') (priority_seq ord')) e4
                              else e4
                         else e2)
               in (Inr trades, ord', e3)))"

definition eng_cancelOrder :: "env \<Rightarrow> u64 \<Rightarrow> engine \<Rightarrow> bool \<times> engine" where
  "eng_cancelOrder v oid e =
     (if \<not> isHealthy e then (False, e)
      else case getOrderById oid (eng_book e) of
        None \<Rightarrow> (False, e)
      | Some old \<Rightarrow>
          (case cancelOrder oid (eng_book e) of
             (False, b) \<Rightarrow> (False, e\<lparr>eng_book := b\<rparr>)
           | (True, b) \<Rightarrow>
               let e1 = e\<lparr>eng_book := b\<rparr>
               in (True, if eng_publisher e1 then publish_next (cancelled_ev v oid old) e1 else e1)))"

text \<open>\<open>replaceOrder\<close> from the call of the book on, with the replacement's priority.\<close>

definition finish_replace ::
  "env \<Rightarrow> u64 \<Rightarrow> order \<Rightarrow> double \<Rightarrow> u32 \<Rightarrow> u64 \<Rightarrow> engine \<Rightarrow> (exn + replace_result) \<times> engine" where
  "finish_replace v oid old new_price new_qty prio e1 =
     (case replaceOrder (env_now v) (env_system v) oid new_price new_qty prio (eng_book e1) of
        (Inl ex, b) \<Rightarrow> (Inl ex, e1\<lparr>eng_book := b\<rparr>)
      | (Inr res, b) \<Rightarrow>
          let e2 = e1\<lparr>eng_book := b\<rparr> in
          if \<not> rr_success res then (Inr res, e2)
          else if \<not> eng_publisher e2 then (Inr res, e2)
          else
            let e3 = publish_next (cancelled_ev v oid old) e2;
                e4 = publish_trades v (side old) (symbol_id old) (rr_trades res) e3;
                e5 = (if 0 < new_qty \<and> 0 < rr_final_remaining res \<and> may_rest (otype old)
                      then publish_next (accepted_ev v (old\<lparr>order_id := oid\<rparr>) new_price new_qty
                             (rr_final_remaining res) prio) e4
                      else e4)
            in (Inr res, e5))"

definition eng_replaceOrder ::
  "env \<Rightarrow> u64 \<Rightarrow> double \<Rightarrow> u32 \<Rightarrow> engine \<Rightarrow> (exn + replace_result) \<times> engine" where
  "eng_replaceOrder v oid new_price new_qty e =
     (if \<not> isHealthy e then (Inr rr_fail, e)
      else case getOrderById oid (eng_book e) of
        None \<Rightarrow> (Inr rr_fail, e)
      | Some old \<Rightarrow>
          if 0 < new_qty \<and> (\<not> isfinite new_price \<or> d_le new_price (Fin 0)) then (Inr rr_fail, e)
          else
            let same_price = d_eq new_price (price old);
                quantity_increased = quantity old < new_qty;
                loses_priority = (\<not> same_price \<or> quantity_increased)
            in if 0 < new_qty \<and> loses_priority then
                 (case tryNextPriority e of
                    (None, e1) \<Rightarrow> (Inr rr_fail, halt e1)
                  | (Some prio, e1) \<Rightarrow> finish_replace v oid old new_price new_qty prio e1)
               else finish_replace v oid old new_price new_qty (priority_seq old) e)"

definition restoreOrder :: "order \<Rightarrow> u32 \<Rightarrow> engine \<Rightarrow> bool \<times> engine" where
  "restoreOrder ord rem e =
     (if otype ord \<noteq> LIMIT then (False, e)
      else if rem = 0 \<or> quantity ord < rem then (False, e)
      else if \<not> isfinite (price ord) \<or> d_le (price ord) (Fin 0) then (False, e)
      else case getOrderById (order_id ord) (eng_book e) of
        Some _ \<Rightarrow> (False, e)
      | None \<Rightarrow>
          (case addOrder (ord\<lparr>remaining_quantity := rem\<rparr>) (eng_book e) of
             (ok, b) \<Rightarrow> (ok, e\<lparr>eng_book := b\<rparr>)))"

definition restoreCancel :: "u64 \<Rightarrow> engine \<Rightarrow> bool \<times> engine" where
  "restoreCancel oid e = (case cancelOrder oid (eng_book e) of (ok, b) \<Rightarrow> (ok, e\<lparr>eng_book := b\<rparr>))"

definition eng_applyFill :: "u64 \<Rightarrow> u32 \<Rightarrow> engine \<Rightarrow> bool \<times> engine" where
  "eng_applyFill oid q e = (case applyFill oid q (eng_book e) of (ok, b) \<Rightarrow> (ok, e\<lparr>eng_book := b\<rparr>))"

definition eng_setSTPPolicy :: "stp_policy \<Rightarrow> engine \<Rightarrow> engine" where
  "eng_setSTPPolicy pol e = e\<lparr>eng_book := setSTPPolicy pol (eng_book e)\<rparr>"

subsection \<open>What publishing does\<close>

lemma nextSequence_simps [simp]:
  "eng_book (snd (nextSequence e)) = eng_book e" "eng_publisher (snd (nextSequence e)) = eng_publisher e"
  "eng_journal (snd (nextSequence e)) = eng_journal e" "eng_state (snd (nextSequence e)) = eng_state e"
  "eng_priority (snd (nextSequence e)) = eng_priority e" "eng_published (snd (nextSequence e)) = eng_published e"
  by (simp_all add: nextSequence_def split: option.splits)

lemma publish_next_simps [simp]:
  "eng_book (publish_next mk e) = eng_book e" "eng_publisher (publish_next mk e) = eng_publisher e"
  "eng_journal (publish_next mk e) = eng_journal e" "eng_state (publish_next mk e) = eng_state e"
  "eng_priority (publish_next mk e) = eng_priority e"
  "eng_published (publish_next mk e) = eng_published e @ [mk (fst (nextSequence e))]"
  "eng_sequence (publish_next mk e) = map_option (\<lambda>n. n + 1) (eng_sequence e)"
  by (simp_all add: publish_next_def case_prod_beta) (simp add: nextSequence_def split: option.splits)

lemma publish_trades_simps [simp]:
  "eng_book (publish_trades v sd sy ts e) = eng_book e" "eng_publisher (publish_trades v sd sy ts e) = eng_publisher e"
  "eng_journal (publish_trades v sd sy ts e) = eng_journal e" "eng_state (publish_trades v sd sy ts e) = eng_state e"
  "eng_priority (publish_trades v sd sy ts e) = eng_priority e"
  by (induction ts arbitrary: e) (simp_all add: publish_trades_def)

text \<open>
  The events are appended and numbered consecutively; \<open>numbered n evs\<close> says so.
\<close>

definition numbered :: "u64 \<Rightarrow> market_event list \<Rightarrow> bool" where
  "numbered n evs \<longleftrightarrow> map ev_sequence evs = map (\<lambda>i. n + of_nat i) [0..<length evs]"

definition published_by :: "engine \<Rightarrow> engine \<Rightarrow> market_event list \<Rightarrow> bool" where
  "published_by e e' evs \<longleftrightarrow> eng_published e' = eng_published e @ evs \<and>
     (\<forall>n. eng_sequence e = Some n \<longrightarrow> numbered n evs \<and> eng_sequence e' = Some (n + of_nat (length evs))) \<and>
     (eng_sequence e = None \<longrightarrow> eng_sequence e' = None)"

lemma numbered_snoc: "numbered n evs \<Longrightarrow> ev_sequence ev = n + of_nat (length evs) \<Longrightarrow> numbered n (evs @ [ev])"
  by (simp add: numbered_def)

lemma published_by_refl: "published_by e e []"
  by (simp add: published_by_def numbered_def)

lemma published_by_next:
  assumes "published_by e e' evs" "\<And>n. ev_sequence (mk n) = n"
  shows "published_by e (publish_next mk e') (evs @ [mk (fst (nextSequence e'))])"
  using assms by (auto simp: published_by_def nextSequence_def algebra_simps intro!: numbered_snoc)

lemma ev_sequence_mk [simp]:
  "ev_sequence (trade_ev v sd sy t n) = n" "ev_sequence (accepted_ev v ord p q rem prio n) = n"
  "ev_sequence (cancelled_ev v oid old n) = n"
  by (simp_all add: trade_ev_def accepted_ev_def cancelled_ev_def)

text \<open>The same trades' events, up to their sequence numbers.\<close>

definition trade_events :: "env \<Rightarrow> order_side \<Rightarrow> u32 \<Rightarrow> trade list \<Rightarrow> market_event list \<Rightarrow> bool" where
  "trade_events v sd sy ts evs \<longleftrightarrow> list_all2 (\<lambda>t ev. \<exists>n. ev = trade_ev v sd sy t n) ts evs"

lemma publish_trades_events:
  assumes "published_by e e' evs"
  obtains tes where "published_by e (publish_trades v sd sy ts e') (evs @ tes)" "trade_events v sd sy ts tes"
  using assms
proof (induction ts arbitrary: e' evs thesis)
  case Nil
  then show ?case by (auto simp: publish_trades_def trade_events_def)
next
  case (Cons t ts)
  let ?ev = "trade_ev v sd sy t (fst (nextSequence e'))"
  have "published_by e (publish_next (trade_ev v sd sy t) e') (evs @ [?ev])"
    using Cons.prems(2) by (rule published_by_next) simp
  then obtain tes where tes: "published_by e (publish_trades v sd sy ts (publish_next (trade_ev v sd sy t) e')) ((evs @ [?ev]) @ tes)"
    "trade_events v sd sy ts tes"
    using Cons.IH by blast
  then have "published_by e (publish_trades v sd sy (t # ts) e') (evs @ ?ev # tes)"
    by (simp add: publish_trades_def)
  moreover have "trade_events v sd sy (t # ts) (?ev # tes)" using tes(2) by (auto simp: trade_events_def)
  ultimately show ?case using Cons.prems(1) by blast
qed

subsection \<open>The engine's invariant\<close>

text \<open>
  The book is well-formed, the priority counter is ahead of every resting order, and within a price
  the orders are in the order of their priority numbers: time priority is priority-number
  order.
\<close>

definition prio_sorted :: "order list \<Rightarrow> bool" where
  "prio_sorted os \<longleftrightarrow> sorted_wrt (\<lambda>x y. price x = price y \<longrightarrow> priority_seq x < priority_seq y) os"

definition engine_inv :: "bool \<Rightarrow> nat \<Rightarrow> engine \<Rightarrow> bool" where
  "engine_inv fifo capacity e \<longleftrightarrow> book_wf capacity (eng_book e) \<and>
     (\<forall>sd. (fifo \<longrightarrow> prio_sorted (flat sd (eng_book e))) \<and> (\<forall>x \<in> set (flat sd (eng_book e)). priority_seq x < eng_priority e))"

abbreviation engine_wf :: "nat \<Rightarrow> engine \<Rightarrow> bool" where
  "engine_wf \<equiv> engine_inv True"

lemma engine_wf_def: "engine_wf capacity e \<longleftrightarrow> book_wf capacity (eng_book e) \<and>
    (\<forall>sd. prio_sorted (flat sd (eng_book e)) \<and> (\<forall>x \<in> set (flat sd (eng_book e)). priority_seq x < eng_priority e))"
  by (simp add: engine_inv_def)

lemma prio_sorted_map:
  "prio_sorted xs \<Longrightarrow> map price ys = map price xs \<Longrightarrow> map priority_seq ys = map priority_seq xs \<Longrightarrow> prio_sorted ys"
proof -
  assume a: "prio_sorted xs" "map price ys = map price xs" "map priority_seq ys = map priority_seq xs"
  have len: "length ys = length xs" using a(2) by (metis length_map)
  have "price (ys ! i) = price (xs ! i) \<and> priority_seq (ys ! i) = priority_seq (xs ! i)" if "i < length xs" for i
    using a(2,3) len that by (metis nth_map)
  then show "prio_sorted ys" using a(1) len by (simp add: prio_sorted_def sorted_wrt_iff_nth_less)
qed

lemma prio_sorted_filter: "prio_sorted xs \<Longrightarrow> prio_sorted (filter P xs)"
  by (simp add: prio_sorted_def sorted_wrt_filter)

lemma prio_sorted_drop: "prio_sorted xs \<Longrightarrow> prio_sorted (drop n xs)"
  by (simp add: prio_sorted_def sorted_wrt_drop)

lemma levels_price_sorted:
  "side_wf sd ls \<Longrightarrow> sorted_wrt (\<lambda>x y. price x = price y \<or> better sd (price x) (price y)) (all_orders ls)"
proof (induction ls)
  case (Cons l ls)
  have l: "\<And>x. x \<in> set (lv_orders l) \<Longrightarrow> price x = lv_price l"
    using Cons.prems by (auto simp: side_wf_Cons level_wf_def resting_ok_def)
  have "sorted_wrt (\<lambda>x y. price x = price y \<or> better sd (price x) (price y)) (lv_orders l)"
    using l by (auto simp: sorted_wrt_iff_nth_less)
  moreover have "better sd (price x) (price y)" if x: "x \<in> set (lv_orders l)" and y: "y \<in> set (all_orders ls)" for x y
  proof -
    have "side_wf sd ls" using Cons.prems by (simp add: side_wf_Cons)
    then obtain m :: level where "m \<in> set ls" "resting_ok sd (lv_price m) y"
      using y by (rule side_wf_orders) blast
    then show ?thesis using Cons.prems l [OF x] by (simp add: side_wf_Cons resting_ok_def)
  qed
  ultimately show ?case using Cons by (auto simp: sorted_wrt_append side_wf_Cons)
qed simp

lemma prio_sorted_insert:
  assumes "prio_sorted os" "\<And>x. x \<in> set os \<Longrightarrow> priority_seq x < priority_seq ord"
    and ps: "sorted_wrt (\<lambda>x y. price x = price y \<or> better (side ord) (price x) (price y)) os"
  shows "prio_sorted (insert_prio ord os)"
proof -
  let ?P = "\<lambda>x. \<not> better (side ord) (price ord) (price x)"
  let ?A = "takeWhile ?P os" and ?B = "dropWhile ?P os"
  have "prio_sorted (?A @ ?B)" using assms(1) by simp
  note s = this [unfolded prio_sorted_def sorted_wrt_append]
  have p: "sorted_wrt (\<lambda>x y. price x = price y \<or> better (side ord) (price x) (price y)) ?B"
    unfolding dropWhile_eq_drop using ps by (rule sorted_wrt_drop)
  have "better (side ord) (price ord) (price y)" if y: "y \<in> set ?B" for y
  proof -
    obtain x B where B: "?B = x # B" using y by (cases ?B) auto
    then have x: "better (side ord) (price ord) (price x)" using hd_dropWhile [of ?P os] by simp
    have "y = x \<or> price x = price y \<or> better (side ord) (price x) (price y)" using p y B by auto
    then show ?thesis using x better_trans [OF x] by (elim disjE) simp_all
  qed
  then have "price ord \<noteq> price y" if "y \<in> set ?B" for y using that better_irrefl by metis
  moreover have "priority_seq x < priority_seq ord" if "x \<in> set ?A" for x
    using that assms(2) by (auto dest: set_takeWhileD)
  ultimately show ?thesis
    using s unfolding insert_prio_def prio_sorted_def sorted_wrt_append by simp
qed

lemma swept_rest_keys:
  "\<exists>n. map (\<lambda>x. (price x, priority_seq x)) (swept_rest inc os) = drop n (map (\<lambda>x. (price x, priority_seq x)) os)"
proof -
  obtain n ys where ys: "ys = drop n os" and
    c: "swept_rest inc os = ys \<or> (\<exists>q. ys \<noteq> [] \<and> swept_rest inc os = reduce (hd ys) q # tl ys)"
    using swept_rest_tail [of os inc] by blast
  from c have "map (\<lambda>x. (price x, priority_seq x)) (swept_rest inc os) = map (\<lambda>x. (price x, priority_seq x)) ys"
    by (auto simp: neq_Nil_conv)
  then show ?thesis using ys by (auto simp: drop_map)
qed

text \<open>What a side may become without losing the invariant: some orders gone, the rest with their prices and priorities.\<close>

definition thinned :: "order list \<Rightarrow> order list \<Rightarrow> bool" where
  "thinned os os' \<longleftrightarrow> subseq (map (\<lambda>x. (price x, priority_seq x)) os') (map (\<lambda>x. (price x, priority_seq x)) os)"

lemma sorted_wrt_subseq: "subseq xs ys \<Longrightarrow> sorted_wrt P ys \<Longrightarrow> set xs \<subseteq> set ys \<and> sorted_wrt P xs"
  by (induction rule: list_emb.induct) auto

lemma thinned_keys:
  assumes "thinned os os'"
  shows "(\<lambda>x. (price x, priority_seq x)) ` set os' \<subseteq> (\<lambda>x. (price x, priority_seq x)) ` set os"
proof -
  have "sorted_wrt (\<lambda>_ _. True) ks" for ks :: "(double \<times> u64) list" by (induction ks) auto
  from sorted_wrt_subseq [OF assms [unfolded thinned_def] this] show ?thesis by simp
qed

lemma thinned_price: "thinned os os' \<Longrightarrow> price ` set os' \<subseteq> price ` set os"
  using thinned_keys [of os os'] by fastforce

lemma prio_sorted_keys:
  "prio_sorted os \<longleftrightarrow> sorted_wrt (\<lambda>x y. fst x = fst y \<longrightarrow> snd x < snd y) (map (\<lambda>x. (price x, priority_seq x)) os)"
  by (simp add: prio_sorted_def sorted_wrt_map)

lemma prio_sorted_thinned: "prio_sorted os \<Longrightarrow> thinned os os' \<Longrightarrow> prio_sorted os'"
  unfolding prio_sorted_keys thinned_def using sorted_wrt_subseq by blast

lemma thinned_bound:
  assumes "thinned os os'" "\<And>x. x \<in> set os \<Longrightarrow> priority_seq x < n" "y \<in> set os'"
  shows "priority_seq y < n"
proof -
  have "(price y, priority_seq y) \<in> (\<lambda>x. (price x, priority_seq x)) ` set os"
    using thinned_keys [OF assms(1)] assms(3) by blast
  then show ?thesis using assms(2) by auto
qed

lemma thinned_refl [simp]: "thinned os os"
  by (simp add: thinned_def)

lemma thinned_trans: "thinned a b \<Longrightarrow> thinned b c \<Longrightarrow> thinned a c"
  unfolding thinned_def by (rule subseq_order.trans)

lemma thinned_filter: "thinned os (filter P os)"
  by (simp add: thinned_def subseq_filter_left subseq_map)

lemma thinned_swept: "thinned os (swept_rest inc os)"
  using swept_rest_keys [of inc os] by (auto simp: thinned_def suffix_drop suffix_imp_subseq)

lemma thinned_stp: "thinned os (stp_flat oldest inc os)"
proof (cases oldest)
  case True
  have "subseq (remove_first P xs) xs" for P and xs :: "order list"
    by (induction xs) auto
  then show ?thesis using True by (simp add: thinned_def stp_flat_def subseq_map)
qed (simp add: stp_flat_def thinned_filter)

lemma thinned_fill: "thinned os (fill_orders oid q os)"
proof -
  let ?f = "\<lambda>x. if order_id x = oid then x\<lparr>remaining_quantity := remaining_quantity x - q\<rparr> else x"
  have "map (\<lambda>x. (price x, priority_seq x)) (map ?f os) = map (\<lambda>x. (price x, priority_seq x)) os" by simp
  then show ?thesis using thinned_filter [of "map ?f os"] by (simp only: thinned_def fill_orders_def)
qed

lemma engine_inv_thinned:
  assumes "engine_inv fifo capacity e" "book_wf capacity (eng_book e')" "eng_priority e \<le> eng_priority e'"
    "\<And>sd. thinned (flat sd (eng_book e)) (flat sd (eng_book e'))"
  shows "engine_inv fifo capacity e'"
proof -
  have "priority_seq x < eng_priority e'" if "x \<in> set (flat sd (eng_book e'))" for x sd
    using thinned_bound [OF assms(4)] that assms(1,3) by (metis engine_inv_def order_less_le_trans)
  moreover have "prio_sorted (flat sd (eng_book e'))" if fifo for sd
    using that assms(1) prio_sorted_thinned [OF _ assms(4)] by (simp add: engine_inv_def)
  ultimately show ?thesis using assms(2) by (simp add: engine_inv_def)
qed

lemma matchOrder_keys:
  assumes "book_wf capacity b" "incoming_ok inc b"
    "id_room (next_trade_id b) (length (flat (other (side inc)) b))"
    "matchOrder now inc b = (r, inc', b')"
  shows "book_wf capacity b' \<and> thinned (flat (other (side inc)) b) (flat (other (side inc)) b') \<and>
    (flat (side inc) b' = flat (side inc) b \<or>
      (\<exists>x. flat (side inc) b' = insert_prio x (flat (side inc) b) \<and> side x = side inc \<and> priority_seq x = priority_seq inc)) \<and>
    (\<exists>ts. r = Inr ts)"
  using assms
proof (cases rule: matchOrder_cases)
  case Refused
  then show ?thesis using flat_stp_remove [OF assms(1), of inc] thinned_stp by auto
next
  case (Matched b0 ts)
  have b0: "thinned (flat (other (side inc)) b) (flat (other (side inc)) b0)" "flat (side inc) b0 = flat (side inc) b"
    using Matched(6) flat_stp_remove [OF assms(1), of inc] thinned_stp by auto
  have "thinned (flat (other (side inc)) b) (flat (other (side inc)) b')"
    using Matched(2) thinned_trans [OF b0(1) thinned_swept] by (simp add: matched_def Let_def)
  moreover have "flat (side inc) b' = flat (side inc) b \<or> flat (side inc) b' = insert_prio inc' (flat (side inc) b)"
    "side inc' = side inc" "priority_seq inc' = priority_seq inc"
    using Matched(2) b0(2) by (auto simp: matched_def Let_def)
  ultimately show ?thesis using Matched(1,4) by blast
qed

text \<open>Matching an order whose priority number is above all in the book.\<close>

lemma engine_inv_match:
  assumes wf: "engine_inv fifo capacity e" and inc: "incoming_ok inc b" and b: "book_wf capacity b"
    and sub: "\<And>sd. thinned (flat sd (eng_book e)) (flat sd b)"
    and room: "id_room (next_trade_id b) (length (flat (other (side inc)) b))"
    and m: "matchOrder now inc b = (r, inc', b')" and prio: "fifo \<longrightarrow> eng_priority e \<le> priority_seq inc"
      "priority_seq inc < eng_priority e'" "eng_priority e \<le> eng_priority e'" and b': "eng_book e' = b'"
  shows "engine_inv fifo capacity e'"
proof -
  note K = matchOrder_keys [OF b inc room m, THEN conjunct1]
    matchOrder_keys [OF b inc room m, THEN conjunct2, THEN conjunct1]
    matchOrder_keys [OF b inc room m, THEN conjunct2, THEN conjunct2, THEN conjunct1]
  have bd: "priority_seq x < eng_priority e" if "x \<in> set (flat sd b)" for x sd
    using thinned_bound [OF sub _ that] wf by (simp add: engine_inv_def)
  have ps: "prio_sorted (flat sd b)" if fifo for sd
    using that wf prio_sorted_thinned [OF _ sub] by (simp add: engine_inv_def)
  have own: "(fifo \<longrightarrow> prio_sorted (flat (side inc) b')) \<and> (\<forall>x \<in> set (flat (side inc) b'). priority_seq x < eng_priority e')"
  proof (cases "flat (side inc) b' = flat (side inc) b")
    case True
    then show ?thesis using ps bd prio(3) by (metis order_less_le_trans)
  next
    case False
    then obtain x where x: "flat (side inc) b' = insert_prio x (flat (side inc) b)" "side x = side inc" "priority_seq x = priority_seq inc"
      using K(3) by blast
    have "sorted_wrt (\<lambda>u w. price u = price w \<or> better (side x) (price u) (price w)) (flat (side inc) b)"
      using levels_price_sorted [OF book_wf_side [OF b]] by (simp add: flat_def x(2))
    then have "prio_sorted (insert_prio x (flat (side inc) b))" if fifo
      using that ps bd prio(1) x(3) by (intro prio_sorted_insert) (metis order_less_le_trans)+
    then show ?thesis using x bd prio(2,3) by (auto intro: order_less_le_trans)
  qed
  have opp: "(fifo \<longrightarrow> prio_sorted (flat (other (side inc)) b')) \<and> (\<forall>x \<in> set (flat (other (side inc)) b'). priority_seq x < eng_priority e')"
    using prio_sorted_thinned [OF ps K(2)] thinned_bound [OF K(2) bd] prio(3) by (meson order_less_le_trans)
  have "(fifo \<longrightarrow> prio_sorted (flat sd b')) \<and> (\<forall>x \<in> set (flat sd b'). priority_seq x < eng_priority e')" for sd
    using own opp side_cases [of sd "side inc"] by (elim disjE) simp_all
  then show ?thesis using K(1) b' by (simp add: engine_inv_def)
qed

lemma priority_step:
  assumes "eng_priority e \<noteq> UINT64_MAX"
  shows "eng_priority e < eng_priority e + 1"
proof -
  have "unat (eng_priority e) \<noteq> 18446744073709551615" using assms by (simp add: word_unat_eq_iff)
  then have "unat (eng_priority e) + 1 < 18446744073709551616" using unat_u64_less [of "eng_priority e"] by linarith
  then show ?thesis by (simp add: word_less_nat_alt unat_add_lem [THEN iffD1])
qed

lemma tryNextPriority_Some:
  "tryNextPriority e = (Some prio, e1) \<Longrightarrow>
   prio = eng_priority e \<and> e1 = e\<lparr>eng_priority := eng_priority e + 1\<rparr> \<and> eng_priority e < eng_priority e1"
  using priority_step [of e] by (auto simp: tryNextPriority_def split: if_splits)

lemma engine_inv_cong:
  "eng_book e' = eng_book e \<Longrightarrow> eng_priority e' = eng_priority e \<Longrightarrow> engine_inv fifo capacity e' = engine_inv fifo capacity e"
  by (simp add: engine_inv_def)

lemma incoming_ok_prio [simp]: "incoming_ok (ord\<lparr>priority_seq := prio\<rparr>) b = incoming_ok ord b"
  by (simp add: incoming_ok_def)

text \<open>Every outcome of \<open>processOrder\<close> on an engine that satisfies the invariant.\<close>

lemma processOrder_wf:
  assumes wf: "engine_inv fifo capacity e" and inc: "incoming_ok ord (eng_book e)"
    and room: "id_room (next_trade_id (eng_book e)) (length (flat (other (side ord)) (eng_book e)))"
    and p: "processOrder v ord e = (r, ord', e')"
  shows "engine_inv fifo capacity e'" and "\<exists>ts. r = Inr ts" and "uncrossed (eng_book e) \<Longrightarrow> uncrossed (eng_book e')"
proof (atomize (full), cases "isHealthy e \<and> eng_priority e \<noteq> UINT64_MAX")
  case True
  let ?ord = "ord\<lparr>priority_seq := eng_priority e\<rparr>"
  have t: "tryNextPriority e = (Some (eng_priority e), e\<lparr>eng_priority := eng_priority e + 1\<rparr>)"
    using True by (simp add: tryNextPriority_def)
  obtain r2 ord2 b2 where m: "matchOrder (env_now v) ?ord (eng_book e) = (r2, ord2, b2)"
    by (cases "matchOrder (env_now v) ?ord (eng_book e)") auto
  have bw: "book_wf capacity (eng_book e)" using wf by (simp add: engine_inv_def)
  have inc': "incoming_ok ?ord (eng_book e)" using inc by simp
  have room': "id_room (next_trade_id (eng_book e)) (length (flat (other (side ?ord)) (eng_book e)))"
    using room by simp
  obtain ts where ts: "r2 = Inr ts" using matchOrder_keys [OF bw inc' room' m] by blast
  have e': "eng_book e' = b2" "eng_priority e' = eng_priority e + 1" "r = Inr ts"
    using p True t m ts by (auto simp: processOrder_def Let_def split: if_splits)
  have "engine_inv fifo capacity e'"
    using priority_step [of e] True e' by (intro engine_inv_match [OF wf inc' bw _ room' m]) simp_all
  moreover have "uncrossed (eng_book e) \<longrightarrow> uncrossed (eng_book e')"
    using uncrossed_after_match [OF bw inc' room' m] e' by simp
  ultimately show "engine_inv fifo capacity e' \<and> (\<exists>ts. r = Inr ts) \<and> (uncrossed (eng_book e) \<longrightarrow> uncrossed (eng_book e'))"
    using e' by simp
next
  case False
  then have "e' = e \<or> e' = halt e" "r = Inr []"
    using p by (auto simp: processOrder_def tryNextPriority_def split: if_splits)
  moreover have "engine_inv fifo capacity (halt e)" using wf by (simp add: halt_def engine_inv_def)
  ultimately show "engine_inv fifo capacity e' \<and> (\<exists>ts. r = Inr ts) \<and> (uncrossed (eng_book e) \<longrightarrow> uncrossed (eng_book e'))"
    using wf by (auto simp: halt_def)
qed

lemma uncrossed_thinned:
  assumes "book_wf capacity b" "book_wf capacity b'" "\<And>sd. thinned (flat sd b) (flat sd b')" "uncrossed b"
  shows "uncrossed b'"
proof -
  have "price ` set (flat sd b') \<subseteq> price ` set (flat sd b)" for sd using assms(3) by (rule thinned_price)
  moreover have "\<forall>p \<in> price ` set (flat BUY b). \<forall>q \<in> price ` set (flat SELL b). d_lt p q"
    using assms(4) by (simp add: uncrossed_flat [OF assms(1)])
  ultimately have "\<forall>p \<in> price ` set (flat BUY b'). \<forall>q \<in> price ` set (flat SELL b'). d_lt p q"
    by (meson subsetD)
  then show ?thesis by (simp add: uncrossed_flat [OF assms(2)])
qed

lemma cancelOrder_thinned:
  assumes "book_wf capacity b"
  shows "book_wf capacity (snd (cancelOrder oid b))" "thinned (flat sd b) (flat sd (snd (cancelOrder oid b)))"
  by (rule cancelOrder_effect [OF assms, of oid]; simp add: thinned_filter)+

lemma engine_inv_cancelled:
  assumes "engine_inv fifo capacity e" "eng_book e' = snd (cancelOrder oid (eng_book e))" "eng_priority e \<le> eng_priority e'"
  shows "engine_inv fifo capacity e'" and "uncrossed (eng_book e) \<Longrightarrow> uncrossed (eng_book e')"
proof -
  have bw: "book_wf capacity (eng_book e)" using assms(1) by (simp add: engine_inv_def)
  note C = cancelOrder_thinned [OF bw, where oid = oid]
  show "engine_inv fifo capacity e'"
    by (rule engine_inv_thinned [OF assms(1)]) (simp_all add: C assms(2,3))
  show "uncrossed (eng_book e')" if "uncrossed (eng_book e)"
    by (rule uncrossed_thinned [OF bw _ _ that]) (simp_all add: C assms(2))
qed

lemma cancelOrder_snd: "fst (cancelOrder oid b) = False \<Longrightarrow> snd (cancelOrder oid b) = b"
  by (auto simp: cancelOrder_locate split: option.splits)

lemma eng_cancelOrder_wf:
  assumes "engine_inv fifo capacity e" "eng_cancelOrder v oid e = (ok, e')"
  shows "engine_inv fifo capacity e'" and "uncrossed (eng_book e) \<Longrightarrow> uncrossed (eng_book e')"
proof -
  have "eng_priority e' = eng_priority e \<and> (eng_book e' = eng_book e \<or> eng_book e' = snd (cancelOrder oid (eng_book e)))"
    using assms(2) by (auto simp: eng_cancelOrder_def Let_def split: if_splits option.splits prod.splits bool.splits)
  then show "engine_inv fifo capacity e'" "uncrossed (eng_book e) \<Longrightarrow> uncrossed (eng_book e')"
    using engine_inv_cong [of e' e fifo capacity] engine_inv_cancelled [OF assms(1), of e' oid] assms(1) by auto
qed

lemma replace_room:
  assumes "book_wf capacity b" "id_room (next_trade_id b) (length (book_orders b))"
  shows "id_room (next_trade_id (snd (cancelOrder oid b))) (length (flat sd (snd (cancelOrder oid b))))"
proof (rule cancelOrder_effect [OF assms(1), of oid])
  fix b' assume "cancelOrder oid b = (oid \<in> set (ids (book_orders b)), b')" "next_trade_id b' = next_trade_id b"
    "\<And>sd. flat sd b' = filter (\<lambda>y. order_id y \<noteq> oid) (flat sd b)"
  moreover have "length (filter (\<lambda>y. order_id y \<noteq> oid) (flat sd b)) \<le> length (book_orders b)"
    using length_filter_le [of _ "flat sd b"] length_book_orders [of b sd] by (metis le_add1 le_trans)
  ultimately show ?thesis using id_room_mono [OF assms(2)] by simp
qed

text \<open>An amendment in place keeps every price and every priority.\<close>

lemma amend_thinned:
  assumes wf: "book_wf capacity b" and loc: "locate oid b = Some (sd, i, j)"
    and old: "getOrderById oid b = Some old" and q: "\<not> q < quantity old - remaining_quantity old"
    and b': "b' = set_side_levels sd (put_order i j (amended sysnow q old) (side_levels sd b)) (pool_free b) b"
  shows "thinned (flat sd' b) (flat sd' b')"
proof -
  have "flat sd' b' = map (\<lambda>x. if order_id x = oid then amended sysnow q old else x) (flat sd' b)"
    using arg_cong [OF amend_refines(2) [OF wf loc old q b'], of "\<lambda>a. ab_side a sd'"] by (simp add: set_sides_def)
  moreover have "z = old" if "z \<in> set (flat sd' b)" "order_id z = oid" for z
    using that getOrderById_Some [OF wf, of oid z] old set_book_orders [of b sd'] by simp
  ultimately have "map (\<lambda>x. (price x, priority_seq x)) (flat sd' b') = map (\<lambda>x. (price x, priority_seq x)) (flat sd' b)"
    by (auto simp: amended_def)
  then show ?thesis by (simp add: thinned_def)
qed

text \<open>The outcomes of the book's \<open>replaceOrder\<close> for a resting order.\<close>

lemma replaceOrder_outcomes:
  assumes wf: "book_wf capacity b" and old: "getOrderById oid b = Some old"
    and r: "replaceOrder now sysnow oid p q seq b = (r, b')"
  obtains (Kept) "b' = b" "\<exists>res. r = Inr res"
  | (Erased) "b' = snd (cancelOrder oid b)" "\<exists>res. r = Inr res"
  | (Amended) "book_wf capacity b'" "\<And>sd. thinned (flat sd b) (flat sd b')" "\<exists>res. r = Inr res"
  | (Matched) r2 new' where "q \<noteq> 0" "\<not> (p = price old \<and> q < quantity old)"
      "incoming_ok (replacement sysnow p q seq old) (snd (cancelOrder oid b))"
      "matchOrder now (replacement sysnow p q seq old) (snd (cancelOrder oid b)) = (r2, new', b')"
      "(\<exists>ts. r2 = Inr ts) \<Longrightarrow> \<exists>res. r = Inr res"
proof (cases "0 < q \<and> \<not> pos_finite p")
  case True
  then have "replaceOrder now sysnow oid p q seq b = (Inr rr_fail, b)"
    unfolding replaceOrder_locate not_pos_finite by simp
  then show thesis using r Kept by simp
next
  case False
  then have p: "q \<noteq> 0 \<Longrightarrow> pos_finite p" by (auto simp: word_neq_0_conv)
  obtain sd i j where loc: "locate oid b = Some (sd, i, j)" using old by (auto simp: getOrderById_locate)
  have rep: "replaceOrder now sysnow oid p q seq b = replaceInLevel now sysnow oid p q seq sd i j b"
    unfolding replaceOrder_locate not_pos_finite using loc False by auto
  note cs = replaceInLevel_cases [where now = now and sysnow = sysnow and seq = seq and q = q, OF wf loc old p]
  consider "0 < q" "q < quantity old - remaining_quantity old"
    | "q = 0"
    | "q \<noteq> 0" "\<not> q < quantity old - remaining_quantity old" "p = price old" "q < quantity old"
    | "q \<noteq> 0" "\<not> q < quantity old - remaining_quantity old" "\<not> (p = price old \<and> q < quantity old)"
        "remaining_quantity (replacement sysnow p q seq old) = 0"
    | "q \<noteq> 0" "\<not> q < quantity old - remaining_quantity old" "\<not> (p = price old \<and> q < quantity old)"
        "remaining_quantity (replacement sysnow p q seq old) \<noteq> 0"
    using word_neq_0_conv by blast
  then show thesis
  proof cases
    case 3
    define c where "c = set_side_levels sd (put_order i j (amended sysnow q old) (side_levels sd b)) (pool_free b) b"
    have "b' = c" "\<exists>res. r = Inr res" using r rep cs 3 by (simp_all add: c_def)
    then show thesis using Amended amend_refines(1) [OF wf loc old 3(2) c_def] amend_thinned [OF wf loc old 3(2) c_def] by blast
  next
    case 5
    obtain r2 new' b2 where m: "matchOrder now (replacement sysnow p q seq old) (snd (cancelOrder oid b)) = (r2, new', b2)"
      by (cases "matchOrder now (replacement sysnow p q seq old) (snd (cancelOrder oid b))") auto
    have "b2 = b'" "(\<exists>ts. r2 = Inr ts) \<Longrightarrow> \<exists>res. r = Inr res"
      using r rep cs 5 m by (auto split: sum.splits)
    then show thesis using Matched [of r2 new'] m 5 replacement_ok [OF wf old p [OF 5(1)] 5(2,4)] by blast
  qed (use r rep cs Kept Erased in auto)
qed

lemma replacement_simps [simp]:
  "side (replacement sysnow p q seq old) = side old" "priority_seq (replacement sysnow p q seq old) = seq"
  "symbol_id (replacement sysnow p q seq old) = symbol_id old" "otype (replacement sysnow p q seq old) = otype old"
  by (simp_all add: replacement_def)

lemma finish_replace_book:
  assumes "finish_replace v oid old p q prio e1 = (r, e')"
    "replaceOrder (env_now v) (env_system v) oid p q prio (eng_book e1) = (rb, b2)"
  shows "eng_book e' = b2" and "eng_priority e' = eng_priority e1" and "(\<exists>res. rb = Inr res) \<Longrightarrow> \<exists>res. r = Inr res"
  using assms by (auto simp: finish_replace_def Let_def split: sum.splits if_splits)

text \<open>A replacement that is in place, or has a priority number below the counter and, to keep the order, above all in the book.\<close>

lemma finish_replace_wf:
  assumes wf: "engine_inv fifo capacity e" and room: "id_room (next_trade_id (eng_book e)) (length (book_orders (eng_book e)))"
    and old: "getOrderById oid (eng_book e) = Some old" and f: "finish_replace v oid old p q prio e1 = (r, e')"
    and e1: "eng_book e1 = eng_book e" "eng_priority e \<le> eng_priority e1"
    and fresh: "q \<noteq> 0 \<Longrightarrow> \<not> (p = price old \<and> q < quantity old) \<Longrightarrow> (fifo \<longrightarrow> eng_priority e \<le> prio) \<and> prio < eng_priority e1"
  shows "engine_inv fifo capacity e' \<and> (\<exists>res. r = Inr res) \<and> (uncrossed (eng_book e) \<longrightarrow> uncrossed (eng_book e'))"
proof -
  have bw: "book_wf capacity (eng_book e)" using wf by (simp add: engine_inv_def)
  obtain rb b2 where m: "replaceOrder (env_now v) (env_system v) oid p q prio (eng_book e) = (rb, b2)" by fastforce
  note e' = finish_replace_book [OF f, unfolded e1(1), OF m]
  from bw old m show ?thesis
  proof (cases rule: replaceOrder_outcomes)
    case Kept
    then show ?thesis using engine_inv_thinned [OF wf, of e'] e' e1 bw by simp
  next
    case Erased
    then show ?thesis using engine_inv_cancelled [OF wf, of e' oid] e' e1 by simp
  next
    case Amended
    have "engine_inv fifo capacity e'"
      by (rule engine_inv_thinned [OF wf]) (use Amended e' e1 in simp_all)
    moreover have "uncrossed (eng_book e')" if "uncrossed (eng_book e)"
      by (rule uncrossed_thinned [OF bw _ _ that]) (use Amended e' in simp_all)
    ultimately show ?thesis using Amended(3) e'(3) by simp
  next
    case (Matched r2 new')
    let ?new = "replacement (env_system v) p q prio old" and ?bc = "snd (cancelOrder oid (eng_book e))"
    note C = cancelOrder_thinned [OF bw, where oid = oid]
    have rm: "id_room (next_trade_id ?bc) (length (flat (other (side ?new)) ?bc))"
      using replace_room [OF bw room, of oid "other (side ?new)"] by simp
    have ew: "engine_inv fifo capacity e'"
      using fresh [OF Matched(1,2)] e' e1(2)
      by (intro engine_inv_match [OF wf Matched(3) C(1) C(2) rm Matched(4)]) simp_all
    have "uncrossed (eng_book e')" if u: "uncrossed (eng_book e)"
    proof -
      have "uncrossed ?bc" using uncrossed_thinned [OF bw C(1) C(2) u] .
      then show ?thesis using uncrossed_after_match [OF C(1) Matched(3) rm Matched(4)] e'(1) by simp
    qed
    moreover have "\<exists>res. r = Inr res"
      using matchOrder_keys [OF C(1) Matched(3) rm Matched(4)] Matched(5) e'(3) by blast
    ultimately show ?thesis using ew by simp
  qed
qed

lemma resting_priority:
  assumes "engine_inv fifo capacity e" "getOrderById oid (eng_book e) = Some old"
  shows "priority_seq old < eng_priority e"
proof -
  have bw: "book_wf capacity (eng_book e)" using assms(1) by (simp add: engine_inv_def)
  have "old \<in> set (book_orders (eng_book e))" using getOrderById_Some [OF bw, of oid old] assms(2) by blast
  then obtain sd where "old \<in> set (flat sd (eng_book e))" using set_book_orders [of "eng_book e" BUY] by blast
  then show ?thesis using assms(1) by (simp add: engine_inv_def)
qed

lemma eng_replaceOrder_wf:
  assumes wf: "engine_inv fifo capacity e" and room: "id_room (next_trade_id (eng_book e)) (length (book_orders (eng_book e)))"
    and diff: "\<And>old. fifo \<Longrightarrow> getOrderById oid (eng_book e) = Some old \<Longrightarrow> \<not> (p = price old \<and> q = quantity old)"
    and rep: "eng_replaceOrder v oid p q e = (r, e')"
  shows "engine_inv fifo capacity e' \<and> (\<exists>res. r = Inr res) \<and> (uncrossed (eng_book e) \<longrightarrow> uncrossed (eng_book e'))"
proof -
  note D = rep [unfolded eng_replaceOrder_def not_pos_finite Let_def]
  consider (fail) "e' = e \<or> e' = halt e" "r = Inr rr_fail"
    | (fin) old prio e1 where "getOrderById oid (eng_book e) = Some old" "finish_replace v oid old p q prio e1 = (r, e')"
        "q \<noteq> 0 \<longrightarrow> pos_finite p"
        "if 0 < q \<and> (\<not> d_eq p (price old) \<or> quantity old < q) then tryNextPriority e = (Some prio, e1)
         else prio = priority_seq old \<and> e1 = e"
    using D by (auto simp: word_neq_0_conv tryNextPriority_def split: if_splits option.splits)
  then show ?thesis
  proof cases
    case fail
    moreover have "engine_inv fifo capacity (halt e)" using wf by (simp add: halt_def engine_inv_def)
    ultimately show ?thesis using wf by (auto simp: halt_def)
  next
    case (fin old prio e1)
    have e1: "eng_book e1 = eng_book e" "eng_priority e \<le> eng_priority e1"
      using fin(4) tryNextPriority_Some [of e prio e1] by (auto split: if_splits)
    have "priority_seq old < eng_priority e" using resting_priority [OF wf fin(1)] .
    then have "prio < eng_priority e1" using fin(4) tryNextPriority_Some [of e prio e1] by (auto split: if_splits)
    moreover have "eng_priority e \<le> prio" if fifo "q \<noteq> 0" "\<not> (p = price old \<and> q < quantity old)"
    proof -
      have "isfinite p" using fin(3) that(2) by (simp add: pos_finite_isfinite)
      then have "\<not> d_eq p (price old) \<or> quantity old < q"
        using that(3) diff [OF that(1) fin(1)] by (auto simp: d_eq_Fin_iff not_less order.order_iff_strict)
      then show ?thesis using fin(4) that(2) tryNextPriority_Some [of e prio e1] by (auto simp: word_neq_0_conv)
    qed
    ultimately have "(fifo \<longrightarrow> eng_priority e \<le> prio) \<and> prio < eng_priority e1" if "q \<noteq> 0" "\<not> (p = price old \<and> q < quantity old)"
      using that by blast
    then show ?thesis by (rule finish_replace_wf [OF wf room fin(1,2) e1])
  qed
qed

end
