(* ===== verification/Engine_Properties.thy ===== *)
theory Engine_Properties
  imports Matching_Engine
begin

text \<open>
  The matching engine as a state machine: its reachable states, fail-stop, the events it
  publishes, and the cases where what it publishes is not what it did.
\<close>

subsection \<open>Steps and reachable states\<close>

text \<open>
  The calls a client can make, in any order. An order must be validated and its identifier not in use;
  trade identifiers must not be used up. With \<open>fifo\<close>, every replacement changes the price or the
  quantity: replacing an order by itself costs it its place (\<open>replace_unchanged_loses_place\<close> below). The journal's health and the wiring
  may change at any time.
\<close>

inductive engine_step :: "bool \<Rightarrow> engine \<Rightarrow> engine \<Rightarrow> bool" for fifo where
  process: "incoming_ok ord (eng_book e) \<Longrightarrow>
     id_room (next_trade_id (eng_book e)) (length (flat (other (side ord)) (eng_book e))) \<Longrightarrow>
     processOrder v ord e = (r, ord', e') \<Longrightarrow> engine_step fifo e e'"
| cancel: "eng_cancelOrder v oid e = (ok, e') \<Longrightarrow> engine_step fifo e e'"
| replace: "id_room (next_trade_id (eng_book e)) (length (book_orders (eng_book e))) \<Longrightarrow>
     (\<And>old. fifo \<Longrightarrow> getOrderById oid (eng_book e) = Some old \<Longrightarrow> \<not> (p = price old \<and> q = quantity old)) \<Longrightarrow>
     eng_replaceOrder v oid p q e = (rr, e') \<Longrightarrow> engine_step fifo e e'"
| policy: "engine_step fifo e (eng_setSTPPolicy pol e)"
| wiring: "engine_step fifo e (e\<lparr>eng_publisher := pb, eng_sequence := sq, eng_journal := j\<rparr>)"
| seed: "engine_step fifo e (seedSequence n e)"
| seed_priority: "seedPrioritySequence n e = (ok, e') \<Longrightarrow> engine_step fifo e e'"
| begin_recovery: "engine_step fifo e (beginRecovery e)"
| mark_ready: "markReady e = (ok, e') \<Longrightarrow> engine_step fifo e e'"
| halt: "engine_step fifo e (halt e)"

inductive_cases engine_stepE: "engine_step fifo e e'"

lemma engine_wf_new: "engine_wf capacity (MatchingEngine capacity)"
  using book_wf_OrderBook [of capacity]
  by (simp add: engine_wf_def MatchingEngine_def flat_def side_levels_def OrderBook_def prio_sorted_def)

lemma engine_inv_priority:
  assumes "engine_inv fifo capacity e" "eng_book e' = eng_book e" "eng_priority e \<le> eng_priority e'"
  shows "engine_inv fifo capacity e'"
  using assms engine_inv_thinned [OF assms(1), of e'] by (simp add: engine_inv_def)

lemma engine_step_wf:
  assumes "engine_step fifo e e'" "engine_inv fifo capacity e"
  shows "engine_inv fifo capacity e' \<and> (uncrossed (eng_book e) \<longrightarrow> uncrossed (eng_book e'))"
  using assms
proof (induction rule: engine_step.induct)
  case (process ord e v r ord' e')
  then show ?case using processOrder_wf [OF process(4,1,2,3)] by blast
next
  case (cancel v oid e ok e')
  then show ?case using eng_cancelOrder_wf by blast
next
  case (replace e oid p q v rr e')
  then show ?case using eng_replaceOrder_wf [OF replace(4,1) _ replace(3)] by blast
next
  case (policy e pol)
  have "flat sd (eng_book (eng_setSTPPolicy pol e)) = flat sd (eng_book e)" for sd
    by (simp add: eng_setSTPPolicy_def setSTPPolicy_def)
  then show ?case
    using policy by (simp add: engine_inv_def) (simp add: eng_setSTPPolicy_def setSTPPolicy_def uncrossed_def)
next
  case (wiring e pb sq j)
  then show ?case by (simp add: engine_inv_def)
next
  case (seed e n)
  then show ?case by (simp add: engine_inv_def seedSequence_def split: option.splits)
next
  case (seed_priority n e ok e')
  then have "eng_book e' = eng_book e" "eng_priority e \<le> eng_priority e'"
    by (auto simp: seedPrioritySequence_def not_less split: if_splits)
  then show ?case using seed_priority engine_inv_priority by auto
next
  case (begin_recovery e)
  then show ?case by (simp add: engine_inv_def beginRecovery_def)
next
  case (mark_ready e ok e')
  then show ?case by (auto simp: engine_inv_def markReady_def split: if_splits)
next
  case (halt e)
  then show ?case by (simp add: engine_inv_def halt_def)
qed

text \<open>
  Recovery and the feed of fills also cancel and fill resting orders directly, whatever the engine's state. (Orders
  are restored only into an engine that starts empty; that replay keeps these invariants is part of \<open>Event_Replay\<close>.)
\<close>

inductive engine_call :: "bool \<Rightarrow> engine \<Rightarrow> engine \<Rightarrow> bool" for fifo where
  entry: "engine_step fifo e e' \<Longrightarrow> engine_call fifo e e'"
| restore_cancel: "restoreCancel oid e = (ok, e') \<Longrightarrow> engine_call fifo e e'"
| apply_fill: "eng_applyFill oid q e = (ok, e') \<Longrightarrow> engine_call fifo e e'"

lemma applyFill_thinned:
  assumes "book_wf capacity b"
  shows "book_wf capacity (snd (applyFill oid q b))" "thinned (flat sd b) (flat sd (snd (applyFill oid q b)))"
proof -
  have "book_wf capacity (snd (applyFill oid q b)) \<and> thinned (flat sd b) (flat sd (snd (applyFill oid q b)))"
  proof (rule applyFill_effect [OF assms, of oid q])
    fix b' assume b': "applyFill oid q b = (0 < q \<and> (\<exists>x. getOrderById oid b = Some x \<and> q \<le> remaining_quantity x), b')" "book_wf capacity b'"
      and *: "fst (applyFill oid q b) \<Longrightarrow> \<forall>sd. flat sd b' = fill_orders oid q (flat sd b)" "\<not> fst (applyFill oid q b) \<Longrightarrow> b' = b"
    have "thinned (flat sd b) (flat sd b')" using * by (cases "fst (applyFill oid q b)") (simp_all add: thinned_fill)
    then show ?thesis using b' by simp
  qed
  then show "book_wf capacity (snd (applyFill oid q b))" "thinned (flat sd b) (flat sd (snd (applyFill oid q b)))" by auto
qed

lemma engine_call_wf:
  assumes "engine_call fifo e e'" "engine_inv fifo capacity e"
  shows "engine_inv fifo capacity e' \<and> (uncrossed (eng_book e) \<longrightarrow> uncrossed (eng_book e'))"
  using assms
proof (induction rule: engine_call.induct)
  case (entry e e')
  then show ?case by (rule engine_step_wf)
next
  case (restore_cancel oid e ok e')
  then have "e' = e\<lparr>eng_book := snd (cancelOrder oid (eng_book e))\<rparr>" by (auto simp: restoreCancel_def split: prod.splits)
  then show ?case using engine_inv_cancelled [OF restore_cancel(2), of e' oid] by simp
next
  case (apply_fill oid q e ok e')
  then have e': "e' = e\<lparr>eng_book := snd (applyFill oid q (eng_book e))\<rparr>" by (auto simp: eng_applyFill_def split: prod.splits)
  have bw: "book_wf capacity (eng_book e)" using apply_fill(2) by (simp add: engine_inv_def)
  note F = applyFill_thinned [OF bw, where oid = oid and q = q]
  have "engine_inv fifo capacity e'" by (rule engine_inv_thinned [OF apply_fill(2)]) (simp_all add: e' F)
  then show ?case using uncrossed_thinned [OF bw F] by (simp add: e')
qed

lemma reachable_wf:
  assumes "(engine_call fifo)\<^sup>*\<^sup>* e e'" "engine_inv fifo capacity e" "uncrossed (eng_book e)"
  shows "engine_inv fifo capacity e' \<and> uncrossed (eng_book e')"
  using assms by (induction rule: rtranclp_induct) (use engine_call_wf in blast)+

text \<open>
  C2. In every state the engine can reach by order entry (validated orders with unused identifiers, cancellations, replacements of any kind),
  lifecycle calls, restored cancellations and fills, the book is well-formed (levels strictly sorted, no
  empty level, every identifier at most once, slots accounted for), it is not crossed, and the
  priority counter is above every resting order's number. As long as no order was replaced by itself (same price, same quantity), the orders of each price
  are in the order of their priority numbers: first come, first served.
\<close>

theorem reachable_engine_invariant:
  assumes "(engine_call fifo)\<^sup>*\<^sup>* (MatchingEngine capacity) e"
  shows "book_wf capacity (eng_book e) \<and> uncrossed (eng_book e) \<and>
    (\<forall>sd. \<forall>x \<in> set (flat sd (eng_book e)). priority_seq x < eng_priority e) \<and>
    (fifo \<longrightarrow> (\<forall>sd. prio_sorted (flat sd (eng_book e))))"
proof -
  have "engine_inv fifo capacity (MatchingEngine capacity)" using engine_wf_new by (simp add: engine_inv_def)
  moreover have "uncrossed (eng_book (MatchingEngine capacity))" by (simp add: MatchingEngine_def OrderBook_def uncrossed_def)
  ultimately have "engine_inv fifo capacity e \<and> uncrossed (eng_book e)" by (rule reachable_wf [OF assms])
  then show ?thesis by (auto simp: engine_inv_def)
qed

definition ex_env :: env where
  "ex_env = \<lparr>env_now = ex_now, env_system = 7, env_epoch = 1, env_ub = (\<lambda>_. 0)\<rparr>"

lemma ex_processed_reach:
  "(engine_call fifo)\<^sup>*\<^sup>* (MatchingEngine 100) (snd (snd (processOrder ex_env (ex_buy LIMIT 40 12) (MatchingEngine 100))))"
proof (rule r_into_rtranclp, rule engine_call.entry, rule engine_step.process)
  show "incoming_ok (ex_buy LIMIT 40 12) (eng_book (MatchingEngine 100))"
    by (simp add: incoming_ok_def ex_order_def MatchingEngine_def OrderBook_def book_orders_def)
  show "id_room (next_trade_id (eng_book (MatchingEngine 100)))
      (length (flat (other (side (ex_buy LIMIT 40 12))) (eng_book (MatchingEngine 100))))"
    by (simp add: MatchingEngine_def OrderBook_def flat_def side_levels_def ex_order_def)
  show "processOrder ex_env (ex_buy LIMIT 40 12) (MatchingEngine 100) =
      (fst (processOrder ex_env (ex_buy LIMIT 40 12) (MatchingEngine 100)),
       fst (snd (processOrder ex_env (ex_buy LIMIT 40 12) (MatchingEngine 100))),
       snd (snd (processOrder ex_env (ex_buy LIMIT 40 12) (MatchingEngine 100))))"
    by simp
qed

theorem reachable_engine_invariant_witness:
  "book_wf 100 (eng_book (snd (snd (processOrder ex_env (ex_buy LIMIT 40 12) (MatchingEngine 100))))) \<and>
   uncrossed (eng_book (snd (snd (processOrder ex_env (ex_buy LIMIT 40 12) (MatchingEngine 100))))) \<and>
   prio_sorted (flat BUY (eng_book (snd (snd (processOrder ex_env (ex_buy LIMIT 40 12) (MatchingEngine 100))))))"
  using reachable_engine_invariant [OF ex_processed_reach [of True]] by simp

subsection \<open>Fail-stop\<close>

lemma unhealthy_ops:
  assumes "\<not> isHealthy e"
  shows "processOrder v ord e = (Inr [], ord, e)" and "eng_cancelOrder v oid e = (False, e)"
    and "eng_replaceOrder v oid p q e = (Inr rr_fail, e)"
  using assms by (simp_all add: processOrder_def eng_cancelOrder_def eng_replaceOrder_def)

lemma halted_step: "engine_step fifo e e' \<Longrightarrow> eng_state e = HALTED \<Longrightarrow> eng_state e' = HALTED \<and> flat sd (eng_book e') = flat sd (eng_book e)"
proof (induction rule: engine_step.induct)
  case (process ord e v r ord' e')
  then show ?case using unhealthy_ops(1) [of e v ord] by (simp add: isHealthy_def)
next
  case (cancel v oid e ok e')
  then show ?case using unhealthy_ops(2) [of e v oid] by (simp add: isHealthy_def)
next
  case (replace e oid p q v rr e')
  then show ?case using unhealthy_ops(3) [of e v oid p q] by (simp add: isHealthy_def)
qed (auto simp: eng_setSTPPolicy_def setSTPPolicy_def seedSequence_def seedPrioritySequence_def beginRecovery_def
    markReady_def halt_def split: option.splits if_splits)

text \<open>
  Fail-stop is final: whatever calls follow, a halted engine stays halted and no order
  enters, leaves or changes in its book.
\<close>

theorem halted_is_final:
  assumes "(engine_step fifo)\<^sup>*\<^sup>* e e'" "eng_state e = HALTED"
  shows "eng_state e' = HALTED \<and> flat sd (eng_book e') = flat sd (eng_book e)"
  using assms by (induction rule: rtranclp_induct) (use halted_step in metis)+

theorem halted_is_final_witness:
  "eng_state (beginRecovery (halt (MatchingEngine 8))) = HALTED \<and>
   flat BUY (eng_book (beginRecovery (halt (MatchingEngine 8)))) = flat BUY (eng_book (halt (MatchingEngine 8)))"
  by (rule halted_is_final [of False]) (auto simp: halt_def intro: engine_step.begin_recovery)

subsection \<open>What is published\<close>

lemma process_events:
  assumes "isHealthy e" "eng_publisher e" "eng_priority e \<noteq> UINT64_MAX"
    "processOrder v ord e = (Inr ts, ord', e')"
  shows "\<exists>tes n. trade_events v (side ord') (symbol_id ord') ts tes \<and>
    published_by e e' (tes @ (if 0 < remaining_quantity ord' \<and> may_rest (otype ord')
      then [accepted_ev v ord' (price ord') (quantity ord') (remaining_quantity ord') (priority_seq ord') n] else []))"
proof -
  obtain b where m: "matchOrder (env_now v) (ord\<lparr>priority_seq := eng_priority e\<rparr>) (eng_book e) = (Inr ts, ord', b)"
    using assms by (auto simp: processOrder_def tryNextPriority_def Let_def split: prod.splits sum.splits)
  define e2 where "e2 = e\<lparr>eng_priority := eng_priority e + 1, eng_book := b\<rparr>"
  let ?e4 = "publish_trades v (side ord') (symbol_id ord') ts e2"
  let ?acc = "accepted_ev v ord' (price ord') (quantity ord') (remaining_quantity ord') (priority_seq ord')"
  have e': "e' = (if 0 < remaining_quantity ord' \<and> may_rest (otype ord') then publish_next ?acc ?e4 else ?e4)"
    using assms m by (auto simp: processOrder_def tryNextPriority_def Let_def e2_def)
  have p2: "published_by e e2 []" by (simp add: published_by_def e2_def numbered_def)
  obtain tes where tes: "published_by e ?e4 ([] @ tes)" "trade_events v (side ord') (symbol_id ord') ts tes"
    using publish_trades_events [OF p2] .
  have "published_by e (publish_next ?acc ?e4) (tes @ [?acc (fst (nextSequence ?e4))])"
    using tes(1) by (intro published_by_next) simp_all
  then show ?thesis
    using tes e' by (intro exI [of _ tes] exI [of _ "fst (nextSequence ?e4)"]) simp
qed

text \<open>
  C15. On a healthy engine with a publisher, \<open>processOrder\<close> publishes one trade event per trade, in
  the order of the trades, then an acceptance exactly when a limit order has a remainder; the
  events are numbered consecutively from the event counter, which is advanced past them.
\<close>

theorem processOrder_publishes:
  assumes "isHealthy e" "eng_publisher e" "eng_priority e \<noteq> UINT64_MAX"
    "processOrder v ord e = (Inr ts, ord', e')"
  shows "\<exists>tes n. trade_events v (side ord') (symbol_id ord') ts tes \<and>
    published_by e e' (tes @ (if 0 < remaining_quantity ord' \<and> may_rest (otype ord')
      then [accepted_ev v ord' (price ord') (quantity ord') (remaining_quantity ord') (priority_seq ord') n] else []))"
  using process_events [OF assms] .

abbreviation ex_engine :: "nat \<Rightarrow> engine" where
  "ex_engine cap \<equiv> (MatchingEngine cap)\<lparr>eng_publisher := True, eng_sequence := Some 1\<rparr>"

theorem processOrder_publishes_witness:
  "\<exists>ts ord' e' tes n. processOrder ex_env (ex_buy LIMIT 40 12) (ex_engine 100) = (Inr ts, ord', e') \<and>
    trade_events ex_env (side ord') (symbol_id ord') ts tes \<and>
    published_by (ex_engine 100) e' (tes @ (if 0 < remaining_quantity ord' \<and> may_rest (otype ord')
      then [accepted_ev ex_env ord' (price ord') (quantity ord') (remaining_quantity ord') (priority_seq ord') n] else []))"
proof -
  have inc: "incoming_ok (ex_buy LIMIT 40 12) (eng_book (ex_engine 100))"
    by (simp add: incoming_ok_def ex_order_def MatchingEngine_def OrderBook_def book_orders_def)
  have room: "id_room (next_trade_id (eng_book (ex_engine 100)))
      (length (flat (other (side (ex_buy LIMIT 40 12))) (eng_book (ex_engine 100))))"
    by (simp add: MatchingEngine_def OrderBook_def flat_def side_levels_def ex_order_def)
  have wf: "engine_wf 100 (ex_engine 100)" using engine_wf_new engine_inv_cong [of "ex_engine 100" "MatchingEngine 100"] by simp
  obtain r ord' e' where p: "processOrder ex_env (ex_buy LIMIT 40 12) (ex_engine 100) = (r, ord', e')"
    by (cases "processOrder ex_env (ex_buy LIMIT 40 12) (ex_engine 100)") auto
  obtain ts where ts: "r = Inr ts" using processOrder_wf(2) [OF wf inc room p] by blast
  have ok: "isHealthy (ex_engine 100)" "eng_publisher (ex_engine 100)" "eng_priority (ex_engine 100) \<noteq> UINT64_MAX"
    by (simp_all add: isHealthy_def MatchingEngine_def)
  show ?thesis using processOrder_publishes [OF ok p [unfolded ts]] p ts by blast
qed

subsection \<open>Where what is published is not what happened\<close>

text \<open>A limit order that did not trade: its acceptance is published, whatever became of it.\<close>

lemma processOrder_quiet:
  assumes "isHealthy e" "eng_publisher e" "eng_priority e \<noteq> UINT64_MAX"
    "matchOrder (env_now v) (ord\<lparr>priority_seq := eng_priority e\<rparr>) (eng_book e) = (Inr [], ord', b)"
    "0 < remaining_quantity ord'" "may_rest (otype ord')"
  shows "processOrder v ord e = (Inr [], ord',
    publish_next (accepted_ev v ord' (price ord') (quantity ord') (remaining_quantity ord') (priority_seq ord'))
      (e\<lparr>eng_priority := eng_priority e + 1, eng_book := b\<rparr>))"
  using assms by (simp add: processOrder_def tryNextPriority_def publish_trades_def)

text \<open>An engine with a publisher, after the order \<open>ord\<close> went into its empty book.\<close>

definition ex_engine1 :: "nat \<Rightarrow> stp_policy \<Rightarrow> order \<Rightarrow> engine" where
  "ex_engine1 cap pol ord = (ex_engine cap)\<lparr>eng_book := snd (addOrder ord (setSTPPolicy pol (OrderBook cap))),
     eng_priority := 1\<rparr>"

lemma ex_engine1_simps [simp]:
  "isHealthy (ex_engine1 cap pol ord)" "eng_publisher (ex_engine1 cap pol ord)" "eng_priority (ex_engine1 cap pol ord) = 1"
  "eng_book (ex_engine1 cap pol ord) = snd (addOrder ord (setSTPPolicy pol (OrderBook cap)))"
  by (simp_all add: ex_engine1_def isHealthy_def MatchingEngine_def)

text \<open>
  When the order pool is full, \<open>addOrder\<close> fails, \<open>matchOrder\<close> ignores it, and the engine still
  publishes the acceptance: with a pool of one slot, the second order is announced, and
  journaled, as resting with seven remaining, but is nowhere in the book.
\<close>

theorem accepted_order_lost_when_pool_full:
  "\<exists>e2. processOrder ex_env (ex_order 2 20 BUY LIMIT (Fin 99) 7)
       (ex_engine1 1 STP_NONE (ex_order 1 10 BUY LIMIT (Fin 100) 5)) =
     (Inr [], (ex_order 2 20 BUY LIMIT (Fin 99) 7)\<lparr>priority_seq := 1\<rparr>, e2) \<and>
   (case last (eng_published e2) of
      OrderAcceptedEvent a \<Rightarrow> oa_orderId a = 2 \<and> oa_remainingQuantity a = 7 | _ \<Rightarrow> False) \<and>
   getOrderById 2 (eng_book e2) = None"
proof -
  let ?o = "(ex_order 2 20 BUY LIMIT (Fin 99) 7)\<lparr>priority_seq := 1\<rparr>"
  let ?b = "snd (addOrder (ex_order 1 10 BUY LIMIT (Fin 100) 5) (setSTPPolicy STP_NONE (OrderBook 1)))"
  have m: "matchOrder ex_now ?o ?b = (Inr [], ?o, ?b)" by code_simp
  have g: "getOrderById 2 ?b = None" by code_simp
  show ?thesis
    using processOrder_quiet [of "ex_engine1 1 STP_NONE (ex_order 1 10 BUY LIMIT (Fin 100) 5)" ex_env _ ?o ?b] m g
    by (simp add: ex_env_def may_rest_def ex_order_def accepted_ev_def)
qed

text \<open>
  Under \<open>CANCEL_NEWEST\<close> an incoming limit order that would trade with its own trader is refused,
  yet its acceptance is published.
\<close>

theorem refused_order_announced:
  "\<exists>e2. processOrder ex_env (ex_order 2 10 BUY LIMIT (Fin 100) 7)
       (ex_engine1 8 CANCEL_NEWEST (ex_order 1 10 SELL LIMIT (Fin 100) 5)) =
     (Inr [], (ex_order 2 10 BUY LIMIT (Fin 100) 7)\<lparr>priority_seq := 1\<rparr>, e2) \<and>
   (case last (eng_published e2) of
      OrderAcceptedEvent a \<Rightarrow> oa_orderId a = 2 \<and> oa_remainingQuantity a = 7 | _ \<Rightarrow> False) \<and>
   getOrderById 2 (eng_book e2) = None"
proof -
  let ?o = "(ex_order 2 10 BUY LIMIT (Fin 100) 7)\<lparr>priority_seq := 1\<rparr>"
  let ?b = "snd (addOrder (ex_order 1 10 SELL LIMIT (Fin 100) 5) (setSTPPolicy CANCEL_NEWEST (OrderBook 8)))"
  have m: "matchOrder ex_now ?o ?b = (Inr [], ?o, ?b)" by code_simp
  have g: "getOrderById 2 ?b = None" by code_simp
  show ?thesis
    using processOrder_quiet [of "ex_engine1 8 CANCEL_NEWEST (ex_order 1 10 SELL LIMIT (Fin 100) 5)" ex_env _ ?o ?b] m g
    by (simp add: ex_env_def may_rest_def ex_order_def accepted_ev_def)
qed

text \<open>
  Replacing an order by itself (same price, same quantity) keeps its priority number but moves it
  behind the later orders of its level: the queue is no longer in the order of the numbers.
\<close>

theorem replace_unchanged_loses_place:
  "\<exists>r e'. eng_replaceOrder ex_env 1 (Fin 100) 5
       ((ex_engine 8)\<lparr>eng_book := snd (addOrder (ex_order 2 20 BUY LIMIT (Fin 100) 5)
             (snd (addOrder (ex_order 1 10 BUY LIMIT (Fin 100) 5) (OrderBook 8)))), eng_priority := 3\<rparr>) = (r, e') \<and>
   map order_id (flat BUY (eng_book e')) = [2, 1] \<and> map priority_seq (flat BUY (eng_book e')) = [2, 1]"
proof -
  let ?o = "ex_order 1 10 BUY LIMIT (Fin 100) 5"
  let ?b = "snd (addOrder (ex_order 2 20 BUY LIMIT (Fin 100) 5) (snd (addOrder ?o (OrderBook 8))))"
  let ?e = "(ex_engine 8)\<lparr>eng_book := ?b, eng_priority := 3\<rparr>"
  obtain r e' where f: "finish_replace ex_env 1 ?o (Fin 100) 5 1 ?e = (r, e')" by fastforce
  have g: "getOrderById 1 ?b = Some ?o" by code_simp
  have h: "isHealthy ?e" by (simp add: isHealthy_def MatchingEngine_def)
  have "eng_replaceOrder ex_env 1 (Fin 100) 5 ?e = (r, e')"
    using f g h by (simp add: eng_replaceOrder_def ex_order_def Let_def)
  moreover have "eng_book e' = snd (replaceOrder ex_now 7 1 (Fin 100) 5 1 ?b)"
    using finish_replace_book(1) [OF f] by (simp add: ex_env_def prod_eq_iff)
  moreover have "map order_id (flat BUY (snd (replaceOrder ex_now 7 1 (Fin 100) 5 1 ?b))) = [2, 1]" by code_simp
  moreover have "map priority_seq (flat BUY (snd (replaceOrder ex_now 7 1 (Fin 100) 5 1 ?b))) = [2, 1]" by code_simp
  ultimately show ?thesis by auto
qed

end
