(* ===== verification/Risk_Engine.thy ===== *)
theory Risk_Engine
  imports Book_Properties "HOL-Library.AList"
begin

text \<open>
  The per-shard risk gate of \<open>include/RiskEngine.h\<close> and \<open>src/RiskEngine.cpp\<close>: limits, validation, the
  per-order reservations and the per-trader working quantities, and the cross-check against the book.

  The two hash maps are association lists with distinct keys: \<open>find\<close> is \<open>map_of\<close>, \<open>emplace\<close> and a write
  through an iterator are \<open>AList.update\<close>, \<open>erase\<close> is \<open>AList.delete\<close>. Their iteration order is not
  observable. Heap allocation does not fail in the model, so the \<open>catch\<close> branches, which report
  failure and leave the maps as they were, do not occur.
\<close>

datatype reject_reason = R_NONE | INVALID_SYMBOL | INVALID_QUANTITY | ORDER_TOO_LARGE
  | POSITION_LIMIT_EXCEEDED | PRICE_BAND_VIOLATION | INVALID_PRICE | STATE_VIOLATION
  | INVALID_CONFIGURATION | UNKNOWN | NOTIONAL | STATE_CORRUPT | SHARD_HALTED

type_synonym position_key = "u64 \<times> u32"

record position_state =
  ps_position :: i64
  ps_working_buy :: u64
  ps_working_sell :: u64

record order_risk_info =
  ri_trader_id :: u64
  ri_symbol_id :: u32
  ri_side :: order_side
  ri_reserved_qty :: u32

record risk =
  max_order_qty :: u64
  max_position :: u64
  price_band_pct :: double
  ref_prices :: "double list"
  ref_price_set :: "bool list"
  positions :: "(position_key \<times> position_state) list"
  order_risk :: "(u64 \<times> order_risk_info) list"
  state_corrupt :: bool

abbreviation MAX_SYMBOLS :: nat where "MAX_SYMBOLS \<equiv> 1000000"

definition RiskEngine :: risk where
  "RiskEngine = \<lparr>max_order_qty = 1000000, max_position = 10000000, price_band_pct = Fin 5,
     ref_prices = [], ref_price_set = [], positions = [], order_risk = [], state_corrupt = False\<rparr>"

subsection \<open>Configuration\<close>

definition setMaxOrderSize :: "u64 \<Rightarrow> risk \<Rightarrow> risk" where
  "setMaxOrderSize max_qty r = (if 9223372036854775807 < max_qty then r else r\<lparr>max_order_qty := max_qty\<rparr>)"

definition setMaxPosition :: "u64 \<Rightarrow> risk \<Rightarrow> risk" where
  "setMaxPosition max_pos r =
     (if 9223372036854775807 < max_pos then r
      else let r1 = r\<lparr>max_position := max_pos\<rparr>
           in if max_position r1 < max_order_qty r1 then r1\<lparr>max_order_qty := max_position r1\<rparr> else r1)"

definition setPriceBandPct :: "double \<Rightarrow> risk \<Rightarrow> risk" where
  "setPriceBandPct pct r =
     (if \<not> isfinite pct then r
      else if d_lt pct (Fin 0) \<or> d_le (Fin 100) pct then r
      else r\<lparr>price_band_pct := pct\<rparr>)"

definition resize :: "nat \<Rightarrow> 'a \<Rightarrow> 'a list \<Rightarrow> 'a list" where
  "resize n x xs = (if length xs < n then xs @ replicate (n - length xs) x else take n xs)"

definition setReferencePrice :: "u32 \<Rightarrow> double \<Rightarrow> risk \<Rightarrow> bool \<times> risk" where
  "setReferencePrice symbol p r =
     (let symbol_id = unat symbol in
      if MAX_SYMBOLS \<le> symbol_id then (False, r)
      else if \<not> isfinite p \<or> d_le p (Fin 0) then (False, r)
      else
        let r1 = (if length (ref_prices r) \<le> symbol_id
                  then r\<lparr>ref_prices := resize (symbol_id + 1) (Fin 0) (ref_prices r),
                         ref_price_set := resize (symbol_id + 1) False (ref_price_set r)\<rparr>
                  else r)
        in (True, r1\<lparr>ref_prices := (ref_prices r1)[symbol_id := p],
                     ref_price_set := (ref_price_set r1)[symbol_id := True]\<rparr>))"

subsection \<open>Checked arithmetic\<close>

text \<open>
  \<open>result = a + b\<close> on 64-bit signed numbers. An overflow is undefined in C++; here it wraps, as on the targets of the build, so a test
  that let one through would show.
\<close>

definition i64_of :: "int \<Rightarrow> i64" where
  "i64_of x = (x + 2 ^ 63) mod 2 ^ 64 - 2 ^ 63"

definition canAddSigned :: "i64 \<Rightarrow> i64 \<Rightarrow> i64 option" where
  "canAddSigned a b =
     (if 0 < b \<and> INT64_MAX - b < a then None
      else if b < 0 \<and> a < INT64_MIN - b then None
      else Some (i64_of (a + b)))"

definition canSubSigned :: "i64 \<Rightarrow> i64 \<Rightarrow> i64 option" where
  "canSubSigned a b =
     (if 0 < b \<and> a < INT64_MIN + b then None
      else if b < 0 \<and> INT64_MAX + b < a then None
      else Some (i64_of (a - b)))"

definition canAddUnsigned :: "u64 \<Rightarrow> u64 \<Rightarrow> u64 option" where
  "canAddUnsigned a b = (if UINT64_MAX - b < a then None else Some (a + b))"

subsection \<open>Validation\<close>

definition checkOrderFields :: "risk \<Rightarrow> order \<Rightarrow> reject_reason" where
  "checkOrderFields r ord =
     (let symbol = unat (symbol_id ord) in
      if quantity ord = 0 then INVALID_QUANTITY
      else if max_order_qty r < ucast (quantity ord) then ORDER_TOO_LARGE
      else if MAX_SYMBOLS \<le> symbol \<or> length (ref_prices r) \<le> symbol \<or> \<not> ref_price_set r ! symbol
        then INVALID_SYMBOL
      else if otype ord \<noteq> MARKET then
        if \<not> isfinite (price ord) \<or> d_le (price ord) (Fin 0) then INVALID_PRICE
        else
          let ref = ref_prices r ! symbol in
          if \<not> isfinite ref \<or> d_le ref (Fin 0) then INVALID_SYMBOL
          else
            let band = d_div (price_band_pct r) 100;
                upper = d_mul ref (d_add (Fin 1) band);
                lower = d_mul ref (d_sub (Fin 1) band)
            in if \<not> isfinite upper \<or> \<not> isfinite lower then INVALID_PRICE
               else if d_lt (price ord) lower \<or> d_gt (price ord) upper then PRICE_BAND_VIOLATION
               else R_NONE
      else R_NONE)"

text \<open>The entry of a key, or the values the code uses when there is none.\<close>

definition pos_of :: "risk \<Rightarrow> position_key \<Rightarrow> position_state" where
  "pos_of r k = (case map_of (positions r) k of
     Some s \<Rightarrow> s | None \<Rightarrow> \<lparr>ps_position = 0, ps_working_buy = 0, ps_working_sell = 0\<rparr>)"

definition working :: "order_side \<Rightarrow> position_state \<Rightarrow> u64" where
  "working sd s = (if sd = BUY then ps_working_buy s else ps_working_sell s)"

definition set_working :: "order_side \<Rightarrow> u64 \<Rightarrow> position_state \<Rightarrow> position_state" where
  "set_working sd w s = (if sd = BUY then s\<lparr>ps_working_buy := w\<rparr> else s\<lparr>ps_working_sell := w\<rparr>)"

text \<open>\<open>static_cast<int64_t>\<close> of an unsigned 64-bit value is \<open>sint\<close>: values from \<open>2 ^ 63\<close> on become negative.\<close>

definition validate :: "risk \<Rightarrow> order \<Rightarrow> reject_reason" where
  "validate r ord =
     (if state_corrupt r then STATE_CORRUPT
      else if checkOrderFields r ord \<noteq> R_NONE then checkOrderFields r ord
      else
        let qty = int (unat (quantity ord));
            max_pos = sint (max_position r);
            s = pos_of r (trader_id ord, symbol_id ord)
        in if side ord = BUY then
             (case canAddSigned (ps_position s) (sint (ps_working_buy s)) of
                None \<Rightarrow> POSITION_LIMIT_EXCEEDED
              | Some projected \<Rightarrow>
                  (case canAddSigned projected qty of
                     None \<Rightarrow> POSITION_LIMIT_EXCEEDED
                   | Some projected \<Rightarrow>
                       if max_pos < projected then POSITION_LIMIT_EXCEEDED else R_NONE))
           else
             (case canSubSigned (ps_position s) (sint (ps_working_sell s)) of
                None \<Rightarrow> POSITION_LIMIT_EXCEEDED
              | Some projected \<Rightarrow>
                  (case canSubSigned projected qty of
                     None \<Rightarrow> POSITION_LIMIT_EXCEEDED
                   | Some projected \<Rightarrow>
                       if projected < - max_pos then POSITION_LIMIT_EXCEEDED else R_NONE)))"

definition validateReplace :: "risk \<Rightarrow> u64 \<Rightarrow> order \<Rightarrow> reject_reason" where
  "validateReplace r old_order_id new_order =
     (if state_corrupt r then STATE_CORRUPT
      else if checkOrderFields r new_order \<noteq> R_NONE then checkOrderFields r new_order
      else case map_of (order_risk r) old_order_id of
        None \<Rightarrow> STATE_VIOLATION
      | Some old_info \<Rightarrow>
          if ri_trader_id old_info \<noteq> trader_id new_order \<or> ri_symbol_id old_info \<noteq> symbol_id new_order \<or>
             ri_side old_info \<noteq> side new_order
          then STATE_VIOLATION
          else
            let s = pos_of r (trader_id new_order, symbol_id new_order);
                current_working = working (side new_order) s
            in if current_working < ucast (ri_reserved_qty old_info) then STATE_CORRUPT
               else
                 (case canAddUnsigned (current_working - ucast (ri_reserved_qty old_info))
                         (ucast (quantity new_order)) of
                    None \<Rightarrow> POSITION_LIMIT_EXCEEDED
                  | Some projected_working \<Rightarrow>
                      let max_pos = sint (max_position r) in
                      if side new_order = BUY then
                        (case canAddSigned (ps_position s) (sint projected_working) of
                           None \<Rightarrow> POSITION_LIMIT_EXCEEDED
                         | Some projected \<Rightarrow> if max_pos < projected then POSITION_LIMIT_EXCEEDED else R_NONE)
                      else
                        (case canSubSigned (ps_position s) (sint projected_working) of
                           None \<Rightarrow> POSITION_LIMIT_EXCEEDED
                         | Some projected \<Rightarrow> if projected < - max_pos then POSITION_LIMIT_EXCEEDED else R_NONE)))"

subsection \<open>State transitions\<close>

definition applyResting :: "order \<Rightarrow> u32 \<Rightarrow> bool \<Rightarrow> risk \<Rightarrow> bool \<times> risk" where
  "applyResting ord remaining_qty enforce_limits r =
     (if state_corrupt r then (False, r)
      else if remaining_qty = 0 \<or> quantity ord < remaining_qty then (False, r)
      else if otype ord \<noteq> LIMIT then (False, r)
      else if map_of (order_risk r) (order_id ord) \<noteq> None then (False, r)
      else
        let k = (trader_id ord, symbol_id ord);
            s = pos_of r k
        in case canAddUnsigned (working (side ord) s) (ucast remaining_qty) of
             None \<Rightarrow> (False, r)
           | Some new_working \<Rightarrow>
               if enforce_limits \<and> max_position r < new_working then (False, r)
               else
                 (True, r\<lparr>order_risk := AList.update (order_id ord)
                            \<lparr>ri_trader_id = trader_id ord, ri_symbol_id = symbol_id ord,
                             ri_side = side ord, ri_reserved_qty = remaining_qty\<rparr> (order_risk r),
                          positions := AList.update k (set_working (side ord) new_working s) (positions r)\<rparr>))"

text \<open>
  The common end of \<open>applyFill\<close> and \<open>applyCancelled\<close>: the reservation is reduced and erased at zero, the
  position entry written back, and erased when everything in it is zero.
\<close>

definition settle :: "u64 \<Rightarrow> order_risk_info \<Rightarrow> u32 \<Rightarrow> position_key \<Rightarrow> position_state \<Rightarrow> risk \<Rightarrow> risk" where
  "settle oid info qty k s' r =
     (let info' = info\<lparr>ri_reserved_qty := ri_reserved_qty info - qty\<rparr>
      in r\<lparr>order_risk := (if ri_reserved_qty info' = 0 then AList.delete oid (order_risk r)
                          else AList.update oid info' (order_risk r)),
           positions := (if ps_position s' = 0 \<and> ps_working_buy s' = 0 \<and> ps_working_sell s' = 0
                         then AList.delete k (positions r) else AList.update k s' (positions r))\<rparr>)"

definition risk_applyFill :: "u64 \<Rightarrow> u32 \<Rightarrow> risk \<Rightarrow> bool \<times> risk" where
  "risk_applyFill oid fill_qty r =
     (if state_corrupt r \<or> fill_qty = 0 then (False, r)
      else case map_of (order_risk r) oid of
        None \<Rightarrow> (False, r)
      | Some info \<Rightarrow>
          if ri_reserved_qty info < fill_qty then (False, r)
          else
            let k = (ri_trader_id info, ri_symbol_id info) in
            case map_of (positions r) k of
              None \<Rightarrow> (False, r)
            | Some s \<Rightarrow>
                if working (ri_side info) s < ucast fill_qty then (False, r)
                else
                  (case (if ri_side info = BUY then canAddSigned (ps_position s) (int (unat fill_qty))
                         else canSubSigned (ps_position s) (int (unat fill_qty))) of
                     None \<Rightarrow> (False, r)
                   | Some new_position \<Rightarrow>
                       let s' = (set_working (ri_side info) (working (ri_side info) s - ucast fill_qty) s)
                                  \<lparr>ps_position := new_position\<rparr>
                       in (True, settle oid info fill_qty k s' r)))"

definition applyCancelled :: "u64 \<Rightarrow> u32 \<Rightarrow> risk \<Rightarrow> bool \<times> risk" where
  "applyCancelled oid cancelled_qty r =
     (if state_corrupt r \<or> cancelled_qty = 0 then (False, r)
      else case map_of (order_risk r) oid of
        None \<Rightarrow> (False, r)
      | Some info \<Rightarrow>
          if ri_reserved_qty info < cancelled_qty then (False, r)
          else
            let k = (ri_trader_id info, ri_symbol_id info) in
            case map_of (positions r) k of
              None \<Rightarrow> (False, r)
            | Some s \<Rightarrow>
                if working (ri_side info) s < ucast cancelled_qty then (False, r)
                else
                  let s' = set_working (ri_side info) (working (ri_side info) s - ucast cancelled_qty) s
                  in (True, settle oid info cancelled_qty k s' r))"

definition onOrderResting :: "order \<Rightarrow> u32 \<Rightarrow> risk \<Rightarrow> bool \<times> risk" where
  "onOrderResting ord remaining_qty r = applyResting ord remaining_qty True r"

definition onFill :: "u64 \<Rightarrow> u32 \<Rightarrow> risk \<Rightarrow> bool \<times> risk" where
  "onFill oid fill_qty r = risk_applyFill oid fill_qty r"

definition onOrderCancelled :: "u64 \<Rightarrow> u32 \<Rightarrow> risk \<Rightarrow> bool \<times> risk" where
  "onOrderCancelled oid cancelled_qty r = applyCancelled oid cancelled_qty r"

definition markStateCorrupt :: "risk \<Rightarrow> risk" where
  "markStateCorrupt r = r\<lparr>state_corrupt := True\<rparr>"

definition restoreAccepted :: "order \<Rightarrow> u32 \<Rightarrow> risk \<Rightarrow> risk" where
  "restoreAccepted ord remaining_qty r =
     (case applyResting ord remaining_qty False r of (ok, r') \<Rightarrow> if ok then r' else markStateCorrupt r')"

definition restoreFill :: "u64 \<Rightarrow> u32 \<Rightarrow> risk \<Rightarrow> risk" where
  "restoreFill oid fill_qty r =
     (case risk_applyFill oid fill_qty r of (ok, r') \<Rightarrow> if ok then r' else markStateCorrupt r')"

definition restoreCancelled :: "u64 \<Rightarrow> u32 \<Rightarrow> risk \<Rightarrow> risk" where
  "restoreCancelled oid cancelled_qty r =
     (case applyCancelled oid cancelled_qty r of (ok, r') \<Rightarrow> if ok then r' else markStateCorrupt r')"

subsection \<open>Queries\<close>

definition getPosition :: "u64 \<Rightarrow> u32 \<Rightarrow> risk \<Rightarrow> i64" where
  "getPosition tid sy r = ps_position (pos_of r (tid, sy))"

text \<open>\<open>derived[key] += info.reserved_qty\<close> over the reservations of one side.\<close>

definition info_key :: "order_risk_info \<Rightarrow> position_key" where
  "info_key i = (ri_trader_id i, ri_symbol_id i)"

primrec derive :: "order_side \<Rightarrow> (u64 \<times> order_risk_info) list \<Rightarrow> (position_key \<times> u64) list \<Rightarrow> (position_key \<times> u64) list" where
  "derive sd [] d = d"
| "derive sd (e # es) d =
     derive sd es
       (if ri_side (snd e) = sd
        then AList.update (info_key (snd e))
               ((case map_of d (info_key (snd e)) of Some q \<Rightarrow> q | None \<Rightarrow> 0) + ucast (ri_reserved_qty (snd e))) d
        else d)"

definition checkInvariant :: "risk \<Rightarrow> book \<Rightarrow> bool" where
  "checkInvariant r b =
     (if state_corrupt r then False
      else if getOrderCount b \<noteq> length (order_risk r) then False
      else if \<not> list_all (\<lambda>(oid, info).
             ri_reserved_qty info \<noteq> 0 \<and>
             (case getOrderById oid b of
                None \<Rightarrow> False
              | Some ord \<Rightarrow> order_id ord = oid \<and> trader_id ord = ri_trader_id info \<and>
                  symbol_id ord = ri_symbol_id info \<and> side ord = ri_side info \<and>
                  remaining_quantity ord = ri_reserved_qty info)) (order_risk r) then False
      else
        let derived_buy = derive BUY (order_risk r) []; derived_sell = derive SELL (order_risk r) [] in
        if \<not> list_all (\<lambda>(k, s).
             ps_working_buy s = (case map_of derived_buy k of Some q \<Rightarrow> q | None \<Rightarrow> 0) \<and>
             ps_working_sell s = (case map_of derived_sell k of Some q \<Rightarrow> q | None \<Rightarrow> 0)) (positions r) then False
        else list_all (\<lambda>(k, q). map_of (positions r) k \<noteq> None) derived_buy \<and>
             list_all (\<lambda>(k, q). map_of (positions r) k \<noteq> None) derived_sell)"

end
