(* ===== verification/Risk_Invariant.thy ===== *)
theory Risk_Invariant
  imports Risk_Engine
begin

text \<open>
  The bookkeeping invariant of the risk engine: every working counter is the sum of the
  reservations behind it. Each state transition keeps it; the exposure bound rests on it.
\<close>

subsection \<open>Sums over association lists\<close>

lemma sum_update_new:
  "map_of es k = None \<Longrightarrow> sum_list (map f (AList.update k v es)) = sum_list (map f es) + (f (k, v) :: nat)"
  by (induction es) (auto split: if_splits)

lemma sum_update_old:
  "map_of es k = Some v \<Longrightarrow>
   sum_list (map f (AList.update k v' es)) + f (k, v) = sum_list (map f es) + (f (k, v') :: nat)"
  by (induction es) (auto split: if_splits)

lemma sum_delete:
  "distinct (map fst es) \<Longrightarrow> map_of es k = Some v \<Longrightarrow>
   sum_list (map f (AList.delete k es)) + f (k, v) = sum_list (map f es :: nat list)"
  by (induction es) (auto split: if_splits)

subsection \<open>The invariant\<close>

definition zero_state :: position_state where
  "zero_state = \<lparr>ps_position = 0, ps_working_buy = 0, ps_working_sell = 0\<rparr>"

definition reserved_of :: "order_side \<Rightarrow> position_key \<Rightarrow> u64 \<times> order_risk_info \<Rightarrow> nat" where
  "reserved_of sd k e = (if ri_side (snd e) = sd \<and> info_key (snd e) = k then unat (ri_reserved_qty (snd e)) else 0)"

definition reserved_sum :: "order_side \<Rightarrow> position_key \<Rightarrow> risk \<Rightarrow> nat" where
  "reserved_sum sd k r = sum_list (map (reserved_of sd k) (order_risk r))"

definition maps_wf :: "risk \<Rightarrow> bool" where
  "maps_wf r \<longleftrightarrow> distinct (map fst (order_risk r)) \<and> distinct (map fst (positions r))"

definition risk_wf :: "risk \<Rightarrow> bool" where
  "risk_wf r \<longleftrightarrow> maps_wf r \<and>
     (\<forall>(oid, info) \<in> set (order_risk r). ri_reserved_qty info \<noteq> 0) \<and>
     (\<forall>(k, s) \<in> set (positions r). in_i64 (ps_position s) \<and> s \<noteq> zero_state) \<and>
     (\<forall>sd k. unat (working sd (pos_of r k)) = reserved_sum sd k r)"

lemma risk_wf_counter: "risk_wf r \<Longrightarrow> unat (working sd (pos_of r k)) = reserved_sum sd k r"
  unfolding risk_wf_def by blast

lemma risk_wf_new: "risk_wf RiskEngine"
  by (simp add: risk_wf_def maps_wf_def RiskEngine_def reserved_sum_def pos_of_def working_def)

lemma working_set_working [simp]:
  "working sd (set_working sd' w s) = (if sd = sd' then w else working sd s)"
  by (cases sd; cases sd') (simp_all add: working_def set_working_def)

lemma ps_position_set_working [simp]: "ps_position (set_working sd w s) = ps_position s"
  by (simp add: set_working_def)

lemma working_update_position [simp]: "working sd (s\<lparr>ps_position := p\<rparr>) = working sd s"
  by (simp add: working_def)

lemma working_zero [simp]: "working sd zero_state = 0" "ps_position zero_state = 0"
  by (simp_all add: working_def zero_state_def)

lemma zero_state_iff: "s = zero_state \<longleftrightarrow> ps_position s = 0 \<and> ps_working_buy s = 0 \<and> ps_working_sell s = 0"
  by (cases s) (simp add: zero_state_def)

lemma nonzero_working: "working sd s \<noteq> 0 \<Longrightarrow> s \<noteq> zero_state"
  by auto

lemma pos_of_alt: "pos_of r k = (case map_of (positions r) k of Some s \<Rightarrow> s | None \<Rightarrow> zero_state)"
  unfolding pos_of_def zero_state_def ..

lemma pos_of_i64:
  assumes "risk_wf r"
  shows "in_i64 (ps_position (pos_of r k))"
proof (cases "map_of (positions r) k")
  case (Some s)
  then have "(k, s) \<in> set (positions r)" by (rule map_of_SomeD)
  then show ?thesis using assms Some by (auto simp: risk_wf_def pos_of_alt)
qed (simp add: pos_of_alt in_i64_def)

lemma pos_of_update:
  "pos_of (r\<lparr>order_risk := x, positions := AList.update k s (positions r)\<rparr>) k' = (if k' = k then s else pos_of r k')"
  by (simp add: pos_of_alt update_conv')

lemma settle_simps [simp]:
  "max_position (settle oid info q k s r) = max_position r" "state_corrupt (settle oid info q k s r) = state_corrupt r"
  "max_order_qty (settle oid info q k s r) = max_order_qty r"
  by (simp_all add: settle_def Let_def)

lemma pos_of_settle: "pos_of (settle oid info q k s r) k' = (if k' = k then s else pos_of r k')"
proof (cases "s = zero_state")
  case True
  then show ?thesis by (simp add: pos_of_alt settle_def Let_def zero_state_def delete_conv')
next
  case False
  then have "\<not> (ps_position s = 0 \<and> ps_working_buy s = 0 \<and> ps_working_sell s = 0)" by (simp add: zero_state_iff)
  then have "positions (settle oid info q k s r) = AList.update k s (positions r)"
    by (auto simp: settle_def Let_def)
  then show ?thesis by (simp add: pos_of_alt update_conv')
qed

text \<open>A reservation implies its position entry, and the counter covers it.\<close>

lemma reserved_of_le:
  assumes "map_of (order_risk r) oid = Some info"
  shows "unat (ri_reserved_qty info) \<le> reserved_sum (ri_side info) (info_key info) r"
proof -
  have "reserved_of (ri_side info) (info_key info) (oid, info) \<in> set (map (reserved_of (ri_side info) (info_key info)) (order_risk r))"
    using map_of_SomeD [OF assms] by simp
  then show ?thesis
    using member_le_sum_list by (fastforce simp: reserved_sum_def reserved_of_def)
qed

lemma risk_wf_reservation:
  assumes "risk_wf r" "map_of (order_risk r) oid = Some info"
  shows "ri_reserved_qty info \<noteq> 0"
    and "ucast (ri_reserved_qty info) \<le> working (ri_side info) (pos_of r (info_key info))"
    and "\<exists>s. map_of (positions r) (info_key info) = Some s"
proof -
  show nz: "ri_reserved_qty info \<noteq> 0"
    using assms map_of_SomeD by (fastforce simp: risk_wf_def)
  show le: "ucast (ri_reserved_qty info) \<le> working (ri_side info) (pos_of r (info_key info))"
    using reserved_of_le [OF assms(2)] by (simp add: risk_wf_counter [OF assms(1)] word_le_nat_alt)
  show "\<exists>s. map_of (positions r) (info_key info) = Some s"
  proof (rule ccontr)
    assume "\<not> ?thesis"
    then have "map_of (positions r) (info_key info) = None" by auto
    then have "ucast (ri_reserved_qty info) \<le> (0 :: u64)" using le by (simp add: pos_of_alt)
    then have "unat (ri_reserved_qty info) = 0" by (simp add: word_le_nat_alt)
    then show False using nz by (simp add: unat_eq_zero)
  qed
qed

lemma set_delete_subset: "set (AList.delete k es) \<subseteq> set es"
  by (auto simp: AList.delete_eq)

lemma set_update_subset: "set (AList.update k v es) \<subseteq> insert (k, v) (set es)"
  by (induction es) auto

lemmas alist_sets = subsetD [OF set_delete_subset] subsetD [OF set_update_subset]

subsection \<open>Transitions keep it\<close>

lemma applyResting_cases:
  assumes "applyResting ord q enforce r = (ok, r')"
  obtains (refused) "\<not> ok" "r' = r"
  | (rested) w where "ok" "\<not> state_corrupt r" "q \<noteq> 0" "q \<le> quantity ord" "otype ord = LIMIT"
      "map_of (order_risk r) (order_id ord) = None"
      "w = working (side ord) (pos_of r (trader_id ord, symbol_id ord)) + ucast q"
      "unat w = unat (working (side ord) (pos_of r (trader_id ord, symbol_id ord))) + unat q"
      "enforce \<Longrightarrow> w \<le> max_position r"
      "r' = r\<lparr>order_risk := AList.update (order_id ord) \<lparr>ri_trader_id = trader_id ord, ri_symbol_id = symbol_id ord,
                               ri_side = side ord, ri_reserved_qty = q\<rparr> (order_risk r),
             positions := AList.update (trader_id ord, symbol_id ord)
               (set_working (side ord) w (pos_of r (trader_id ord, symbol_id ord))) (positions r)\<rparr>"
proof -
  let ?w = "working (side ord) (pos_of r (trader_id ord, symbol_id ord))"
  have add: "unat (?w + ucast q) = unat ?w + unat q" if "\<not> UINT64_MAX - ucast q < ?w"
  proof -
    have "unat (UINT64_MAX - ucast q) = 18446744073709551615 - unat q"
      using unat_u32_less [of q] by (subst unat_sub) (simp_all add: word_le_nat_alt del: unat_u32_less)
    then have "unat ?w + unat q < 2 ^ 64"
      using that unat_u32_less [of q] by (simp add: word_less_nat_alt del: unat_u32_less)
    then show ?thesis by (simp add: unat_word_ariths take_bit_nat_eq_self)
  qed
  show ?thesis
    using assms add by (auto simp: applyResting_def canAddUnsigned_def Let_def not_less split: if_splits
      intro: refused rested)
qed

lemma applyResting_wf:
  assumes "applyResting ord q enforce r = (ok, r')" "risk_wf r"
  shows "risk_wf r'"
  using assms(1)
proof (cases rule: applyResting_cases)
  case refused
  then show ?thesis using assms by simp
next
  case (rested w)
  let ?k = "(trader_id ord, symbol_id ord)"
  have sum: "reserved_sum sd k r' = reserved_sum sd k r + (if side ord = sd \<and> ?k = k then unat q else 0)" for sd k
    unfolding rested(10) reserved_sum_def by (simp add: sum_update_new [OF rested(6)] reserved_of_def info_key_def)
  have "unat (working sd (pos_of r' k)) = reserved_sum sd k r'" for sd k
    using sum [of sd k] rested(8) risk_wf_counter [OF assms(2)] unfolding rested(10) pos_of_update by auto
  moreover have "in_i64 (ps_position (pos_of r ?k))"
    by (rule pos_of_i64 [OF assms(2)])
  moreover have "set_working (side ord) w (pos_of r ?k) \<noteq> zero_state"
    using rested(3,8) by (intro nonzero_working [of "side ord"]) (auto simp: word_eq_0_unat)
  ultimately show ?thesis
    using assms(2) rested(3) unfolding risk_wf_def
    by (auto simp: rested(10) maps_wf_def distinct_update dest!: alist_sets)
qed

lemma settle_wf:
  assumes wf: "risk_wf r" and info: "map_of (order_risk r) oid = Some info" and q: "q \<le> ri_reserved_qty info"
    and s: "working (ri_side info) s = working (ri_side info) (pos_of r (info_key info)) - ucast q"
      "working (other (ri_side info)) s = working (other (ri_side info)) (pos_of r (info_key info))"
      "in_i64 (ps_position s)"
  shows "risk_wf (settle oid info q (info_key info) s r)"
proof -
  let ?r = "settle oid info q (info_key info) s r" and ?i = "info\<lparr>ri_reserved_qty := ri_reserved_qty info - q\<rparr>"
  have d: "distinct (map fst (order_risk r))" using wf by (simp add: risk_wf_def maps_wf_def)
  have i: "info_key ?i = info_key info" by (simp add: info_key_def)
  have qn: "unat (ri_reserved_qty info - q) = unat (ri_reserved_qty info) - unat q" "unat q \<le> unat (ri_reserved_qty info)"
    using q by (simp_all add: unat_sub word_le_nat_alt)
  have sum: "reserved_sum sd k ?r + (if ri_side info = sd \<and> info_key info = k then unat q else 0) = reserved_sum sd k r" for sd k
  proof (cases "ri_reserved_qty info - q = 0")
    case True
    then have "unat q = unat (ri_reserved_qty info)" using qn by simp
    then show ?thesis
      using sum_delete [OF d info, of "reserved_of sd k"] True
      by (auto simp: reserved_sum_def settle_def Let_def reserved_of_def split: if_splits)
  next
    case False
    then show ?thesis
      using sum_update_old [OF info, of "reserved_of sd k" ?i] qn i
      by (auto simp: reserved_sum_def settle_def Let_def reserved_of_def split: if_splits)
  qed
  have le: "ucast q \<le> working (ri_side info) (pos_of r (info_key info))"
    using risk_wf_reservation(2) [OF wf info] q by (simp add: word_le_nat_alt)
  have "unat (working sd (pos_of ?r k)) = reserved_sum sd k ?r" for sd k
  proof (cases "k = info_key info")
    case True
    then show ?thesis
      using sum [of sd k] s le side_cases [of sd "ri_side info"]
      by (auto simp: pos_of_settle risk_wf_counter [OF wf] unat_sub word_le_nat_alt)
  next
    case False
    then show ?thesis using sum [of sd k] by (auto simp: pos_of_settle risk_wf_counter [OF wf])
  qed
  moreover have "maps_wf ?r"
    using wf by (simp add: risk_wf_def maps_wf_def settle_def Let_def distinct_update distinct_delete)
  ultimately show ?thesis
    using wf s(3) unfolding risk_wf_def
    by (auto simp: settle_def Let_def zero_state_iff split: if_splits dest!: alist_sets)
qed

lemma i64_of_id: "in_i64 x \<Longrightarrow> i64_of x = x"
  by (simp add: i64_of_def in_i64_def)

lemma canAddSigned_eq: "in_i64 a \<Longrightarrow> canAddSigned a b = (if in_i64 (a + b) then Some (a + b) else None)"
proof -
  assume "in_i64 a"
  then have "in_i64 (a + b) \<longleftrightarrow> \<not> (0 < b \<and> INT64_MAX - b < a) \<and> \<not> (b < 0 \<and> a < INT64_MIN - b)" by (auto simp: in_i64_def)
  then show ?thesis by (auto simp: canAddSigned_def i64_of_id)
qed

lemma canSubSigned_eq: "in_i64 a \<Longrightarrow> canSubSigned a b = (if in_i64 (a - b) then Some (a - b) else None)"
proof -
  assume "in_i64 a"
  then have "in_i64 (a - b) \<longleftrightarrow> \<not> (0 < b \<and> a < INT64_MIN + b) \<and> \<not> (b < 0 \<and> INT64_MAX + b < a)" by (auto simp: in_i64_def)
  then show ?thesis by (auto simp: canSubSigned_def i64_of_id)
qed

text \<open>The signed change of a position by a fill of a resting order.\<close>

definition fill_delta :: "order_side \<Rightarrow> u32 \<Rightarrow> int" where
  "fill_delta sd q = (if sd = BUY then int (unat q) else - int (unat q))"

text \<open>
  Under the invariant a fill or a cancellation fails for a bad quantity, an unknown
  order or a position that would leave 64 bits, and for no other reason.
\<close>

lemma risk_applyFill_eq:
  assumes wf: "risk_wf r"
  shows "risk_applyFill oid q r =
    (case map_of (order_risk r) oid of
       Some info \<Rightarrow>
         let s = pos_of r (info_key info); p = ps_position s + fill_delta (ri_side info) q in
         if \<not> state_corrupt r \<and> q \<noteq> 0 \<and> q \<le> ri_reserved_qty info \<and> in_i64 p
         then (True, settle oid info q (info_key info)
                ((set_working (ri_side info) (working (ri_side info) s - ucast q) s)\<lparr>ps_position := p\<rparr>) r)
         else (False, r)
     | None \<Rightarrow> (False, r))"
proof (cases "map_of (order_risk r) oid")
  case None
  then show ?thesis by (simp add: risk_applyFill_def)
next
  case (Some info)
  let ?k = "info_key info"
  obtain s where s: "map_of (positions r) ?k = Some s" using risk_wf_reservation(3) [OF wf Some] by blast
  then have ps: "pos_of r ?k = s" by (simp add: pos_of_alt)
  have i: "in_i64 (ps_position s)" using pos_of_i64 [OF wf, of ?k] ps by simp
  have w: "\<not> working (ri_side info) s < ucast q" if "q \<le> ri_reserved_qty info"
    using risk_wf_reservation(2) [OF wf Some] that ps by (simp add: word_le_nat_alt not_less)
  have add: "(if ri_side info = BUY then canAddSigned (ps_position s) (int (unat q)) else canSubSigned (ps_position s) (int (unat q))) =
    (if in_i64 (ps_position s + fill_delta (ri_side info) q) then Some (ps_position s + fill_delta (ri_side info) q) else None)"
    by (simp add: fill_delta_def canAddSigned_eq [OF i] canSubSigned_eq [OF i])
  show ?thesis
  proof (cases "state_corrupt r \<or> q = 0 \<or> ri_reserved_qty info < q")
    case True
    then show ?thesis using Some by (auto simp: risk_applyFill_def Let_def dest: leD)
  next
    case False
    then show ?thesis
      unfolding risk_applyFill_def Let_def info_key_def [symmetric]
      using Some s ps w add by (auto simp: not_less info_key_def dest: leD)
  qed
qed

lemma applyCancelled_eq:
  assumes wf: "risk_wf r"
  shows "applyCancelled oid q r =
    (case map_of (order_risk r) oid of
       Some info \<Rightarrow>
         let s = pos_of r (info_key info) in
         if \<not> state_corrupt r \<and> q \<noteq> 0 \<and> q \<le> ri_reserved_qty info
         then (True, settle oid info q (info_key info)
                (set_working (ri_side info) (working (ri_side info) s - ucast q) s) r)
         else (False, r)
     | None \<Rightarrow> (False, r))"
proof (cases "map_of (order_risk r) oid")
  case None
  then show ?thesis by (simp add: applyCancelled_def)
next
  case (Some info)
  let ?k = "info_key info"
  obtain s where s: "map_of (positions r) ?k = Some s" using risk_wf_reservation(3) [OF wf Some] by blast
  then have ps: "pos_of r ?k = s" by (simp add: pos_of_alt)
  have w: "\<not> working (ri_side info) s < ucast q" if "q \<le> ri_reserved_qty info"
    using risk_wf_reservation(2) [OF wf Some] that ps by (simp add: word_le_nat_alt not_less)
  show ?thesis
    using Some s ps w by (auto simp: applyCancelled_def Let_def info_key_def [symmetric] not_less dest: leD)
qed

lemma risk_applyFill_wf:
  assumes "risk_applyFill oid q r = (ok, r')" "risk_wf r"
  shows "risk_wf r'"
  using assms(1) settle_wf [OF assms(2)] assms(2)
  by (auto simp: risk_applyFill_eq [OF assms(2)] Let_def split: option.splits if_splits)

lemma applyCancelled_wf:
  assumes "applyCancelled oid q r = (ok, r')" "risk_wf r"
  shows "risk_wf r'"
  using assms(1) settle_wf [OF assms(2)] assms(2)
  by (auto simp: applyCancelled_eq [OF assms(2)] Let_def pos_of_i64 [OF assms(2)] split: option.splits if_splits)

end
