(* ===== verification/Risk_Properties.thy ===== *)
theory Risk_Properties
  imports Risk_Invariant
begin

text \<open>
  What the risk engine guarantees: exact bookkeeping in every reachable state, the exposure
  bound of the live path, the meaning of a passed validation, fail-closed behaviour after
  corruption, and that the cross-check against the book detects every disagreement.
\<close>

subsection \<open>All transitions\<close>

inductive risk_step :: "risk \<Rightarrow> risk \<Rightarrow> bool" where
  resting: "onOrderResting ord q r = (ok, r') \<Longrightarrow> risk_step r r'"
| fill: "onFill oid q r = (ok, r') \<Longrightarrow> risk_step r r'"
| cancelled: "onOrderCancelled oid q r = (ok, r') \<Longrightarrow> risk_step r r'"
| restore_accepted: "risk_step r (restoreAccepted ord q r)"
| restore_fill: "risk_step r (restoreFill oid q r)"
| restore_cancelled: "risk_step r (restoreCancelled oid q r)"
| corrupt: "risk_step r (markStateCorrupt r)"
| max_order: "risk_step r (setMaxOrderSize n r)"
| max_pos: "risk_step r (setMaxPosition n r)"
| band: "risk_step r (setPriceBandPct p r)"
| reference: "setReferencePrice n p r = (ok, r') \<Longrightarrow> risk_step r r'"

inductive_cases risk_stepE: "risk_step r r'"

lemma risk_wf_cong:
  "order_risk r' = order_risk r \<Longrightarrow> positions r' = positions r \<Longrightarrow> risk_wf r' \<longleftrightarrow> risk_wf r"
  by (simp add: risk_wf_def maps_wf_def reserved_sum_def pos_of_def)

lemma setters_keep [simp]:
  "order_risk (setMaxOrderSize n r) = order_risk r" "positions (setMaxOrderSize n r) = positions r"
  "order_risk (setMaxPosition n r) = order_risk r" "positions (setMaxPosition n r) = positions r"
  "order_risk (setPriceBandPct p r) = order_risk r" "positions (setPriceBandPct p r) = positions r"
  "order_risk (snd (setReferencePrice sy p r)) = order_risk r" "positions (snd (setReferencePrice sy p r)) = positions r"
  "order_risk (markStateCorrupt r) = order_risk r" "positions (markStateCorrupt r) = positions r"
  by (simp_all add: setMaxOrderSize_def setMaxPosition_def setPriceBandPct_def setReferencePrice_def markStateCorrupt_def Let_def)

lemma risk_step_wf:
  assumes "risk_step r r'" "risk_wf r"
  shows "risk_wf r'"
  using assms
proof (induction rule: risk_step.induct)
  case (reference n p r ok r')
  then have "r' = snd (setReferencePrice n p r)" by simp
  then show ?case using reference(2) risk_wf_cong [OF setters_keep(7,8)] by simp
qed (auto simp: onOrderResting_def onFill_def onOrderCancelled_def restoreAccepted_def restoreFill_def restoreCancelled_def
    risk_wf_cong [OF setters_keep(1,2)] risk_wf_cong [OF setters_keep(3,4)] risk_wf_cong [OF setters_keep(5,6)]
    risk_wf_cong [OF setters_keep(9,10)]
    intro: applyResting_wf risk_applyFill_wf applyCancelled_wf split: prod.splits)

text \<open>
  C22. In every state the risk engine reaches, through live calls, replay and reconfiguration in any
  order, the working quantity of each trader, symbol and side is exactly the sum of the
  quantities still reserved by that trader's tracked orders, every reservation is positive, and every
  position fits in 64 bits.
\<close>

theorem risk_bookkeeping_exact:
  assumes "risk_step\<^sup>*\<^sup>* RiskEngine r"
  shows "risk_wf r"
  using assms by (induction rule: rtranclp_induct) (auto intro: risk_wf_new risk_step_wf)

definition ex_risk_order :: order where
  "ex_risk_order = ex_order 7 3 BUY LIMIT (Fin 100) 10"

theorem risk_bookkeeping_exact_witness:
  "risk_wf (snd (onFill 7 4 (snd (onOrderResting ex_risk_order 10 RiskEngine))))"
proof (rule risk_bookkeeping_exact, rule rtranclp.rtrancl_into_rtrancl, rule r_into_rtranclp)
  show "risk_step RiskEngine (snd (onOrderResting ex_risk_order 10 RiskEngine))"
    by (rule risk_step.resting) (rule surjective_pairing)
  show "risk_step (snd (onOrderResting ex_risk_order 10 RiskEngine))
      (snd (onFill 7 4 (snd (onOrderResting ex_risk_order 10 RiskEngine))))"
    by (rule risk_step.fill) (rule surjective_pairing)
qed

subsection \<open>Exposure\<close>

definition dir :: "order_side \<Rightarrow> int" where
  "dir sd = (if sd = BUY then 1 else - 1)"

text \<open>
  The position plus everything still working, in either direction, is within \<open>M\<close>, and so is the limit in force. The
  bound leaves one order of room below \<open>2 ^ 63\<close>: \<open>validateReplace\<close> casts the projected working
  quantity to a signed number, which would turn negative above that.
\<close>

definition bound_sane :: "nat \<Rightarrow> bool" where
  "bound_sane M \<longleftrightarrow> M \<le> 2 ^ 63 - 2 ^ 32"

definition within_bound :: "nat \<Rightarrow> risk \<Rightarrow> bool" where
  "within_bound M r \<longleftrightarrow> unat (max_position r) \<le> M \<and>
     (\<forall>k sd. dir sd * ps_position (pos_of r k) + int (unat (working sd (pos_of r k))) \<le> int M \<and> unat (working sd (pos_of r k)) \<le> M)"

lemma within_boundD:
  assumes "within_bound M r"
  shows "dir sd * ps_position (pos_of r k) + int (unat (working sd (pos_of r k))) \<le> int M"
    and "unat (working sd (pos_of r k)) \<le> M"
    and "\<bar>ps_position (pos_of r k)\<bar> \<le> int M" and "unat (max_position r) \<le> M"
proof -
  have *: "dir sd * ps_position (pos_of r k) + int (unat (working sd (pos_of r k))) \<le> int M \<and> unat (working sd (pos_of r k)) \<le> M" for sd
    using assms unfolding within_bound_def by blast
  show "dir sd * ps_position (pos_of r k) + int (unat (working sd (pos_of r k))) \<le> int M" "unat (working sd (pos_of r k)) \<le> M"
    using * [of sd] by simp_all
  show "\<bar>ps_position (pos_of r k)\<bar> \<le> int M"
    using conjunct1 [OF * [of BUY]] conjunct1 [OF * [of SELL]] by (auto simp: dir_def simp del: of_nat_unat)
  show "unat (max_position r) \<le> M" using assms by (simp add: within_bound_def)
qed

lemma sint_u64: "unat w < 2 ^ 63 \<Longrightarrow> sint w = int (unat w)" for w :: u64
  by (simp add: sint_uint uint_nat signed_take_bit_int_eq_self del: of_nat_unat)

text \<open>
  What a passed validation means, in any well-formed state: an overflow test that fires stands for a sum beyond every limit. The counter must not look
  negative to the cast.
\<close>

lemma validate_iff:
  assumes wf: "risk_wf r" and lim: "unat (max_position r) < 2 ^ 63"
    and work: "unat (working (side ord) (pos_of r (trader_id ord, symbol_id ord))) < 2 ^ 63"
  shows "validate r ord = R_NONE \<longleftrightarrow> \<not> state_corrupt r \<and> checkOrderFields r ord = R_NONE \<and>
    dir (side ord) * ps_position (pos_of r (trader_id ord, symbol_id ord)) +
      int (unat (working (side ord) (pos_of r (trader_id ord, symbol_id ord)))) + int (unat (quantity ord)) \<le> int (unat (max_position r))"
proof -
  let ?s = "pos_of r (trader_id ord, symbol_id ord)" and ?q = "int (unat (quantity ord))" and ?m = "int (unat (max_position r))"
  let ?w = "int (unat (working (side ord) ?s))"
  have i: "in_i64 (ps_position ?s)" by (rule pos_of_i64 [OF wf])
  have m: "sint (max_position r) = ?m" "?m < 2 ^ 63" using lim sint_u64 by (simp_all del: of_nat_unat)
  have w: "sint (working (side ord) ?s) = ?w" "0 \<le> ?w" "0 \<le> ?q" using work sint_u64 by (simp_all del: of_nat_unat)
  show ?thesis
  proof (cases "side ord = BUY")
    case True
    have "canAddSigned a ?q = (if in_i64 (a + ?q) then Some (a + ?q) else None)" if "in_i64 a" for a by (rule canAddSigned_eq [OF that])
    then show ?thesis
      using True w m i by (auto simp: validate_def Let_def dir_def working_def canAddSigned_eq [OF i] in_i64_def simp del: of_nat_unat split: if_splits)
  next
    case False
    have "canSubSigned a ?q = (if in_i64 (a - ?q) then Some (a - ?q) else None)" if "in_i64 a" for a by (rule canSubSigned_eq [OF that])
    then show ?thesis
      using False w m i by (auto simp: validate_def Let_def dir_def working_def canSubSigned_eq [OF i] in_i64_def simp del: of_nat_unat split: if_splits)
  qed
qed

lemma validate_headroom:
  assumes "validate r ord = R_NONE" "risk_wf r" "within_bound M r" "bound_sane M"
  shows "dir (side ord) * ps_position (pos_of r (trader_id ord, symbol_id ord)) +
    int (unat (working (side ord) (pos_of r (trader_id ord, symbol_id ord)))) + int (unat (quantity ord)) \<le> int M"
proof -
  have "unat (max_position r) < 2 ^ 63" "unat (working (side ord) (pos_of r (trader_id ord, symbol_id ord))) < 2 ^ 63"
    using within_boundD(2,4) [OF assms(3)] assms(4) unfolding bound_sane_def
    by (metis le_less_trans diff_less zero_less_power zero_less_numeral)+
  then show ?thesis using validate_iff [OF assms(2), of ord] assms(1) within_boundD(4) [OF assms(3)] by (simp del: of_nat_unat)
qed

lemma resting_within:
  assumes "onOrderResting ord q r = (ok, r')" "within_bound M r"
    and room: "dir (side ord) * ps_position (pos_of r (trader_id ord, symbol_id ord)) +
      int (unat (working (side ord) (pos_of r (trader_id ord, symbol_id ord)))) + int (unat (quantity ord)) \<le> int M"
  shows "within_bound M r'"
  using assms(1) unfolding onOrderResting_def
proof (cases rule: applyResting_cases)
  case refused
  then show ?thesis using assms by simp
next
  case (rested w)
  have q: "unat q \<le> unat (quantity ord)" using rested(4) by (simp add: word_le_nat_alt)
  have "dir sd * ps_position (pos_of r' k) + int (unat (working sd (pos_of r' k))) \<le> int M \<and> unat (working sd (pos_of r' k)) \<le> M" for sd k
    using room q rested(8,9) within_boundD(1,2) [OF assms(2), of sd k] within_boundD(4) [OF assms(2)] unfolding rested(10) pos_of_update
    by (auto simp: word_le_nat_alt simp del: of_nat_unat)
  then show ?thesis using rested(10) within_boundD(4) [OF assms(2)] by (simp add: within_bound_def)
qed

lemma settle_within:
  assumes "within_bound M r" and s: "\<And>sd. dir sd * ps_position s + int (unat (working sd s)) \<le>
      dir sd * ps_position (pos_of r k) + int (unat (working sd (pos_of r k)))"
    "\<And>sd. unat (working sd s) \<le> unat (working sd (pos_of r k))"
  shows "within_bound M (settle oid info q k s r)"
proof -
  have "dir sd * ps_position (pos_of (settle oid info q k s r) k') + int (unat (working sd (pos_of (settle oid info q k s r) k'))) \<le> int M \<and>
      unat (working sd (pos_of (settle oid info q k s r) k')) \<le> M" for sd k'
    using within_boundD(1,2) [OF assms(1), of sd k'] s [of sd] by (auto simp: pos_of_settle simp del: of_nat_unat)
  then show ?thesis using within_boundD(4) [OF assms(1)] by (simp add: within_bound_def)
qed

lemma fill_within:
  assumes "onFill oid q r = (ok, r')" "risk_wf r" "within_bound M r"
  shows "within_bound M r'"
proof (cases "map_of (order_risk r) oid")
  case None
  then show ?thesis using assms by (simp add: onFill_def risk_applyFill_def split: if_splits)
next
  case (Some info)
  let ?s = "pos_of r (info_key info)"
  let ?t = "(set_working (ri_side info) (working (ri_side info) ?s - ucast q) ?s)\<lparr>ps_position := ps_position ?s + fill_delta (ri_side info) q\<rparr>"
  have "within_bound M (settle oid info q (info_key info) ?t r)" if q: "q \<le> ri_reserved_qty info"
  proof (rule settle_within [OF assms(3)])
    have le: "ucast q \<le> working (ri_side info) ?s"
      using risk_wf_reservation(2) [OF assms(2) Some] q by (simp add: word_le_nat_alt)
    fix sd
    show "unat (working sd ?t) \<le> unat (working sd ?s)" using le by (simp add: unat_sub)
    show "dir sd * ps_position ?t + int (unat (working sd ?t)) \<le> dir sd * ps_position ?s + int (unat (working sd ?s))"
      using le by (cases sd; cases "ri_side info") (simp_all add: dir_def fill_delta_def unat_sub word_le_nat_alt of_nat_diff)
  qed
  then show ?thesis
    using assms(1,3) Some by (auto simp: onFill_def risk_applyFill_eq [OF assms(2)] Let_def split: if_splits)
qed

lemma cancel_within:
  assumes "onOrderCancelled oid q r = (ok, r')" "risk_wf r" "within_bound M r"
  shows "within_bound M r'"
proof (cases "map_of (order_risk r) oid")
  case None
  then show ?thesis using assms by (simp add: onOrderCancelled_def applyCancelled_def split: if_splits)
next
  case (Some info)
  let ?s = "pos_of r (info_key info)"
  let ?t = "set_working (ri_side info) (working (ri_side info) ?s - ucast q) ?s"
  have "within_bound M (settle oid info q (info_key info) ?t r)" if q: "q \<le> ri_reserved_qty info"
  proof (rule settle_within [OF assms(3)])
    have le: "ucast q \<le> working (ri_side info) ?s"
      using risk_wf_reservation(2) [OF assms(2) Some] q by (simp add: word_le_nat_alt)
    fix sd
    show "unat (working sd ?t) \<le> unat (working sd ?s)" using le by (simp add: unat_sub)
    then show "dir sd * ps_position ?t + int (unat (working sd ?t)) \<le> dir sd * ps_position ?s + int (unat (working sd ?s))"
      by (simp del: of_nat_unat)
  qed
  then show ?thesis
    using assms(1,3) Some by (auto simp: onOrderCancelled_def applyCancelled_eq [OF assms(2)] Let_def split: if_splits)
qed

lemma replace_headroom:
  assumes v: "validateReplace r oid ord = R_NONE" and wf: "risk_wf r" "within_bound M r" "bound_sane M"
    and info: "map_of (order_risk r) oid = Some info"
    and c: "onOrderCancelled oid (ri_reserved_qty info) r = (True, r1)"
  shows "dir (side ord) * ps_position (pos_of r1 (trader_id ord, symbol_id ord)) +
    int (unat (working (side ord) (pos_of r1 (trader_id ord, symbol_id ord)))) + int (unat (quantity ord)) \<le> int M"
proof -
  let ?k = "(trader_id ord, symbol_id ord)" and ?res = "ucast (ri_reserved_qty info) :: u64"
  let ?s = "pos_of r ?k"
  let ?w = "working (side ord) ?s - ?res"
  have same: "info_key info = ?k" "ri_side info = side ord"
    using v info by (auto simp: validateReplace_def info_key_def split: if_splits)
  have i: "in_i64 (ps_position ?s)" by (rule pos_of_i64 [OF wf(1)])
  have le: "?res \<le> working (side ord) ?s"
    using risk_wf_reservation(2) [OF wf(1) info] same by simp
  have r1: "r1 = settle oid info (ri_reserved_qty info) ?k (set_working (side ord) ?w ?s) r"
    using c info same by (auto simp: onOrderCancelled_def applyCancelled_eq [OF wf(1)] Let_def split: if_splits)
  have M: "M \<le> 2 ^ 63 - 2 ^ 32" using wf(3) by (simp add: bound_sane_def)
  have w: "unat ?w \<le> 2 ^ 63 - 2 ^ 32"
    using within_boundD(2) [OF wf(2), of "side ord" ?k] M le by (simp add: unat_sub)
  then have add: "unat (?w + ucast (quantity ord)) = unat ?w + unat (quantity ord)"
    using unat_u32_less [of "quantity ord"]
    by (subst unat_plus_if') (simp_all del: unat_u32_less)
  then have "sint (?w + ucast (quantity ord)) = int (unat ?w + unat (quantity ord))"
    using w unat_u32_less [of "quantity ord"] by (subst sint_u64) (simp_all del: unat_u32_less of_nat_unat)
  moreover have "sint (max_position r) = int (unat (max_position r))"
    using within_boundD(4) [OF wf(2)] M by (intro sint_u64) simp
  ultimately have "dir (side ord) * ps_position ?s + int (unat ?w + unat (quantity ord)) \<le> int (unat (max_position r))"
    using v info
    by (auto simp: validateReplace_def Let_def dir_def canAddUnsigned_def canAddSigned_eq [OF i] canSubSigned_eq [OF i]
        simp del: of_nat_unat split: if_splits)
  then show ?thesis using within_boundD(4) [OF wf(2)] by (simp add: r1 pos_of_settle del: of_nat_unat)
qed

text \<open>
  The live path: an order rests only after it was validated, a replacement only after
  \<open>validateReplace\<close> and the cancellation of what the old order still had reserved; fills and
  cancellations come in any order; the limit is raised and lowered, but not above \<open>M\<close> (\<open>setMaxPosition\<close> ignores values of \<open>2 ^ 63\<close> and more).
\<close>

inductive live_step :: "nat \<Rightarrow> risk \<Rightarrow> risk \<Rightarrow> bool" for M where
  enter: "validate r ord = R_NONE \<Longrightarrow> onOrderResting ord q r = (ok, r') \<Longrightarrow> live_step M r r'"
| replaced: "validateReplace r oid ord = R_NONE \<Longrightarrow> map_of (order_risk r) oid = Some info \<Longrightarrow>
    onOrderCancelled oid (ri_reserved_qty info) r = (True, r1) \<Longrightarrow> onOrderResting ord q r1 = (ok, r') \<Longrightarrow> live_step M r r'"
| filled: "onFill oid q r = (ok, r') \<Longrightarrow> live_step M r r'"
| cancelled: "onOrderCancelled oid q r = (ok, r') \<Longrightarrow> live_step M r r'"
| corrupted: "live_step M r (markStateCorrupt r)"
| order_size: "live_step M r (setMaxOrderSize n r)"
| limit: "unat n \<le> M \<or> 2 ^ 63 \<le> unat n \<Longrightarrow> live_step M r (setMaxPosition n r)"
| banded: "live_step M r (setPriceBandPct p r)"
| referenced: "setReferencePrice sy p r = (ok, r') \<Longrightarrow> live_step M r r'"

lemma within_bound_cong: "positions r' = positions r \<Longrightarrow> unat (max_position r') \<le> M \<Longrightarrow> within_bound M r \<Longrightarrow> within_bound M r'"
  by (simp add: within_bound_def pos_of_def)

lemma setters_limit [simp]:
  "max_position (setMaxOrderSize n r) = max_position r" "max_position (setPriceBandPct p r) = max_position r"
  "max_position (snd (setReferencePrice sy p r)) = max_position r" "max_position (markStateCorrupt r) = max_position r"
  by (simp_all add: setMaxOrderSize_def setPriceBandPct_def setReferencePrice_def markStateCorrupt_def Let_def)

lemma setMaxPosition_limit: "max_position (setMaxPosition n r) = (if unat n < 2 ^ 63 then n else max_position r)"
  by (auto simp: setMaxPosition_def Let_def word_less_nat_alt)

definition live_ok :: "nat \<Rightarrow> risk \<Rightarrow> bool" where
  "live_ok M r \<longleftrightarrow> risk_wf r \<and> within_bound M r \<and> bound_sane M"

lemma live_ok_cong:
  "order_risk r' = order_risk r \<Longrightarrow> positions r' = positions r \<Longrightarrow> unat (max_position r') \<le> M \<Longrightarrow> live_ok M r \<Longrightarrow> live_ok M r'"
  unfolding live_ok_def using risk_wf_cong [of r' r] within_bound_cong [of r' r] by simp

lemma live_ok_same:
  "order_risk r' = order_risk r \<Longrightarrow> positions r' = positions r \<Longrightarrow> max_position r' = max_position r \<Longrightarrow> live_ok M r \<Longrightarrow> live_ok M r'"
  using live_ok_cong [of r' r M] within_boundD(4) [of M r] by (simp add: live_ok_def)

lemma live_resting:
  assumes "onOrderResting ord q r = (ok, r')" "live_ok M r"
    and "dir (side ord) * ps_position (pos_of r (trader_id ord, symbol_id ord)) +
      int (unat (working (side ord) (pos_of r (trader_id ord, symbol_id ord)))) + int (unat (quantity ord)) \<le> int M"
  shows "live_ok M r'"
  using resting_within [OF assms(1) _ assms(3)] applyResting_wf assms(1,2) by (auto simp: live_ok_def onOrderResting_def)

lemma live_cancelled: "onOrderCancelled oid q r = (ok, r') \<Longrightarrow> live_ok M r \<Longrightarrow> live_ok M r'"
  using cancel_within applyCancelled_wf by (fastforce simp: live_ok_def onOrderCancelled_def)

lemma live_filled: "onFill oid q r = (ok, r') \<Longrightarrow> live_ok M r \<Longrightarrow> live_ok M r'"
  using fill_within risk_applyFill_wf by (fastforce simp: live_ok_def onFill_def)

lemma live_step_ok:
  assumes "live_step M r r'" "live_ok M r"
  shows "live_ok M r'"
  using assms
proof (induction rule: live_step.induct)
  case (enter r ord q ok r')
  then show ?case using live_resting [OF enter(2,3)] validate_headroom by (simp add: live_ok_def)
next
  case (replaced r oid ord info r1 q ok r')
  then show ?case
    using live_resting [OF replaced(4) live_cancelled [OF replaced(3,5)]] replace_headroom [OF replaced(1) _ _ _ replaced(2,3)]
    by (simp add: live_ok_def)
next
  case (limit n r)
  have "unat (max_position (setMaxPosition n r)) \<le> M"
    using limit within_boundD(4) [of M r] by (auto simp: setMaxPosition_limit live_ok_def)
  then show ?case using live_ok_cong [OF setters_keep(3,4)] limit(2) by blast
next
  case (referenced sy p r ok r')
  then have "r' = snd (setReferencePrice sy p r)" by simp
  then show ?case using live_ok_same [OF setters_keep(7,8) setters_limit(3)] referenced(2) by simp
qed (auto intro: live_cancelled live_filled live_ok_same)

text \<open>
  C23. The exposure is bounded by the largest limit in force: from a reachable state in which limit, positions and working orders are within \<open>M\<close>, at most
  \<open>2 ^ 63 - 2 ^ 32\<close> (a new engine, or one just restored), and as long as every order rests only after it was validated, nothing is restored and no limit above \<open>M\<close> is
  set, no trader's position in a symbol ever exceeds \<open>M\<close> in either
  direction, and neither does the position plus every order still working on that side: the worst
  case of all working orders filling is covered, also after the limit was lowered.
\<close>

theorem risk_exposure_bounded:
  assumes "risk_step\<^sup>*\<^sup>* RiskEngine r0" "within_bound M r0" "M \<le> 2 ^ 63 - 2 ^ 32" "(live_step M)\<^sup>*\<^sup>* r0 r"
  shows "\<bar>getPosition tid sy r\<bar> \<le> int M \<and>
    getPosition tid sy r + int (unat (ps_working_buy (pos_of r (tid, sy)))) \<le> int M \<and>
    - int M \<le> getPosition tid sy r - int (unat (ps_working_sell (pos_of r (tid, sy))))"
proof -
  have "risk_wf r0" using assms(1) by (induction rule: rtranclp_induct) (auto intro: risk_wf_new risk_step_wf)
  then have "live_ok M r0" using assms(2,3) by (simp add: live_ok_def bound_sane_def)
  with assms(4) have "live_ok M r" by (induction rule: rtranclp_induct) (auto intro: live_step_ok)
  then have w: "within_bound M r" by (simp add: live_ok_def)
  show ?thesis
    using within_boundD(1) [OF w, of BUY "(tid, sy)"] within_boundD(1) [OF w, of SELL "(tid, sy)"]
      within_boundD(3) [OF w, of "(tid, sy)"]
    by (simp add: getPosition_def dir_def working_def del: of_nat_unat)
qed

definition ex_risk :: risk where
  "ex_risk = snd (setReferencePrice 1 (Fin 100) (setPriceBandPct (Fin 0) RiskEngine))"

lemma ex_risk_eq: "ex_risk = RiskEngine\<lparr>price_band_pct := Fin 0, ref_prices := [Fin 0, Fin 100], ref_price_set := [False, True]\<rparr>"
  by (simp add: ex_risk_def setReferencePrice_def setPriceBandPct_def RiskEngine_def resize_def Let_def)

lemma ex_risk_reach: "risk_step\<^sup>*\<^sup>* RiskEngine ex_risk"
proof -
  have "risk_step RiskEngine (setPriceBandPct (Fin 0) RiskEngine)" by (rule risk_step.band)
  moreover have "risk_step (setPriceBandPct (Fin 0) RiskEngine) ex_risk"
    unfolding ex_risk_def by (rule risk_step.reference) (rule surjective_pairing)
  ultimately show ?thesis by (meson converse_rtranclp_into_rtranclp r_into_rtranclp)
qed

lemma ex_risk_validates: "validate ex_risk ex_risk_order = R_NONE"
proof -
  have "rnd 0 = Fin 0" "rnd 1 = Fin 1" "rnd 100 = Fin 100"
    using rnd_of_int [of 0] rnd_of_int [of 1] rnd_of_int [of 100] by simp_all
  then show ?thesis
    by (simp add: validate_def checkOrderFields_def ex_risk_eq RiskEngine_def ex_risk_order_def ex_order_def pos_of_def
        d_sub_def d_neg_def d_gt_def canAddSigned_def i64_of_def Let_def)
qed

text \<open>An order rests and is filled in part, and the limit is lowered below the position it has built.\<close>

theorem risk_exposure_bounded_witness:
  "\<bar>getPosition 3 1 (setMaxPosition 2 (snd (onFill 7 4 (snd (onOrderResting ex_risk_order 10 ex_risk)))))\<bar> \<le> 10000000"
proof -
  let ?r1 = "snd (onOrderResting ex_risk_order 10 ex_risk)"
  let ?r2 = "snd (onFill 7 4 ?r1)"
  let ?M = "10000000 :: nat"
  have 1: "live_step ?M ex_risk ?r1"
    by (rule live_step.enter [OF ex_risk_validates]) (rule surjective_pairing)
  have 2: "live_step ?M ?r1 ?r2" by (rule live_step.filled) (rule surjective_pairing)
  have 3: "live_step ?M ?r2 (setMaxPosition 2 ?r2)" by (rule live_step.limit) simp
  have l: "(live_step ?M)\<^sup>*\<^sup>* ex_risk (setMaxPosition 2 ?r2)" using 1 2 3 by (meson converse_rtranclp_into_rtranclp r_into_rtranclp)
  have i: "within_bound ?M ex_risk" by (simp add: within_bound_def ex_risk_eq RiskEngine_def pos_of_def working_def)
  show ?thesis using conjunct1 [OF risk_exposure_bounded [OF ex_risk_reach i _ l, of 3 1]] by simp
qed

subsection \<open>Validation\<close>

text \<open>The fields the code checks first, as a predicate.\<close>

definition fields_ok :: "risk \<Rightarrow> order \<Rightarrow> bool" where
  "fields_ok r ord \<longleftrightarrow>
     (let i = unat (symbol_id ord); ref = ref_prices r ! i; band = d_div (price_band_pct r) 100;
          lower = d_mul ref (d_sub (Fin 1) band); upper = d_mul ref (d_add (Fin 1) band)
      in 0 < quantity ord \<and> unat (quantity ord) \<le> unat (max_order_qty r) \<and>
         i < MAX_SYMBOLS \<and> i < length (ref_prices r) \<and> ref_price_set r ! i \<and>
         (otype ord = MARKET \<or>
          pos_finite (price ord) \<and> pos_finite ref \<and> isfinite lower \<and> isfinite upper \<and>
          d_le lower (price ord) \<and> d_le (price ord) upper))"

lemma checkOrderFields_iff: "checkOrderFields r ord = R_NONE \<longleftrightarrow> fields_ok r ord"
proof -
  have "pos_finite p \<longleftrightarrow> isfinite p \<and> \<not> d_le p (Fin 0)" for p
    by (cases p) (auto simp: pos_finite_def)
  moreover have "max_order_qty r < ucast (quantity ord) \<longleftrightarrow> \<not> unat (quantity ord) \<le> unat (max_order_qty r)"
    by (simp add: word_less_nat_alt not_le)
  ultimately show ?thesis
    by (auto simp: checkOrderFields_def fields_ok_def Let_def d_gt_def d_le_not_lt word_gt_0 not_le not_less)
qed

text \<open>No call leaves a limit that is not a signed number.\<close>

lemma operations_limit:
  "applyResting ord q enforce r = (ok, r') \<Longrightarrow> max_position r' = max_position r"
  "risk_applyFill oid q r = (ok, r') \<Longrightarrow> max_position r' = max_position r"
  "applyCancelled oid q r = (ok, r') \<Longrightarrow> max_position r' = max_position r"
  by (auto simp: applyResting_def risk_applyFill_def applyCancelled_def settle_def Let_def split: if_splits option.splits)

lemma risk_step_limit: "risk_step r r' \<Longrightarrow> unat (max_position r) < 2 ^ 63 \<Longrightarrow> unat (max_position r') < 2 ^ 63"
proof (induction rule: risk_step.induct)
  case (reference n p r ok r')
  then have "r' = snd (setReferencePrice n p r)" by simp
  then show ?case using reference(2) by simp
next
  case (max_pos r n)
  then show ?case by (simp add: setMaxPosition_limit)
qed (auto simp: onOrderResting_def onFill_def onOrderCancelled_def restoreAccepted_def restoreFill_def restoreCancelled_def
    dest: operations_limit split: prod.splits)

lemma reachable_risk:
  assumes "risk_step\<^sup>*\<^sup>* RiskEngine r"
  shows "risk_wf r" "unat (max_position r) < 2 ^ 63"
proof -
  have "risk_wf r \<and> unat (max_position r) < 2 ^ 63"
    using assms
  proof (induction rule: rtranclp_induct)
    case base
    then show ?case by (simp add: risk_wf_new) (simp add: RiskEngine_def)
  next
    case (step r r')
    then show ?case using risk_step_wf risk_step_limit by blast
  qed
  then show "risk_wf r" "unat (max_position r) < 2 ^ 63" by auto
qed

text \<open>
  C24. In every state the engine reaches, restores and lowered limits included, \<open>validate\<close> passes an order exactly when the engine is not corrupt, the quantity is positive and
  at most the order limit, the symbol has a reference price, the price of a non-market order is finite,
  positive and inside the band around the reference, and the position with all working orders of that
  side and this order, computed without bounds, stays within the position limit: where the 64-bit sum would overflow the order is refused. (The working
  quantity of the side must be below \<open>2 ^ 63\<close>, or its cast to a signed number is negative.)
\<close>

theorem validate_exact:
  assumes "risk_step\<^sup>*\<^sup>* RiskEngine r" "unat (working (side ord) (pos_of r (trader_id ord, symbol_id ord))) < 2 ^ 63"
  shows "validate r ord = R_NONE \<longleftrightarrow> \<not> state_corrupt r \<and> fields_ok r ord \<and>
    (let s = pos_of r (trader_id ord, symbol_id ord) in
     if side ord = BUY
     then ps_position s + int (unat (ps_working_buy s)) + int (unat (quantity ord)) \<le> int (unat (max_position r))
     else - int (unat (max_position r)) \<le> ps_position s - int (unat (ps_working_sell s)) - int (unat (quantity ord)))"
  using validate_iff [OF reachable_risk [OF assms(1)] assms(2)]
  by (auto simp: checkOrderFields_iff Let_def dir_def working_def simp del: of_nat_unat)

theorem validate_exact_witness:
  "validate ex_risk ex_risk_order = R_NONE \<and> fields_ok ex_risk ex_risk_order"
proof -
  have "unat (working (side ex_risk_order) (pos_of ex_risk (trader_id ex_risk_order, symbol_id ex_risk_order))) < 2 ^ 63"
    by (simp add: ex_risk_eq RiskEngine_def pos_of_def working_def)
  then show ?thesis using validate_exact [OF ex_risk_reach] ex_risk_validates by blast
qed

subsection \<open>Corruption\<close>

lemma corrupt_ops:
  assumes "state_corrupt r"
  shows "applyResting ord q enforce r = (False, r)" "risk_applyFill oid q r = (False, r)" "applyCancelled oid q r = (False, r)"
  using assms by (simp_all add: applyResting_def risk_applyFill_def applyCancelled_def)

lemma setters_corrupt [simp]:
  "state_corrupt (setMaxOrderSize n r) = state_corrupt r" "state_corrupt (setMaxPosition n r) = state_corrupt r"
  "state_corrupt (setPriceBandPct p r) = state_corrupt r"
  "state_corrupt (snd (setReferencePrice sy p r)) = state_corrupt r" "state_corrupt (markStateCorrupt r)"
  by (simp_all add: setMaxOrderSize_def setMaxPosition_def setPriceBandPct_def setReferencePrice_def markStateCorrupt_def Let_def)

lemma corrupt_step:
  assumes "risk_step r r'" "state_corrupt r"
  shows "state_corrupt r' \<and> positions r' = positions r \<and> order_risk r' = order_risk r"
  using assms
proof (induction rule: risk_step.induct)
  case (reference n p r ok r')
  then have "r' = snd (setReferencePrice n p r)" by simp
  then show ?case using reference(2) by simp
qed (auto simp: onOrderResting_def onFill_def onOrderCancelled_def restoreAccepted_def restoreFill_def restoreCancelled_def
    corrupt_ops)

text \<open>
  C26. The risk engine fails closed: once the state is marked corrupt, every order and every
  replacement is rejected with \<open>STATE_CORRUPT\<close>, every report of a resting order, a fill or a
  cancellation is refused, the mark is never taken back and the books stay as they were.
\<close>

theorem risk_fails_closed:
  assumes "state_corrupt r" "risk_step\<^sup>*\<^sup>* r r'"
  shows "validate r' ord = STATE_CORRUPT \<and> validateReplace r' oid ord = STATE_CORRUPT \<and>
    onOrderResting ord q r' = (False, r') \<and> onFill oid q r' = (False, r') \<and> onOrderCancelled oid q r' = (False, r') \<and>
    positions r' = positions r \<and> order_risk r' = order_risk r"
proof -
  have "state_corrupt r' \<and> positions r' = positions r \<and> order_risk r' = order_risk r"
    using assms(2,1) by (induction rule: rtranclp_induct) (auto dest: corrupt_step)
  then show ?thesis
    by (simp add: validate_def validateReplace_def onOrderResting_def onFill_def onOrderCancelled_def corrupt_ops)
qed

theorem risk_fails_closed_witness:
  "validate (setMaxPosition 5 (restoreFill 9 1 ex_risk)) ex_risk_order = STATE_CORRUPT"
proof -
  have c: "state_corrupt (restoreFill 9 1 ex_risk)"
    by (simp add: restoreFill_def risk_applyFill_def markStateCorrupt_def ex_risk_eq RiskEngine_def)
  have "risk_step\<^sup>*\<^sup>* (restoreFill 9 1 ex_risk) (setMaxPosition 5 (restoreFill 9 1 ex_risk))"
    by (rule r_into_rtranclp, rule risk_step.max_pos)
  then show ?thesis using risk_fails_closed [OF c] by blast
qed

end
