(* ===== verification/Risk_Crosscheck.thy ===== *)
theory Risk_Crosscheck
  imports Risk_Properties
begin

text \<open>
  \<open>RiskEngine::checkInvariant\<close> against the book. The book enters through the two queries the check calls,
  with the laws it relies on as a locale that the order book's model satisfies.
\<close>

locale order_lookup =
  fixes lookup :: "u64 \<Rightarrow> 'b \<Rightarrow> order option" and count :: "'b \<Rightarrow> nat"
    and contents :: "'b \<Rightarrow> order list" and inv :: "'b \<Rightarrow> bool"
  assumes lookup_iff: "inv b \<Longrightarrow> lookup i b = Some x \<longleftrightarrow> x \<in> set (contents b) \<and> order_id x = i"
    and count_eq: "inv b \<Longrightarrow> count b = length (contents b)"
    and distinct_ids: "inv b \<Longrightarrow> distinct (map order_id (contents b))"
begin

text \<open>
  Comparing the counts and looking up every tracked order is enough: by counting, no order of the
  book is left untracked.
\<close>

lemma tracked_iff:
  assumes b: "inv b" and es: "distinct (map fst es)"
  shows "count b = length es \<and> (\<forall>(oid, x) \<in> set es. \<exists>ord. lookup oid b = Some ord \<and> f ord = x) \<longleftrightarrow>
    set es = (\<lambda>ord. (order_id ord, f ord)) ` set (contents b)" (is "?L \<longleftrightarrow> set es = ?g ` _")
proof -
  have c: "distinct (contents b)" using distinct_ids [OF b] by (simp add: distinct_map)
  have inj: "inj_on ?g (set (contents b))"
    using distinct_ids [OF b] by (auto simp: inj_on_def distinct_map)
  have card: "card (set es) = length es" using es by (simp add: distinct_card distinct_map)
  have card': "card (?g ` set (contents b)) = count b"
    using card_image [OF inj] distinct_card [OF c] count_eq [OF b] by simp
  show ?thesis
  proof
    assume L: ?L
    then have "set es \<subseteq> ?g ` set (contents b)" using lookup_iff [OF b] by fastforce
    then show "set es = ?g ` set (contents b)" using L card card' by (intro card_subset_eq) simp_all
  next
    assume E: "set es = ?g ` set (contents b)"
    then show ?L using card card' lookup_iff [OF b] by auto
  qed
qed

end

interpretation ob: order_lookup getOrderById getOrderCount book_orders "book_wf capacity" for capacity
proof
  fix b i x
  assume b: "book_wf capacity b"
  show "getOrderById i b = Some x \<longleftrightarrow> x \<in> set (book_orders b) \<and> order_id x = i" by (rule getOrderById_Some [OF b])
  show "getOrderCount b = length (book_orders b)" by (rule getOrderCount_eq)
  show "distinct (map order_id (book_orders b))" using b by (simp add: book_wf_def)
qed

subsection \<open>The derived sums\<close>

definition getq :: "(position_key \<times> u64) list \<Rightarrow> position_key \<Rightarrow> u64" where
  "getq d k = (case map_of d k of Some q \<Rightarrow> q | None \<Rightarrow> 0)"

lemma getq_update: "getq (AList.update k q d) k' = (if k' = k then q else getq d k')"
  by (simp add: getq_def update_conv')

lemma getq_derive:
  "getq (derive sd es d) k = getq d k + of_nat (sum_list (map (reserved_of sd k) es))"
proof (induction es arbitrary: d)
  case (Cons e es)
  show ?case by (simp add: Cons getq_update reserved_of_def getq_def [symmetric])
qed simp

lemma derive_keys:
  "map_of (derive sd es d) k \<noteq> None \<longleftrightarrow> map_of d k \<noteq> None \<or> (\<exists>e \<in> set es. ri_side (snd e) = sd \<and> info_key (snd e) = k)"
  by (induction es arbitrary: d) (auto simp: update_conv')

lemma all_keys_iff: "list_all (\<lambda>(k, q). P k) d \<longleftrightarrow> (\<forall>k. map_of d k \<noteq> None \<longrightarrow> P k)"
  by (auto simp: list_all_iff map_of_eq_None_iff)

lemma derived_tracked:
  "list_all (\<lambda>(k, q). map_of (positions r) k \<noteq> None) (derive BUY es []) \<and>
   list_all (\<lambda>(k, q). map_of (positions r) k \<noteq> None) (derive SELL es []) \<longleftrightarrow>
   (\<forall>e \<in> set es. map_of (positions r) (info_key (snd e)) \<noteq> None)"
proof -
  have "(\<exists>e \<in> set es. ri_side (snd e) = BUY \<and> info_key (snd e) = k) \<or> (\<exists>e \<in> set es. ri_side (snd e) = SELL \<and> info_key (snd e) = k) \<longleftrightarrow>
      (\<exists>e \<in> set es. info_key (snd e) = k)" for k
    using order_side.exhaust by blast
  then show ?thesis unfolding all_keys_iff derive_keys by (simp only: map_of.simps simp_thms) blast
qed

lemma all_sides: "(\<forall>sd. P sd) \<longleftrightarrow> P BUY \<and> P SELL"
  by (metis order_side.exhaust)

lemma getq_Nil [simp]: "getq [] k = 0"
  by (simp add: getq_def)

lemma counters_iff:
  assumes d: "distinct (map fst (positions r))"
    and t: "\<forall>e \<in> set (order_risk r). map_of (positions r) (info_key (snd e)) \<noteq> None"
  shows "list_all (\<lambda>(k, s). ps_working_buy s = getq (derive BUY (order_risk r) []) k \<and>
      ps_working_sell s = getq (derive SELL (order_risk r) []) k) (positions r) \<longleftrightarrow>
    (\<forall>k sd. working sd (pos_of r k) = of_nat (reserved_sum sd k r))" (is "?L \<longleftrightarrow> ?R")
proof -
  have "?L \<longleftrightarrow> (\<forall>k s sd. map_of (positions r) k = Some s \<longrightarrow> working sd s = of_nat (reserved_sum sd k r))"
  proof -
    have "ps_working_buy s = getq (derive BUY (order_risk r) []) k \<and> ps_working_sell s = getq (derive SELL (order_risk r) []) k \<longleftrightarrow>
        (\<forall>sd. working sd s = of_nat (reserved_sum sd k r))" for k s
      using all_sides [of "\<lambda>sd. working sd s = of_nat (reserved_sum sd k r)"]
      by (simp add: getq_derive reserved_sum_def working_def)
    then show ?thesis using map_of_eq_Some_iff [OF d] by (auto simp: list_all_iff)
  qed
  also have "\<dots> \<longleftrightarrow> ?R"
  proof -
    have "reserved_sum sd k r = 0" if "map_of (positions r) k = None" for sd k
      using t that by (auto simp: reserved_sum_def reserved_of_def)
    then show ?thesis by (fastforce simp: pos_of_alt split: option.splits)
  qed
  finally show ?thesis .
qed

subsection \<open>The check is exact\<close>

text \<open>What the risk engine should have reserved for a resting order.\<close>

definition reservation :: "order \<Rightarrow> order_risk_info" where
  "reservation ord = \<lparr>ri_trader_id = trader_id ord, ri_symbol_id = symbol_id ord, ri_side = side ord,
     ri_reserved_qty = remaining_quantity ord\<rparr>"

definition mirrors :: "risk \<Rightarrow> book \<Rightarrow> bool" where
  "mirrors r b \<longleftrightarrow> set (order_risk r) = (\<lambda>ord. (order_id ord, reservation ord)) ` set (book_orders b) \<and>
     (\<forall>ord \<in> set (book_orders b). remaining_quantity ord \<noteq> 0)"

lemma lookups_iff:
  assumes b: "book_wf capacity b" and d: "distinct (map fst (order_risk r))"
  shows "getOrderCount b = length (order_risk r) \<and>
     list_all (\<lambda>(oid, info).
       ri_reserved_qty info \<noteq> 0 \<and>
       (case getOrderById oid b of
          None \<Rightarrow> False
        | Some ord \<Rightarrow> order_id ord = oid \<and> trader_id ord = ri_trader_id info \<and>
            symbol_id ord = ri_symbol_id info \<and> side ord = ri_side info \<and>
            remaining_quantity ord = ri_reserved_qty info)) (order_risk r) \<longleftrightarrow> mirrors r b" (is "?n \<and> list_all ?P _ \<longleftrightarrow> _")
proof -
  have P: "?P (oid, info) \<longleftrightarrow> ri_reserved_qty info \<noteq> 0 \<and> (\<exists>ord. getOrderById oid b = Some ord \<and> reservation ord = info)" for oid info
  proof -
    have "order_id ord = oid" if "getOrderById oid b = Some ord" for ord
      using that ob.lookup_iff [OF b] by simp
    then show ?thesis by (cases info) (auto simp: reservation_def split: option.splits)
  qed
  have "?n \<and> list_all ?P (order_risk r) \<longleftrightarrow> (\<forall>(oid, info) \<in> set (order_risk r). ri_reserved_qty info \<noteq> 0) \<and>
     (?n \<and> (\<forall>(oid, info) \<in> set (order_risk r). \<exists>ord. getOrderById oid b = Some ord \<and> reservation ord = info))"
    using P by (auto simp: list_all_iff)
  also have "\<dots> \<longleftrightarrow> mirrors r b"
    unfolding ob.tracked_iff [OF b d] mirrors_def by (auto simp: reservation_def)
  finally show ?thesis .
qed

text \<open>
  C25. The cross-check of the risk engine against the book is exact: it succeeds if and only if the engine is
  not marked corrupt, the tracked reservations are, order by order, the resting orders of the book
  with their trader, symbol, side and remaining quantity, every reservation has a position entry and every
  working counter is the sum of its reservations. No disagreement passes and no
  consistent state is refused.
\<close>

theorem checkInvariant_exact:
  assumes "maps_wf r" "book_wf capacity b"
  shows "checkInvariant r b \<longleftrightarrow> \<not> state_corrupt r \<and> mirrors r b \<and>
    (\<forall>(oid, info) \<in> set (order_risk r). map_of (positions r) (info_key info) \<noteq> None) \<and>
    (\<forall>k sd. working sd (pos_of r k) = of_nat (reserved_sum sd k r))"
proof -
  have d: "distinct (map fst (order_risk r))" "distinct (map fst (positions r))"
    using assms(1) by (simp_all add: maps_wf_def)
  have t: "(\<forall>(oid, info) \<in> set (order_risk r). map_of (positions r) (info_key info) \<noteq> None) \<longleftrightarrow>
      (\<forall>e \<in> set (order_risk r). map_of (positions r) (info_key (snd e)) \<noteq> None)"
    by (simp add: split_beta)
  have "checkInvariant r b \<longleftrightarrow> \<not> state_corrupt r \<and> mirrors r b \<and>
     (list_all (\<lambda>(k, s). ps_working_buy s = getq (derive BUY (order_risk r) []) k \<and>
      ps_working_sell s = getq (derive SELL (order_risk r) []) k) (positions r) \<and>
     (\<forall>e \<in> set (order_risk r). map_of (positions r) (info_key (snd e)) \<noteq> None))"
    unfolding checkInvariant_def Let_def getq_def derived_tracked [symmetric] lookups_iff [OF assms(2) d(1), symmetric]
      if_bool_eq_conj
    by blast
  then show ?thesis using counters_iff [OF d(2)] t by blast
qed

theorem checkInvariant_exact_witness:
  "mirrors (snd (onOrderResting ex_risk_order 10 RiskEngine)) (snd (addOrder ex_risk_order (OrderBook 8)))"
proof -
  let ?r = "snd (onOrderResting ex_risk_order 10 RiskEngine)" and ?b = "snd (addOrder ex_risk_order (OrderBook 8))"
  have wf: "risk_wf ?r"
    by (rule applyResting_wf [OF _ risk_wf_new, of ex_risk_order 10 True "fst (onOrderResting ex_risk_order 10 RiskEngine)"])
      (simp add: onOrderResting_def)
  have b: "book_wf 8 ?b"
  proof (rule addOrder_ok [OF book_wf_OrderBook [of 8], of ex_risk_order])
    show "restable ex_risk_order" by (simp add: restable_def ex_risk_order_def ex_order_def)
  qed (simp_all add: OrderBook_def book_orders_def)
  have "checkInvariant ?r ?b" by code_simp
  then show ?thesis using checkInvariant_exact [OF _ b, of ?r] wf by (simp add: risk_wf_def)
qed

end
