(* ===== verification/Ring_Buffer.thy ===== *)
theory Ring_Buffer
  imports Order_Types
begin

text \<open>
  The single-producer single-consumer ring of \<open>include/RingBuffer.h\<close> and \<open>src/RingBuffer.cpp\<close>, with
  its 64-bit indices and mask, and the interface of a bounded queue it implements. The
  two threads are in \<open>Concurrent_Engine\<close>.
\<close>

unbundle bit_operations_syntax

subsection \<open>Slots read around a ring\<close>

text \<open>\<open>c\<close> slots from position \<open>s\<close> on, around a vector of slots.\<close>

definition ring_list :: "'a list \<Rightarrow> nat \<Rightarrow> nat \<Rightarrow> 'a list" where
  "ring_list xs s c = map (\<lambda>i. xs ! ((s + i) mod length xs)) [0..<c]"

lemma length_ring_list [simp]: "length (ring_list xs s c) = c"
  by (simp add: ring_list_def)

lemma nth_ring_list [simp]: "i < c \<Longrightarrow> ring_list xs s c ! i = xs ! ((s + i) mod length xs)"
  by (simp add: ring_list_def)

lemma ring_list_0 [simp]: "ring_list xs s 0 = []"
  by (simp add: ring_list_def)

lemma ring_list_mod: "s mod length xs = t mod length xs \<Longrightarrow> ring_list xs s c = ring_list xs t c"
  unfolding ring_list_def by (metis mod_add_left_eq)

lemma ring_slot_inj:
  "i < j \<Longrightarrow> j < n \<Longrightarrow> (s + i) mod n \<noteq> (s + j) mod n" for n :: nat
proof
  assume ij: "i < j" "j < n" and eq: "(s + i) mod n = (s + j) mod n"
  then have "n dvd (s + j) - (s + i)" by (metis mod_eq_dvd_iff_nat nat_add_left_cancel_le order_less_imp_le)
  then have "n dvd j - i" by simp
  moreover have "0 < j - i" "j - i < n" using ij by auto
  ultimately show False using nat_dvd_not_less by blast
qed

lemma ring_list_push:
  assumes "c < length xs"
  shows "ring_list (xs[(s + c) mod length xs := v]) s (Suc c) = ring_list xs s c @ [v]"
proof (rule nth_equalityI)
  fix i assume "i < length (ring_list (xs[(s + c) mod length xs := v]) s (Suc c))"
  then have i: "i < Suc c" by simp
  have len: "0 < length xs" using assms by auto
  show "ring_list (xs[(s + c) mod length xs := v]) s (Suc c) ! i = (ring_list xs s c @ [v]) ! i"
  proof (cases "i = c")
    case True
    then show ?thesis using i len by (simp add: nth_append)
  next
    case False
    then have "(s + i) mod length xs \<noteq> (s + c) mod length xs" using i assms by (intro ring_slot_inj) auto
    then show ?thesis using i False by (simp add: nth_append)
  qed
qed simp

lemma ring_list_pop: "ring_list xs s (Suc c) = xs ! (s mod length xs) # ring_list xs (Suc s) c"
  by (rule nth_equalityI) (auto simp: nth_Cons split: nat.splits)

subsection \<open>Powers of two and masks\<close>

lemma pow2_of_and: "0 < n \<Longrightarrow> n AND (n - 1) = 0 \<Longrightarrow> \<exists>k. n = 2 ^ k" for n :: nat
proof (induction n rule: less_induct)
  case (less n)
  show ?case
  proof (cases "even n")
    case True
    then obtain m where m: "n = 2 * m" by blast
    have "0 < m" using less.prems m by simp
    have "n - 1 = 2 * (m - 1) + 1" using m \<open>0 < m\<close> by simp
    then have "n AND (n - 1) = 2 * (m AND (m - 1))" using m by (simp add: and_rec [of "2 * m"])
    then have "m AND (m - 1) = 0" using less.prems by simp
    then obtain k where "m = 2 ^ k" using less.IH [of m] m \<open>0 < m\<close> by auto
    then show ?thesis using m by (metis power_Suc)
  next
    case False
    then obtain m where m: "n = 2 * m + 1" using oddE by blast
    then have "n AND (n - 1) = 2 * m" by (simp add: and_rec [of "Suc (2 * m)"])
    then have "m = 0" using less.prems by simp
    then show ?thesis using m by (intro exI [of _ 0]) simp
  qed
qed

lemma word_pow2:
  assumes "x \<noteq> 0" "x AND (x - 1) = 0"
  obtains k where "unat x = 2 ^ k"
proof -
  have "0 < unat x" using assms(1) by (simp add: unat_gt_0)
  moreover have "unat (x - 1) = unat x - 1" using assms(1) by (simp add: unat_minus_one)
  then have "unat x AND (unat x - 1) = 0" using assms(2) by (metis unat_0 unsigned_and_eq)
  ultimately show thesis using pow2_of_and that by blast
qed

lemma unat_and_mask:
  fixes x cap :: u64
  assumes "unat cap = 2 ^ k"
  shows "unat (x AND (cap - 1)) = unat x mod 2 ^ k"
proof -
  have "cap \<noteq> 0" using assms by auto
  then have "unat (cap - 1) = mask k" using assms by (simp add: unat_minus_one mask_eq_exp_minus_1)
  then show ?thesis by (simp add: unsigned_and_eq take_bit_eq_mod flip: take_bit_eq_mask)
qed

subsection \<open>The interface: a bounded first-in first-out queue\<close>

text \<open>
  What the two rings of the program promise to their clients. \<open>room\<close> is the number of
  elements a queue can hold, \<open>valid\<close> what it accepts at all.
\<close>

locale bounded_queue =
  fixes wf :: "'q \<Rightarrow> bool" and contents :: "'q \<Rightarrow> 'a list" and room :: "'q \<Rightarrow> nat"
    and valid :: "'a \<Rightarrow> bool"
    and push_op :: "'a \<Rightarrow> 'q \<Rightarrow> bool \<times> 'q" and pop_op :: "'q \<Rightarrow> 'a option \<times> 'q"
  assumes bounded: "wf q \<Longrightarrow> length (contents q) \<le> room q"
    and push_ok: "wf q \<Longrightarrow> valid x \<Longrightarrow> length (contents q) < room q \<Longrightarrow>
      \<exists>q'. push_op x q = (True, q') \<and> wf q' \<and> contents q' = contents q @ [x] \<and> room q' = room q"
    and push_refused: "wf q \<Longrightarrow> \<not> valid x \<or> length (contents q) = room q \<Longrightarrow> push_op x q = (False, q)"
    and pop_none: "wf q \<Longrightarrow> contents q = [] \<Longrightarrow> pop_op q = (None, q)"
    and pop_some: "wf q \<Longrightarrow> contents q = x # xs \<Longrightarrow>
      \<exists>q'. pop_op q = (Some x, q') \<and> wf q' \<and> contents q' = xs \<and> room q' = room q"

text \<open>A run of operations: \<open>Some x\<close> pushes \<open>x\<close>, \<open>None\<close> pops. It collects what was accepted and what came out.\<close>

primrec run_ops :: "('a \<Rightarrow> 'q \<Rightarrow> bool \<times> 'q) \<Rightarrow> ('q \<Rightarrow> 'a option \<times> 'q) \<Rightarrow> 'a option list \<Rightarrow> 'q \<Rightarrow> 'a list \<times> 'a list \<times> 'q" where
  "run_ops psh pp [] q = ([], [], q)"
| "run_ops psh pp (c # cs) q =
     (case c of
        Some x \<Rightarrow> (let (ok, q1) = psh x q; (acc, out, q2) = run_ops psh pp cs q1
                   in (if ok then x # acc else acc, out, q2))
      | None \<Rightarrow> (let (r, q1) = pp q; (acc, out, q2) = run_ops psh pp cs q1
                 in (acc, (case r of Some y \<Rightarrow> y # out | None \<Rightarrow> out), q2)))"

context bounded_queue
begin

lemma push_cases:
  assumes "wf q"
  obtains q' where "valid x" "length (contents q) < room q" "push_op x q = (True, q')" "wf q'"
      "contents q' = contents q @ [x]" "room q' = room q"
  | "push_op x q = (False, q)" "\<not> valid x \<or> length (contents q) = room q"
  using bounded [OF assms] push_ok [OF assms] push_refused [OF assms]
  by (metis le_neq_implies_less)

lemma pop_cases:
  assumes "wf q"
  obtains x q' where "pop_op q = (Some x, q')" "wf q'" "contents q = x # contents q'" "room q' = room q"
  | "pop_op q = (None, q)" "contents q = []"
  using pop_none [OF assms] pop_some [OF assms] by (cases "contents q") blast+

text \<open>Nothing is lost, duplicated or reordered.\<close>

lemma fifo:
  "wf q \<Longrightarrow> run_ops push_op pop_op cs q = (acc, out, q') \<Longrightarrow>
   contents q @ acc = out @ contents q' \<and> wf q' \<and> room q' = room q"
proof (induction cs arbitrary: q acc out)
  case Nil
  then show ?case by simp
next
  case (Cons c cs)
  show ?case
  proof (cases c)
    case None
    from \<open>wf q\<close> show ?thesis
    proof (cases rule: pop_cases)
      case (1 x q1)
      then show ?thesis
        using Cons None by (fastforce split: prod.splits)
    next
      case 2
      then show ?thesis using Cons None by (fastforce split: prod.splits)
    qed
  next
    case (Some x)
    from \<open>wf q\<close> show ?thesis
    proof (cases rule: push_cases [where x = x])
      case (1 q1)
      then show ?thesis using Cons Some by (fastforce split: prod.splits)
    next
      case 2
      then show ?thesis using Cons Some by (fastforce split: prod.splits)
    qed
  qed
qed

end

subsection \<open>\<open>RingBuffer\<close>\<close>

record ring =
  rb_buffer :: "order list"
  rb_head :: u64
  rb_tail :: u64
  rb_capacity :: u64
  rb_mask :: u64

text \<open>The slots are default-constructed; \<open>now i\<close> is the clock the \<open>i\<close>-th constructor reads.\<close>

definition RingBuffer :: "(nat \<Rightarrow> i64) \<Rightarrow> u64 \<Rightarrow> exn + ring" where
  "RingBuffer now sz =
     (if sz < 2 \<or> sz AND (sz - 1) \<noteq> 0
      then Inl (Invalid_argument ''RingBuffer size must be a power of 2 (>= 2)'')
      else Inr \<lparr>rb_buffer = map (\<lambda>i. order_default (now i)) [0..<unat sz], rb_head = 0, rb_tail = 0,
             rb_capacity = sz, rb_mask = sz - 1\<rparr>)"

definition rb_push :: "order \<Rightarrow> ring \<Rightarrow> bool \<times> ring" where
  "rb_push ord r =
     (let current_tail = rb_tail r;
          next_tail = (current_tail + 1) AND rb_mask r
      in if next_tail = rb_head r then (False, r)
         else (True, r\<lparr>rb_buffer := (rb_buffer r)[unat current_tail := ord], rb_tail := next_tail\<rparr>))"

definition rb_pop :: "ring \<Rightarrow> order option \<times> ring" where
  "rb_pop r =
     (let current_head = rb_head r
      in if current_head = rb_tail r then (None, r)
         else (Some (rb_buffer r ! unat current_head), r\<lparr>rb_head := (current_head + 1) AND rb_mask r\<rparr>))"

definition rb_isEmpty :: "ring \<Rightarrow> bool" where
  "rb_isEmpty r \<longleftrightarrow> rb_head r = rb_tail r"

definition rb_isFull :: "ring \<Rightarrow> bool" where
  "rb_isFull r \<longleftrightarrow> (rb_tail r + 1) AND rb_mask r = rb_head r"

definition rb_size :: "ring \<Rightarrow> u64" where
  "rb_size r = (if rb_head r \<le> rb_tail r then rb_tail r - rb_head r
                else rb_capacity r - rb_head r + rb_tail r)"

subsubsection \<open>Invariant and contents\<close>

definition rb_wf :: "ring \<Rightarrow> bool" where
  "rb_wf r \<longleftrightarrow> 2 \<le> rb_capacity r \<and> rb_capacity r AND (rb_capacity r - 1) = 0 \<and>
     rb_mask r = rb_capacity r - 1 \<and> length (rb_buffer r) = unat (rb_capacity r) \<and>
     rb_head r < rb_capacity r \<and> rb_tail r < rb_capacity r"

definition rb_count :: "ring \<Rightarrow> nat" where
  "rb_count r = (unat (rb_tail r) + unat (rb_capacity r) - unat (rb_head r)) mod unat (rb_capacity r)"

definition rb_contents :: "ring \<Rightarrow> order list" where
  "rb_contents r = ring_list (rb_buffer r) (unat (rb_head r)) (rb_count r)"

lemma rb_wf_pow2:
  assumes "rb_wf r"
  obtains k where "unat (rb_capacity r) = 2 ^ k" "2 \<le> unat (rb_capacity r)" "unat (rb_capacity r) \<le> 2 ^ 63"
    "unat (rb_head r) < unat (rb_capacity r)" "unat (rb_tail r) < unat (rb_capacity r)"
    "length (rb_buffer r) = unat (rb_capacity r)" "rb_mask r = rb_capacity r - 1"
proof -
  have c: "rb_capacity r \<noteq> 0" "2 \<le> unat (rb_capacity r)"
    using assms by (auto simp: rb_wf_def word_le_nat_alt)
  obtain k where k: "unat (rb_capacity r) = 2 ^ k"
    using word_pow2 [OF c(1)] assms by (auto simp: rb_wf_def)
  have "(2::nat) ^ k < 2 ^ 64" using unat_u64_less [of "rb_capacity r"] k by simp
  then have "k < 64" by (rule power_less_imp_less_exp [rotated]) simp
  then have "(2::nat) ^ k \<le> 2 ^ 63" by (intro power_increasing) auto
  then show thesis using that [of k] k c assms by (simp add: rb_wf_def word_less_nat_alt)
qed

lemma rb_next:
  assumes "rb_wf r" "x < rb_capacity r"
  shows "unat ((x + 1) AND rb_mask r) = Suc (unat x) mod unat (rb_capacity r)"
proof (rule rb_wf_pow2 [OF assms(1)])
  fix k assume k: "unat (rb_capacity r) = 2 ^ k" "unat (rb_capacity r) \<le> 2 ^ 63" "rb_mask r = rb_capacity r - 1"
  have "unat x < 2 ^ 63" using assms(2) k(2) by (simp add: word_less_nat_alt)
  then have "unat (x + 1) = Suc (unat x)" by (simp add: unat_add_lem [THEN iffD1])
  then show ?thesis using unat_and_mask [OF k(1), of "x + 1"] k by simp
qed

lemma rb_arith:
  fixes h t n :: nat
  assumes "h < n" "t < n"
  defines "c \<equiv> (t + n - h) mod n"
  shows "c < n" and "(h + c) mod n = t" and "Suc t mod n = h \<longleftrightarrow> c = n - 1" and "c = 0 \<longleftrightarrow> h = t"
    and "c \<noteq> n - 1 \<Longrightarrow> (Suc t mod n + n - h) mod n = Suc c"
    and "c \<noteq> 0 \<Longrightarrow> (t + n - Suc h mod n) mod n = c - 1"
proof -
  consider "h \<le> t" "c = t - h" | "t < h" "c = t + n - h"
    using assms(1,2) by (cases "h \<le> t") (auto simp: c_def mod_if)
  note C = this
  show "c < n" using assms(1) by (simp add: c_def)
  show "(h + c) mod n = t" using C assms(1,2) by cases auto
  show "Suc t mod n = h \<longleftrightarrow> c = n - 1" using C assms(1,2) by cases (auto simp: mod_if)
  show "c = 0 \<longleftrightarrow> h = t" using C assms(1,2) by cases auto
  show "(Suc t mod n + n - h) mod n = Suc c" if "c \<noteq> n - 1"
    using C that assms(1,2) by cases (auto simp: mod_if)
  show "(t + n - Suc h mod n) mod n = c - 1" if "c \<noteq> 0"
    using C that assms(1,2) by cases (auto simp: mod_if)
qed

lemma RingBuffer_wf: "RingBuffer now sz = Inr r \<Longrightarrow> rb_wf r \<and> rb_contents r = [] \<and> unat (rb_capacity r) = unat sz"
  by (auto simp: RingBuffer_def rb_wf_def rb_contents_def rb_count_def word_le_nat_alt word_less_nat_alt not_less
      split: if_splits)

text \<open>One slot is never used: a ring of size \<open>n\<close> holds \<open>n - 1\<close> orders.\<close>

definition rb_room :: "ring \<Rightarrow> nat" where
  "rb_room r = unat (rb_capacity r) - 1"

lemma rb_full_iff:
  assumes "rb_wf r"
  shows "(rb_tail r + 1) AND rb_mask r = rb_head r \<longleftrightarrow> rb_count r = rb_room r"
proof (rule rb_wf_pow2 [OF assms])
  assume "unat (rb_head r) < unat (rb_capacity r)" "unat (rb_tail r) < unat (rb_capacity r)"
  then show ?thesis
    using rb_next [OF assms, of "rb_tail r"] rb_arith(3) [of "unat (rb_head r)" "unat (rb_capacity r)" "unat (rb_tail r)"]
    by (simp add: rb_count_def rb_room_def word_less_nat_alt word_unat_eq_iff)
qed

lemma rb_empty_iff:
  assumes "rb_wf r"
  shows "rb_head r = rb_tail r \<longleftrightarrow> rb_count r = 0"
proof (rule rb_wf_pow2 [OF assms])
  assume "unat (rb_head r) < unat (rb_capacity r)" "unat (rb_tail r) < unat (rb_capacity r)"
  then show ?thesis
    using rb_arith(4) [of "unat (rb_head r)" "unat (rb_capacity r)" "unat (rb_tail r)"]
    by (simp add: rb_count_def word_unat_eq_iff)
qed

lemma rb_push_ok:
  assumes wf: "rb_wf r" and room: "rb_count r < rb_room r"
  obtains r' where "rb_push x r = (True, r')" "rb_wf r'" "rb_contents r' = rb_contents r @ [x]"
    "rb_capacity r' = rb_capacity r"
proof (rule rb_wf_pow2 [OF wf])
  fix k
  let ?n = "unat (rb_capacity r)" and ?h = "unat (rb_head r)" and ?t = "unat (rb_tail r)"
  assume k: "?n = 2 ^ k" "?h < ?n" "?t < ?n" "length (rb_buffer r) = ?n"
  define r' where "r' = r\<lparr>rb_buffer := (rb_buffer r)[?t := x], rb_tail := (rb_tail r + 1) AND rb_mask r\<rparr>"
  have p: "rb_push x r = (True, r')"
    using rb_full_iff [OF wf] room by (simp add: rb_push_def r'_def Let_def)
  have t': "unat (rb_tail r') = Suc ?t mod ?n"
    using rb_next [OF wf, of "rb_tail r"] k by (simp add: r'_def word_less_nat_alt)
  then have wf': "rb_wf r'" using wf k by (simp add: rb_wf_def r'_def word_less_nat_alt)
  note A = rb_arith [OF k(2,3)]
  have "rb_count r' = Suc (rb_count r)"
    using A(5) t' room by (simp add: rb_count_def r'_def rb_room_def)
  moreover have "ring_list ((rb_buffer r)[(?h + rb_count r) mod length (rb_buffer r) := x]) ?h (Suc (rb_count r)) =
      ring_list (rb_buffer r) ?h (rb_count r) @ [x]"
    using room k by (intro ring_list_push) (simp add: rb_room_def)
  ultimately have "rb_contents r' = rb_contents r @ [x]"
    using A(2) k by (simp add: rb_contents_def r'_def rb_count_def)
  then show thesis using that p wf' by (simp add: r'_def)
qed

lemma rb_pop_ok:
  assumes wf: "rb_wf r" and c: "rb_contents r = x # xs"
  obtains r' where "rb_pop r = (Some x, r')" "rb_wf r'" "rb_contents r' = xs" "rb_capacity r' = rb_capacity r"
proof (rule rb_wf_pow2 [OF wf])
  fix k
  let ?n = "unat (rb_capacity r)" and ?h = "unat (rb_head r)" and ?t = "unat (rb_tail r)"
  assume k: "?n = 2 ^ k" "?h < ?n" "?t < ?n" "length (rb_buffer r) = ?n"
  define r' where "r' = r\<lparr>rb_head := (rb_head r + 1) AND rb_mask r\<rparr>"
  have cnt: "rb_count r = Suc (length xs)" using c length_ring_list by (metis length_Cons rb_contents_def)
  have cx: "x = rb_buffer r ! ?h" "xs = ring_list (rb_buffer r) (Suc ?h) (length xs)"
    using c ring_list_pop [of "rb_buffer r" ?h "length xs"] k by (simp_all add: rb_contents_def cnt)
  have p: "rb_pop r = (Some x, r')"
    using rb_empty_iff [OF wf] cnt cx(1) by (simp add: rb_pop_def r'_def Let_def)
  have h': "unat (rb_head r') = Suc ?h mod ?n"
    using rb_next [OF wf, of "rb_head r"] k by (simp add: r'_def word_less_nat_alt)
  then have wf': "rb_wf r'" using wf k by (simp add: rb_wf_def r'_def word_less_nat_alt)
  have "rb_count r' = length xs"
    using rb_arith(6) [OF k(2,3)] h' cnt by (simp add: rb_count_def r'_def)
  moreover have "ring_list (rb_buffer r) (Suc ?h mod ?n) (length xs) = ring_list (rb_buffer r) (Suc ?h) (length xs)"
    using k by (intro ring_list_mod) simp
  ultimately have "rb_contents r' = xs"
    using cx(2) h' by (simp add: rb_contents_def) (simp add: r'_def)
  then show thesis using that p wf' by (simp add: r'_def)
qed

interpretation rbq: bounded_queue rb_wf rb_contents rb_room "\<lambda>_. True" rb_push rb_pop
proof unfold_locales
  fix q :: ring and x :: order and xs :: "order list"
  assume wf: "rb_wf q"
  have len: "length (rb_contents q) = rb_count q" by (simp add: rb_contents_def)
  show "length (rb_contents q) \<le> rb_room q"
  proof (rule rb_wf_pow2 [OF wf])
    assume "2 \<le> unat (rb_capacity q)"
    moreover from this have "rb_count q < unat (rb_capacity q)" by (simp add: rb_count_def)
    ultimately show ?thesis by (simp add: len rb_room_def)
  qed
  show "\<exists>q'. rb_push x q = (True, q') \<and> rb_wf q' \<and> rb_contents q' = rb_contents q @ [x] \<and> rb_room q' = rb_room q"
    if "length (rb_contents q) < rb_room q"
    using rb_push_ok [OF wf, of x] that len by (metis rb_room_def)
  show "rb_push x q = (False, q)" if "\<not> True \<or> length (rb_contents q) = rb_room q"
    using that rb_full_iff [OF wf] by (simp add: rb_push_def len)
  show "rb_pop q = (None, q)" if "rb_contents q = []"
    using that rb_empty_iff [OF wf] by (simp add: rb_pop_def flip: len)
  show "\<exists>q'. rb_pop q = (Some x, q') \<and> rb_wf q' \<and> rb_contents q' = xs \<and> rb_room q' = rb_room q"
    if "rb_contents q = x # xs"
    using rb_pop_ok [OF wf that] by (metis rb_room_def)
qed

text \<open>The advisory queries agree with the contents.\<close>

lemma rb_size_eq:
  assumes "rb_wf r"
  shows "unat (rb_size r) = length (rb_contents r)"
proof (rule rb_wf_pow2 [OF assms])
  let ?n = "unat (rb_capacity r)" and ?h = "unat (rb_head r)" and ?t = "unat (rb_tail r)"
  assume k: "?h < ?n" "?t < ?n" "?n \<le> 2 ^ 63"
  show ?thesis
  proof (cases "rb_head r \<le> rb_tail r")
    case True
    then have "?h \<le> ?t" by (simp add: word_le_nat_alt)
    then have "rb_count r = ?t - ?h" using k by (simp add: rb_count_def mod_if)
    then show ?thesis using True by (simp add: rb_size_def rb_contents_def unat_sub)
  next
    case False
    then have le: "?t < ?h" by (simp add: word_le_nat_alt)
    then have c: "rb_count r = ?n - ?h + ?t" using k by (auto simp: rb_count_def mod_if)
    have "unat (rb_capacity r - rb_head r) = ?n - ?h" using k by (intro unat_sub) (simp add: word_le_nat_alt)
    moreover from this have "unat (rb_capacity r - rb_head r) + ?t < 2 ^ 64" using k le by simp
    ultimately show ?thesis
      using False c by (simp add: rb_size_def rb_contents_def unat_add_lem [THEN iffD1])
  qed
qed

text \<open>
  C35. The ring is a first-in first-out queue of \<open>size - 1\<close> orders: from construction on, in every
  sequence of pushes and pops the orders popped are, in order, the first of the orders accepted, and
  the rest are in the ring, whose size, emptiness and fullness are reported exactly. A push is refused only when
  the ring holds \<open>size - 1\<close> orders.
\<close>

theorem ring_buffer_fifo:
  assumes "RingBuffer now sz = Inr r" "run_ops rb_push rb_pop cs r = (acc, out, r')"
  shows "acc = out @ rb_contents r' \<and> unat (rb_size r') = length acc - length out \<and>
    (rb_isEmpty r' \<longleftrightarrow> acc = out) \<and> (rb_isFull r' \<longleftrightarrow> length acc - length out = unat sz - 1) \<and>
    (fst (rb_push x r') \<longleftrightarrow> length acc - length out < unat sz - 1)"
proof -
  have r: "rb_wf r" "rb_contents r = []" "rb_room r = unat sz - 1"
    using RingBuffer_wf [OF assms(1)] by (simp_all add: rb_room_def)
  note F = rbq.fifo [OF r(1) assms(2)]
  then have wf': "rb_wf r'" and len: "length (rb_contents r') = length acc - length out" using r by auto
  have "fst (rb_push x r') \<longleftrightarrow> length (rb_contents r') < rb_room r'"
  proof (cases "length (rb_contents r') < rb_room r'")
    case True
    then obtain q' where "rb_push x r' = (True, q')" using rbq.push_ok [OF wf' TrueI True, of x] by blast
    then show ?thesis using True by simp
  next
    case False
    then have "length (rb_contents r') = rb_room r'" using rbq.bounded [OF wf'] by simp
    then have "rb_push x r' = (False, r')" using rbq.push_refused [OF wf', of x] by simp
    then show ?thesis using False by simp
  qed
  moreover have "rb_room r' = unat sz - 1" "acc = out @ rb_contents r'" using F r by simp_all
  moreover have "rb_count r' = length (rb_contents r')" by (simp add: rb_contents_def)
  moreover have "rb_isEmpty r' \<longleftrightarrow> rb_count r' = 0" "rb_isFull r' \<longleftrightarrow> rb_count r' = rb_room r'"
    using rb_empty_iff [OF wf'] rb_full_iff [OF wf'] by (simp_all add: rb_isEmpty_def rb_isFull_def)
  ultimately show ?thesis unfolding rb_size_eq [OF wf'] len by (intro conjI) simp_all
qed

definition ex_ring_script :: "order option list" where
  "ex_ring_script = [Some (order_default 1), Some (order_default 2), None, Some (order_default 3), Some (order_default 4)]"

theorem ring_buffer_fifo_witness:
  "\<exists>r acc out r'. RingBuffer (\<lambda>_. 0) 4 = Inr r \<and> run_ops rb_push rb_pop ex_ring_script r = (acc, out, r') \<and>
    acc = out @ rb_contents r' \<and> unat (rb_size r') = length acc - length out \<and>
    (fst (rb_push (order_default 5) r') \<longleftrightarrow> length acc - length out < unat (4::u64) - 1)"
proof -
  have "\<exists>r. RingBuffer (\<lambda>_. 0) 4 = Inr r" by (simp add: RingBuffer_def)
  then obtain r where r: "RingBuffer (\<lambda>_. 0) 4 = Inr r" by blast
  obtain acc out r' where run: "run_ops rb_push rb_pop ex_ring_script r = (acc, out, r')" by (cases "run_ops rb_push rb_pop ex_ring_script r") auto
  show ?thesis using r run ring_buffer_fifo [OF r run, of "order_default 5"] by blast
qed

end
