(* ===== verification/Journal_Ring.thy ===== *)
theory Journal_Ring
  imports Ring_Buffer
begin

text \<open>
  The byte-record ring between the engine and the journal's writer thread
  (\<open>include/JournalRingBuffer.h\<close>, \<open>src/JournalRingBuffer.cpp\<close>). Its two 64-bit counters run freely
  and wrap; the slot is the counter masked by the capacity.
\<close>

abbreviation kRingCapacity :: u64 where "kRingCapacity \<equiv> 16384"
abbreviation kMaxPayloadSize :: nat where "kMaxPayloadSize \<equiv> 1024"
abbreviation kRecordOverhead :: nat where "kRecordOverhead \<equiv> 17"
abbreviation kMaxRecordSize :: nat where "kMaxRecordSize \<equiv> 1088"

datatype push_result = Ok | Full | Invalid

record slot =
  sl_size :: u32
  sl_data :: "u8 list"

record jring =
  jr_ring :: "slot list"
  jr_head :: u64
  jr_tail :: u64
  jr_capacity :: u64
  jr_mask :: u64

definition empty_slot :: slot where
  "empty_slot = \<lparr>sl_size = 0, sl_data = replicate kMaxRecordSize 0\<rparr>"

definition JournalRingBuffer :: "u64 \<Rightarrow> exn + jring" where
  "JournalRingBuffer cap =
     (if cap = 0 \<or> cap AND (cap - 1) \<noteq> 0
      then Inl (Invalid_argument ''JournalRingBuffer: capacity must be a non-zero power of two'')
      else Inr \<lparr>jr_ring = replicate (unat cap) empty_slot, jr_head = 0, jr_tail = 0,
             jr_capacity = cap, jr_mask = cap - 1\<rparr>)"

text \<open>\<open>std::memcpy\<close> of a record into a slot.\<close>

definition fill_slot :: "u8 list \<Rightarrow> slot \<Rightarrow> slot" where
  "fill_slot bytes s = \<lparr>sl_size = of_nat (length bytes), sl_data = bytes @ drop (length bytes) (sl_data s)\<rparr>"

text \<open>\<open>None\<close> is the null pointer; a record is given with its size.\<close>

definition tryPush :: "u8 list option \<Rightarrow> jring \<Rightarrow> push_result \<times> jring" where
  "tryPush data r =
     (case data of
        None \<Rightarrow> (Invalid, r)
      | Some bytes \<Rightarrow>
          if length bytes = 0 \<or> kMaxRecordSize < length bytes then (Invalid, r)
          else if jr_capacity r \<le> jr_head r - jr_tail r then (Full, r)
          else
            let i = unat (jr_head r AND jr_mask r)
            in (Ok, r\<lparr>jr_ring := (jr_ring r)[i := fill_slot bytes (jr_ring r ! i)],
                      jr_head := jr_head r + 1\<rparr>))"

definition slot_valid :: "slot \<Rightarrow> bool" where
  "slot_valid s \<longleftrightarrow> sl_size s \<noteq> 0 \<and> unat (sl_size s) \<le> kMaxRecordSize"

definition tryPop :: "jring \<Rightarrow> u8 list option \<times> jring" where
  "tryPop r =
     (if jr_tail r = jr_head r then (None, r)
      else
        let s = jr_ring r ! unat (jr_tail r AND jr_mask r);
            r' = r\<lparr>jr_tail := jr_tail r + 1\<rparr>
        in if slot_valid s then (Some (take (unat (sl_size s)) (sl_data s)), r') else (None, r'))"

definition jr_empty :: "jring \<Rightarrow> bool" where
  "jr_empty r \<longleftrightarrow> jr_head r = jr_tail r"

definition jr_full :: "jring \<Rightarrow> bool" where
  "jr_full r \<longleftrightarrow> jr_capacity r \<le> jr_head r - jr_tail r"

definition approximateSize :: "jring \<Rightarrow> u64" where
  "approximateSize r =
     (let count = jr_head r - jr_tail r in if jr_capacity r \<le> count then jr_capacity r else count)"

subsection \<open>Invariant and contents\<close>

definition slot_bytes :: "slot \<Rightarrow> u8 list" where
  "slot_bytes s = take (unat (sl_size s)) (sl_data s)"

definition jr_window :: "jring \<Rightarrow> slot list" where
  "jr_window r = ring_list (jr_ring r) (unat (jr_tail r)) (unat (jr_head r - jr_tail r))"

definition jr_contents :: "jring \<Rightarrow> u8 list list" where
  "jr_contents r = map slot_bytes (jr_window r)"

definition jr_wf :: "jring \<Rightarrow> bool" where
  "jr_wf r \<longleftrightarrow> jr_capacity r \<noteq> 0 \<and> jr_capacity r AND (jr_capacity r - 1) = 0 \<and>
     jr_mask r = jr_capacity r - 1 \<and> length (jr_ring r) = unat (jr_capacity r) \<and>
     jr_head r - jr_tail r \<le> jr_capacity r \<and> (\<forall>s \<in> set (jr_window r). slot_valid s)"

definition jr_room :: "jring \<Rightarrow> nat" where
  "jr_room r = unat (jr_capacity r)"

definition record_ok :: "u8 list option \<Rightarrow> bool" where
  "record_ok data \<longleftrightarrow> (\<exists>bytes. data = Some bytes \<and> bytes \<noteq> [] \<and> length bytes \<le> kMaxRecordSize)"

lemma fill_slot_ok:
  assumes "bytes \<noteq> []" "length bytes \<le> kMaxRecordSize"
  shows "slot_valid (fill_slot bytes s)" and "slot_bytes (fill_slot bytes s) = bytes"
proof -
  have u: "unat (of_nat (length bytes) :: u32) = length bytes" using assms(2) by (simp add: unat_of_nat)
  then have "(of_nat (length bytes) :: u32) \<noteq> 0" using assms(1) by (metis length_0_conv unat_0)
  then show "slot_valid (fill_slot bytes s)" using u assms by (simp add: slot_valid_def fill_slot_def)
  show "slot_bytes (fill_slot bytes s) = bytes" using u by (simp add: slot_bytes_def fill_slot_def)
qed

text \<open>A free-running counter masked by a power of two.\<close>

lemma masked_counter:
  fixes base :: u64
  assumes "unat cap = 2 ^ k"
  shows "unat ((base + c) AND (cap - 1)) = (unat base + unat c) mod unat cap"
proof -
  have "k < 64"
  proof -
    have "(2::nat) ^ k < 2 ^ 64" using unat_u64_less [of cap] assms by simp
    then show ?thesis by (rule power_less_imp_less_exp [rotated]) simp
  qed
  then have dvd: "(2::nat) ^ k dvd 2 ^ 64" by (intro le_imp_power_dvd) simp
  have "unat (base + c) = (unat base + unat c) mod 2 ^ 64" by (simp add: unat_word_ariths)
  then have "unat (base + c) mod 2 ^ k = (unat base + unat c) mod 2 ^ k"
    using mod_mod_cancel [OF dvd] by simp
  then show ?thesis using unat_and_mask [OF assms, of "base + c"] assms by simp
qed

lemma jr_wf_pow2:
  assumes "jr_wf r"
  obtains k where "unat (jr_capacity r) = 2 ^ k"
  using assms word_pow2 by (auto simp: jr_wf_def)

lemma JournalRingBuffer_wf:
  "JournalRingBuffer cap = Inr r \<Longrightarrow> jr_wf r \<and> jr_contents r = [] \<and> jr_room r = unat cap"
  by (auto simp: JournalRingBuffer_def jr_wf_def jr_contents_def jr_window_def jr_room_def split: if_splits)

lemma tryPush_ok:
  assumes wf: "jr_wf r" and b: "bytes \<noteq> []" "length bytes \<le> kMaxRecordSize"
    and room: "\<not> jr_capacity r \<le> jr_head r - jr_tail r"
  obtains r' where "tryPush (Some bytes) r = (Ok, r')" "jr_wf r'" "jr_contents r' = jr_contents r @ [bytes]"
    "jr_capacity r' = jr_capacity r"
proof -
  let ?c = "jr_head r - jr_tail r" and ?n = "unat (jr_capacity r)"
  obtain k where k: "?n = 2 ^ k" using jr_wf_pow2 [OF wf] .
  have len: "length (jr_ring r) = ?n" "jr_mask r = jr_capacity r - 1" using wf by (simp_all add: jr_wf_def)
  have lt: "unat ?c < ?n" using room by (simp add: word_le_nat_alt)
  define i where "i = unat (jr_head r AND jr_mask r)"
  have i: "i = (unat (jr_tail r) + unat ?c) mod ?n"
    using masked_counter [OF k, of "jr_tail r" ?c] len by (simp add: i_def)
  define v where "v = fill_slot bytes (jr_ring r ! i)"
  define r' where "r' = r\<lparr>jr_ring := (jr_ring r)[i := v], jr_head := jr_head r + 1\<rparr>"
  have p: "tryPush (Some bytes) r = (Ok, r')"
    using b room by (simp add: tryPush_def r'_def v_def i_def Let_def)
  have c': "jr_head r' - jr_tail r' = ?c + 1" by (simp add: r'_def)
  have "unat (?c + 1) = Suc (unat ?c)"
  proof -
    have "unat ?c + 1 < 18446744073709551616" using lt unat_u64_less [of "jr_capacity r"] by linarith
    then show ?thesis by (simp add: unat_add_lem [THEN iffD1])
  qed
  note cnt = this
  have win: "jr_window r' = jr_window r @ [v]"
    using ring_list_push [of "unat ?c" "jr_ring r" "unat (jr_tail r)" v] lt len i cnt
    unfolding jr_window_def c' by (simp add: r'_def)
  have "jr_wf r'"
    using wf lt cnt win fill_slot_ok [OF b] c' len by (auto simp: jr_wf_def word_le_nat_alt v_def) (auto simp: r'_def)
  moreover have "jr_contents r' = jr_contents r @ [bytes]"
    using win fill_slot_ok [OF b] by (simp add: jr_contents_def v_def)
  ultimately show thesis using that p by (simp add: r'_def)
qed

lemma tryPop_ok:
  assumes wf: "jr_wf r" and c: "jr_contents r = x # xs"
  obtains r' where "tryPop r = (Some x, r')" "jr_wf r'" "jr_contents r' = xs" "jr_capacity r' = jr_capacity r"
proof -
  let ?c = "jr_head r - jr_tail r" and ?n = "unat (jr_capacity r)"
  obtain k where k: "?n = 2 ^ k" using jr_wf_pow2 [OF wf] .
  have len: "length (jr_ring r) = ?n" "jr_mask r = jr_capacity r - 1" using wf by (simp_all add: jr_wf_def)
  have cnt: "unat ?c = Suc (length xs)"
    using arg_cong [OF c, of length] by (simp add: jr_contents_def jr_window_def)
  then have ne: "jr_tail r \<noteq> jr_head r" by auto
  have "?c \<noteq> 0" using ne by simp
  then have c1: "unat (?c - 1) = length xs" using cnt by (simp add: unat_minus_one)
  define s where "s = jr_ring r ! unat (jr_tail r AND jr_mask r)"
  have win: "jr_window r = s # ring_list (jr_ring r) (Suc (unat (jr_tail r))) (length xs)"
    using masked_counter [OF k, of "jr_tail r" 0] len
    by (simp add: jr_window_def cnt ring_list_pop s_def)
  define r' where "r' = r\<lparr>jr_tail := jr_tail r + 1\<rparr>"
  have "jr_head r' - jr_tail r' = ?c - 1" by (simp add: r'_def)
  moreover have "ring_list (jr_ring r) (unat (jr_tail r + 1)) (length xs) = ring_list (jr_ring r) (Suc (unat (jr_tail r))) (length xs)"
    using masked_counter [OF k, of "jr_tail r" 1] unat_and_mask [OF k, of "jr_tail r + 1"] k len
    by (intro ring_list_mod) simp
  ultimately have win': "jr_window r' = ring_list (jr_ring r) (Suc (unat (jr_tail r))) (length xs)"
    using c1 by (simp add: jr_window_def) (simp add: r'_def)
  have v: "slot_valid s" using wf win by (simp add: jr_wf_def)
  have x: "x = slot_bytes s" "xs = map slot_bytes (jr_window r')" using c win win' by (simp_all add: jr_contents_def)
  have "tryPop r = (Some x, r')"
    using ne v x(1) by (simp add: tryPop_def s_def [symmetric] r'_def slot_bytes_def Let_def)
  moreover have "jr_wf r'"
    using wf win win' c1 cnt len \<open>jr_head r' - jr_tail r' = ?c - 1\<close>
    by (auto simp: jr_wf_def word_le_nat_alt) (auto simp: r'_def)
  ultimately show thesis using that x(2) by (simp add: jr_contents_def r'_def)
qed

definition jr_push :: "u8 list option \<Rightarrow> jring \<Rightarrow> bool \<times> jring" where
  "jr_push data r = (case tryPush data r of (res, r') \<Rightarrow> (res = Ok, r'))"

definition jr_pop :: "jring \<Rightarrow> u8 list option option \<times> jring" where
  "jr_pop r = (case tryPop r of (b, r') \<Rightarrow> (map_option Some b, r'))"

interpretation jrq: bounded_queue jr_wf "\<lambda>r. map Some (jr_contents r)" jr_room record_ok jr_push jr_pop
proof unfold_locales
  fix q :: jring and x :: "u8 list option" and xs :: "u8 list option list"
  assume wf: "jr_wf q"
  have len: "length (jr_contents q) = unat (jr_head q - jr_tail q)" by (simp add: jr_contents_def jr_window_def)
  show "length (map Some (jr_contents q)) \<le> jr_room q"
    using wf by (simp add: len jr_room_def jr_wf_def word_le_nat_alt)
  show "\<exists>q'. jr_push x q = (True, q') \<and> jr_wf q' \<and> map Some (jr_contents q') = map Some (jr_contents q) @ [x] \<and> jr_room q' = jr_room q"
    if v: "record_ok x" and room: "length (map Some (jr_contents q)) < jr_room q"
  proof -
    obtain bytes where b: "x = Some bytes" "bytes \<noteq> []" "length bytes \<le> kMaxRecordSize"
      using v by (auto simp: record_ok_def)
    have "\<not> jr_capacity q \<le> jr_head q - jr_tail q" using room by (simp add: len jr_room_def word_le_nat_alt)
    then obtain q' where "tryPush (Some bytes) q = (Ok, q')" "jr_wf q'" "jr_contents q' = jr_contents q @ [bytes]"
      "jr_capacity q' = jr_capacity q"
      using tryPush_ok [OF wf b(2,3)] by blast
    then show ?thesis using b by (intro exI [of _ q']) (simp add: jr_push_def jr_room_def)
  qed
  show "jr_push x q = (False, q)" if "\<not> record_ok x \<or> length (map Some (jr_contents q)) = jr_room q"
    using that by (auto simp: jr_push_def tryPush_def record_ok_def len jr_room_def word_le_nat_alt split: option.splits)
  show "jr_pop q = (None, q)" if "map Some (jr_contents q) = []"
    using that len by (simp add: jr_pop_def tryPop_def unat_eq_zero)
  show "\<exists>q'. jr_pop q = (Some x, q') \<and> jr_wf q' \<and> map Some (jr_contents q') = xs \<and> jr_room q' = jr_room q"
    if c: "map Some (jr_contents q) = x # xs"
  proof -
    obtain y ys where y: "jr_contents q = y # ys" "x = Some y" "xs = map Some ys" using c by auto
    obtain q' where "tryPop q = (Some y, q')" "jr_wf q'" "jr_contents q' = ys" "jr_capacity q' = jr_capacity q"
      using tryPop_ok [OF wf y(1)] .
    then show ?thesis using y by (intro exI [of _ q']) (simp add: jr_pop_def jr_room_def)
  qed
qed

text \<open>
  Called by one thread at a time, the journal's ring is a first-in first-out queue of \<open>capacity\<close> byte records, for ever: in every
  sequence of pushes and pops, also past the point where the 64-bit counters wrap, the
  records popped are, in order and byte for byte, the first of those accepted. A record is accepted
  exactly when it has between one and 1088 bytes and the ring holds fewer than \<open>capacity\<close>; emptiness, fullness and the
  approximate size are exact while no other thread interferes.
\<close>

theorem journal_ring_fifo:
  assumes "jr_wf r" "jr_contents r = []" "run_ops jr_push jr_pop cs r = (acc, out, r')"
  shows "acc = out @ map Some (jr_contents r') \<and> jr_wf r' \<and>
    (jr_empty r' \<longleftrightarrow> acc = out) \<and> (jr_full r' \<longleftrightarrow> length acc - length out = unat (jr_capacity r)) \<and>
    unat (approximateSize r') = length acc - length out \<and>
    (fst (jr_push x r') \<longleftrightarrow> record_ok x \<and> length acc - length out < unat (jr_capacity r))"
proof -
  note F = jrq.fifo [OF assms(1,3)]
  then have acc: "acc = out @ map Some (jr_contents r')" and wf': "jr_wf r'" and room: "jr_room r' = unat (jr_capacity r)"
    using assms(2) by (simp_all add: jr_room_def)
  have len: "length acc - length out = length (map Some (jr_contents r'))" using acc by simp
  have "fst (jr_push x r') \<longleftrightarrow> record_ok x \<and> length (map Some (jr_contents r')) < jr_room r'"
  proof (cases "record_ok x \<and> length (map Some (jr_contents r')) < jr_room r'")
    case True
    then show ?thesis using jrq.push_ok [OF wf', of x] by auto
  next
    case False
    then have "\<not> record_ok x \<or> length (map Some (jr_contents r')) = jr_room r'" using jrq.bounded [OF wf'] by auto
    then show ?thesis using jrq.push_refused [OF wf', of x] False by simp
  qed
  moreover have c: "length (map Some (jr_contents r')) = unat (jr_head r' - jr_tail r')" by (simp add: jr_contents_def jr_window_def)
  have w: "jr_head r' - jr_tail r' \<le> jr_capacity r'" "jr_capacity r' = jr_capacity r"
    using wf' room by (auto simp: jr_wf_def jr_room_def word_unat_eq_iff)
  have "jr_empty r' \<longleftrightarrow> map Some (jr_contents r') = []"
    unfolding length_0_conv [symmetric] c jr_empty_def by (simp add: unat_eq_zero)
  moreover have "jr_full r' \<longleftrightarrow> length (map Some (jr_contents r')) = unat (jr_capacity r)"
    unfolding c jr_full_def w(2) [symmetric] using w(1) by (auto simp: word_le_nat_alt)
  moreover have "unat (approximateSize r') = length (map Some (jr_contents r'))"
    unfolding c approximateSize_def Let_def using w(1) by (auto simp: word_le_nat_alt)
  ultimately show ?thesis unfolding len room using acc wf' by simp
qed

text \<open>A ring of two slots whose counters are about to wrap.\<close>

definition ex_jring :: jring where
  "ex_jring = \<lparr>jr_ring = replicate 2 empty_slot, jr_head = UINT64_MAX, jr_tail = UINT64_MAX,
     jr_capacity = 2, jr_mask = 1\<rparr>"

theorem journal_ring_fifo_witness:
  "\<exists>acc out r'. run_ops jr_push jr_pop [Some (Some [1, 2]), Some (Some [3]), None] ex_jring = (acc, out, r') \<and>
    acc = out @ map Some (jr_contents r') \<and> jr_wf r' \<and>
    (fst (jr_push (Some [4]) r') \<longleftrightarrow> record_ok (Some [4]) \<and> length acc - length out < unat (jr_capacity ex_jring))"
proof -
  have ok: "jr_wf ex_jring" "jr_contents ex_jring = []"
    by (simp_all add: ex_jring_def jr_wf_def jr_contents_def jr_window_def)
  obtain acc out r' where run: "run_ops jr_push jr_pop [Some (Some [1, 2]), Some (Some [3]), None] ex_jring = (acc, out, r')"
    by (cases "run_ops jr_push jr_pop [Some (Some [1, 2]), Some (Some [3]), None] ex_jring") auto
  show ?thesis using run journal_ring_fifo [OF ok run, of "Some [4]"] by blast
qed

end
