(* ===== verification/Journal_Ring_Threads.thy ===== *)
theory Journal_Ring_Threads
  imports Journal_Ring
begin

text \<open>
  The journal's ring between its two threads (\<open>src/JournalRingBuffer.cpp\<close>), below the level at which
  \<open>Journal_Ring\<close> treats a call as one step: \<open>tryPush\<close> and \<open>tryPop\<close> are cut at every access to memory the
  other thread touches, and the accesses of the two interleave freely. An acquire load of the other
  thread's counter may be stale: it returns any value stored between the one this thread saw last
  and the current one, which is what the coherence of one atomic variable guarantees. The slots are plain memory; that no slot
  is written while the other thread reads it is proved, so the plain accesses need no memory order of
  their own.
\<close>

section \<open>Definitions\<close>

text \<open>Where a call stands: before the load, before the \<open>memcpy\<close>, before the size, before the store.\<close>

datatype push_pc = Pu_Idle | Pu_Copy "u8 list" | Pu_Size "u8 list" | Pu_Store "u8 list"

datatype pop_pc = Po_Idle | Po_Size | Po_Copy u32 | Po_Store "u8 list"

text \<open>
  The ring, the two calls in progress and the last value each thread saw of the other's counter.
  \<open>rs_accepted\<close> and \<open>rs_out\<close> record the records pushed and popped; no step reads them.
\<close>

record spsc =
  rs_ring :: jring
  rs_push :: push_pc
  rs_pop :: pop_pc
  rs_tail_seen :: u64
  rs_head_seen :: u64
  rs_accepted :: "u8 list list"
  rs_out :: "u8 list list"

definition spsc_start :: "jring \<Rightarrow> spsc" where
  "spsc_start r = \<lparr>rs_ring = r, rs_push = Pu_Idle, rs_pop = Po_Idle, rs_tail_seen = jr_tail r,
     rs_head_seen = jr_head r, rs_accepted = [], rs_out = []\<rparr>"

text \<open>A value an acquire load may return, given the value seen last and the current one.\<close>

definition acquirable :: "u64 \<Rightarrow> u64 \<Rightarrow> u64 \<Rightarrow> bool" where
  "acquirable seen current v \<longleftrightarrow> v - seen \<le> current - seen"

definition push_slot :: "jring \<Rightarrow> nat" where
  "push_slot r = unat (jr_head r AND jr_mask r)"

definition pop_slot :: "jring \<Rightarrow> nat" where
  "pop_slot r = unat (jr_tail r AND jr_mask r)"

text \<open>\<open>tryPush\<close>: the tests with the load of \<open>tail_\<close>, which answers \<open>v\<close>; the two writes; the release store.\<close>

definition tryPush_load :: "u8 list option \<Rightarrow> u64 \<Rightarrow> spsc \<Rightarrow> push_result option \<times> spsc" where
  "tryPush_load data v s =
     (case data of
        None \<Rightarrow> (Some Invalid, s)
      | Some bytes \<Rightarrow>
          if length bytes = 0 \<or> kMaxRecordSize < length bytes then (Some Invalid, s)
          else if jr_capacity (rs_ring s) \<le> jr_head (rs_ring s) - v then (Some Full, s\<lparr>rs_tail_seen := v\<rparr>)
          else (None, s\<lparr>rs_tail_seen := v, rs_push := Pu_Copy bytes\<rparr>))"

definition tryPush_copy :: "u8 list \<Rightarrow> spsc \<Rightarrow> spsc" where
  "tryPush_copy bytes s =
     (let r = rs_ring s; i = push_slot r; sl = jr_ring r ! i
      in s\<lparr>rs_ring := r\<lparr>jr_ring := (jr_ring r)[i := sl\<lparr>sl_data := bytes @ drop (length bytes) (sl_data sl)\<rparr>]\<rparr>,
           rs_push := Pu_Size bytes\<rparr>)"

definition tryPush_size :: "u8 list \<Rightarrow> spsc \<Rightarrow> spsc" where
  "tryPush_size bytes s =
     (let r = rs_ring s; i = push_slot r; sl = jr_ring r ! i
      in s\<lparr>rs_ring := r\<lparr>jr_ring := (jr_ring r)[i := sl\<lparr>sl_size := of_nat (length bytes)\<rparr>]\<rparr>,
           rs_push := Pu_Store bytes\<rparr>)"

definition tryPush_store :: "u8 list \<Rightarrow> spsc \<Rightarrow> push_result option \<times> spsc" where
  "tryPush_store bytes s =
     (Some Ok, s\<lparr>rs_ring := (rs_ring s)\<lparr>jr_head := jr_head (rs_ring s) + 1\<rparr>, rs_push := Pu_Idle,
        rs_accepted := rs_accepted s @ [bytes]\<rparr>)"

text \<open>
  \<open>tryPop\<close>: the load of \<open>head_\<close>, which answers \<open>v\<close>; the two reads, where a slot with an impossible size is skipped;
  the release store. A finished call returns \<open>Some None\<close> for false and \<open>Some (Some bytes)\<close> for true.
\<close>

definition tryPop_load :: "u64 \<Rightarrow> spsc \<Rightarrow> u8 list option option \<times> spsc" where
  "tryPop_load v s =
     (if jr_tail (rs_ring s) = v then (Some None, s\<lparr>rs_head_seen := v\<rparr>)
      else (None, s\<lparr>rs_head_seen := v, rs_pop := Po_Size\<rparr>))"

definition tryPop_size :: "spsc \<Rightarrow> u8 list option option \<times> spsc" where
  "tryPop_size s =
     (let r = rs_ring s; sl = jr_ring r ! pop_slot r
      in if slot_valid sl then (None, s\<lparr>rs_pop := Po_Copy (sl_size sl)\<rparr>)
         else (Some None, s\<lparr>rs_ring := r\<lparr>jr_tail := jr_tail r + 1\<rparr>, rs_pop := Po_Idle\<rparr>))"

definition tryPop_copy :: "u32 \<Rightarrow> spsc \<Rightarrow> spsc" where
  "tryPop_copy n s =
     (let r = rs_ring s in s\<lparr>rs_pop := Po_Store (take (unat n) (sl_data (jr_ring r ! pop_slot r)))\<rparr>)"

definition tryPop_store :: "u8 list \<Rightarrow> spsc \<Rightarrow> u8 list option option \<times> spsc" where
  "tryPop_store bytes s =
     (Some (Some bytes), s\<lparr>rs_ring := (rs_ring s)\<lparr>jr_tail := jr_tail (rs_ring s) + 1\<rparr>, rs_pop := Po_Idle,
        rs_out := rs_out s @ [bytes]\<rparr>)"

inductive push_step :: "spsc \<Rightarrow> spsc \<Rightarrow> bool" where
  load: "rs_push s = Pu_Idle \<Longrightarrow> acquirable (rs_tail_seen s) (jr_tail (rs_ring s)) v \<Longrightarrow>
    tryPush_load data v s = (res, s') \<Longrightarrow> push_step s s'"
| copy: "rs_push s = Pu_Copy bytes \<Longrightarrow> push_step s (tryPush_copy bytes s)"
| size: "rs_push s = Pu_Size bytes \<Longrightarrow> push_step s (tryPush_size bytes s)"
| store: "rs_push s = Pu_Store bytes \<Longrightarrow> tryPush_store bytes s = (res, s') \<Longrightarrow> push_step s s'"

inductive pop_step :: "spsc \<Rightarrow> spsc \<Rightarrow> bool" where
  load: "rs_pop s = Po_Idle \<Longrightarrow> acquirable (rs_head_seen s) (jr_head (rs_ring s)) v \<Longrightarrow>
    tryPop_load v s = (res, s') \<Longrightarrow> pop_step s s'"
| size: "rs_pop s = Po_Size \<Longrightarrow> tryPop_size s = (res, s') \<Longrightarrow> pop_step s s'"
| copy: "rs_pop s = Po_Copy n \<Longrightarrow> pop_step s (tryPop_copy n s)"
| store: "rs_pop s = Po_Store bytes \<Longrightarrow> tryPop_store bytes s = (res, s') \<Longrightarrow> pop_step s s'"

definition spsc_step :: "spsc \<Rightarrow> spsc \<Rightarrow> bool" where
  "spsc_step s s' \<longleftrightarrow> push_step s s' \<or> pop_step s s'"

text \<open>The slot a thread is writing or reading, from the load that admitted it to its store.\<close>

definition writing :: "spsc \<Rightarrow> nat option" where
  "writing s = (if rs_push s = Pu_Idle then None else Some (push_slot (rs_ring s)))"

definition reading :: "spsc \<Rightarrow> nat option" where
  "reading s = (if rs_pop s = Po_Idle then None else Some (pop_slot (rs_ring s)))"

section \<open>Lemmas\<close>

subsection \<open>Counters that wrap\<close>

text \<open>\<open>b\<close> lies between \<open>a\<close> and \<open>c\<close> on the circle of 64-bit values.\<close>

lemma between_unat: "b - a \<le> c - a \<Longrightarrow> unat (c - a) = unat (b - a) + unat (c - b)" for a b c :: u64
proof -
  assume le: "b - a \<le> c - a"
  have "unat (c - b) = unat ((c - a) - (b - a))" by simp
  also have "\<dots> = unat (c - a) - unat (b - a)" using le by (rule unat_sub)
  finally show ?thesis using le by (simp add: word_le_nat_alt)
qed

lemma unat_step: "unat (c - a) < unat n \<Longrightarrow> unat (c + 1 - a) = Suc (unat (c - a))" for a c n :: u64
proof -
  assume lt: "unat (c - a) < unat n"
  have "unat (c - a) + 1 < 18446744073709551616" using lt unat_u64_less [of n] by linarith
  then have "unat ((c - a) + 1) = Suc (unat (c - a))" by (simp add: unat_add_lem [THEN iffD1])
  moreover have "(c - a) + 1 = c + 1 - a" by simp
  ultimately show ?thesis by (simp only:)
qed

lemma unat_back: "c \<noteq> a \<Longrightarrow> unat (c - (a + 1)) = unat (c - a) - 1" for a c :: u64
proof -
  assume "c \<noteq> a"
  then have "c - a \<noteq> 0" by simp
  then have "unat ((c - a) - 1) = unat (c - a) - 1" by (rule unat_minus_one)
  moreover have "(c - a) - 1 = c - (a + 1)" by simp
  ultimately show ?thesis by (simp only:)
qed

lemma betweenI: "unat (c - a) = unat (b - a) + unat (c - b) \<Longrightarrow> b - a \<le> c - a" for a b c :: u64
  by (simp add: word_le_nat_alt)

subsection \<open>The window of the ring\<close>

lemma slot_positions:
  assumes "jr_wf r"
  shows "push_slot r = (unat (jr_tail r) + unat (jr_head r - jr_tail r)) mod length (jr_ring r)"
    and "pop_slot r = unat (jr_tail r) mod length (jr_ring r)" and "0 < length (jr_ring r)"
proof -
  obtain k where k: "unat (jr_capacity r) = 2 ^ k" using jr_wf_pow2 [OF assms] .
  have w: "jr_mask r = jr_capacity r - 1" "length (jr_ring r) = unat (jr_capacity r)" using assms by (simp_all add: jr_wf_def)
  show "push_slot r = (unat (jr_tail r) + unat (jr_head r - jr_tail r)) mod length (jr_ring r)"
    using masked_counter [OF k, of "jr_tail r" "jr_head r - jr_tail r"] w by (simp add: push_slot_def)
  show "pop_slot r = unat (jr_tail r) mod length (jr_ring r)"
    using masked_counter [OF k, of "jr_tail r" 0] w by (simp add: pop_slot_def)
  show "0 < length (jr_ring r)" using w k by simp
qed

lemma length_jr_contents: "length (jr_contents r) = unat (jr_head r - jr_tail r)"
  by (simp add: jr_contents_def jr_window_def)

lemma slots_apart:
  assumes "jr_wf r" "jr_tail r \<noteq> jr_head r" "unat (jr_head r - jr_tail r) < unat (jr_capacity r)"
  shows "push_slot r \<noteq> pop_slot r"
proof -
  have "0 < unat (jr_head r - jr_tail r)" using assms(2) by (simp add: unat_gt_0)
  then have "(unat (jr_tail r) + 0) mod length (jr_ring r) \<noteq> (unat (jr_tail r) + unat (jr_head r - jr_tail r)) mod length (jr_ring r)"
    using assms by (intro ring_slot_inj) (simp_all add: jr_wf_def)
  then show ?thesis using slot_positions [OF assms(1)] by simp
qed

text \<open>Writing the slot behind the window changes nothing inside it.\<close>

lemma window_unchanged:
  assumes "jr_wf r" "unat (jr_head r - jr_tail r) < unat (jr_capacity r)"
  shows "jr_window (r\<lparr>jr_ring := (jr_ring r)[push_slot r := x]\<rparr>) = jr_window r"
proof -
  let ?c = "unat (jr_head r - jr_tail r)" and ?t = "unat (jr_tail r)" and ?xs = "jr_ring r"
  have c: "?c < length ?xs" using assms by (simp add: jr_wf_def)
  have "?xs[push_slot r := x] ! ((?t + i) mod length ?xs) = ?xs ! ((?t + i) mod length ?xs)" if "i < ?c" for i
    using ring_slot_inj [OF that c, of ?t] slot_positions(1) [OF assms(1)] by simp
  then show ?thesis by (simp add: jr_window_def ring_list_def)
qed

lemma wf_slot_write:
  assumes "jr_wf r" "unat (jr_head r - jr_tail r) < unat (jr_capacity r)"
  shows "jr_wf (r\<lparr>jr_ring := (jr_ring r)[push_slot r := x]\<rparr>)"
    and "jr_contents (r\<lparr>jr_ring := (jr_ring r)[push_slot r := x]\<rparr>) = jr_contents r"
  using window_unchanged [OF assms] assms by (simp_all add: jr_wf_def jr_contents_def)

lemma head_store:
  assumes wf: "jr_wf r" and room: "unat (jr_head r - jr_tail r) < unat (jr_capacity r)"
    and v: "slot_valid (jr_ring r ! push_slot r)"
  shows "jr_wf (r\<lparr>jr_head := jr_head r + 1\<rparr>)"
    and "jr_contents (r\<lparr>jr_head := jr_head r + 1\<rparr>) = jr_contents r @ [slot_bytes (jr_ring r ! push_slot r)]"
proof -
  let ?r = "r\<lparr>jr_head := jr_head r + 1\<rparr>"
  note c = unat_step [OF room]
  have win: "jr_window ?r = jr_window r @ [jr_ring r ! push_slot r]"
    by (simp add: jr_window_def c ring_list_def slot_positions(1) [OF wf])
  then show "jr_contents ?r = jr_contents r @ [slot_bytes (jr_ring r ! push_slot r)]" by (simp add: jr_contents_def)
  show "jr_wf ?r" using wf room v win by (auto simp: jr_wf_def word_le_nat_alt c)
qed

lemma tail_store:
  assumes wf: "jr_wf r" and ne: "jr_tail r \<noteq> jr_head r"
  shows "slot_valid (jr_ring r ! pop_slot r)" and "jr_wf (r\<lparr>jr_tail := jr_tail r + 1\<rparr>)"
    and "jr_contents r = slot_bytes (jr_ring r ! pop_slot r) # jr_contents (r\<lparr>jr_tail := jr_tail r + 1\<rparr>)"
proof -
  obtain x xs where c: "jr_contents r = x # xs"
    using ne length_jr_contents [of r] by (cases "jr_contents r") (auto simp: unat_eq_zero)
  obtain r' where p: "tryPop r = (Some x, r')" "jr_wf r'" "jr_contents r' = xs" using tryPop_ok [OF wf c] .
  then show v: "slot_valid (jr_ring r ! pop_slot r)"
    using ne by (auto simp: tryPop_def Let_def pop_slot_def split: if_splits)
  have "r' = r\<lparr>jr_tail := jr_tail r + 1\<rparr>" "x = slot_bytes (jr_ring r ! pop_slot r)"
    using p(1) ne v by (simp_all add: tryPop_def Let_def pop_slot_def slot_bytes_def split: if_splits)
  then show "jr_wf (r\<lparr>jr_tail := jr_tail r + 1\<rparr>)"
    "jr_contents r = slot_bytes (jr_ring r ! pop_slot r) # jr_contents (r\<lparr>jr_tail := jr_tail r + 1\<rparr>)"
    using p c by simp_all
qed

subsection \<open>The invariant\<close>

fun push_inv :: "jring \<Rightarrow> push_pc \<Rightarrow> bool" where
  "push_inv r Pu_Idle \<longleftrightarrow> True"
| "push_inv r (Pu_Copy b) \<longleftrightarrow> record_ok (Some b)"
| "push_inv r (Pu_Size b) \<longleftrightarrow> record_ok (Some b) \<and> take (length b) (sl_data (jr_ring r ! push_slot r)) = b"
| "push_inv r (Pu_Store b) \<longleftrightarrow> slot_valid (jr_ring r ! push_slot r) \<and> slot_bytes (jr_ring r ! push_slot r) = b"

fun pop_inv :: "jring \<Rightarrow> pop_pc \<Rightarrow> bool" where
  "pop_inv r Po_Idle \<longleftrightarrow> True"
| "pop_inv r Po_Size \<longleftrightarrow> True"
| "pop_inv r (Po_Copy n) \<longleftrightarrow> n = sl_size (jr_ring r ! pop_slot r)"
| "pop_inv r (Po_Store b) \<longleftrightarrow> b = slot_bytes (jr_ring r ! pop_slot r)"

text \<open>A thread's own part does not depend on the other's counter.\<close>

lemma push_inv_tail [simp]: "push_inv (r\<lparr>jr_tail := t\<rparr>) pc = push_inv r pc"
  by (cases pc) (simp_all add: push_slot_def)

lemma pop_inv_head [simp]: "pop_inv (r\<lparr>jr_head := h\<rparr>) pc = pop_inv r pc"
  by (cases pc) (simp_all add: pop_slot_def)

text \<open>The value the producer last saw of \<open>tail_\<close> is behind the true one, the consumer's of \<open>head_\<close> likewise.\<close>

definition seen_inv :: "spsc \<Rightarrow> bool" where
  "seen_inv s \<longleftrightarrow> (let r = rs_ring s in
     jr_tail r - rs_tail_seen s \<le> jr_head r - rs_tail_seen s \<and> jr_head r - rs_tail_seen s \<le> jr_capacity r \<and>
     (rs_push s \<noteq> Pu_Idle \<longrightarrow> jr_head r - rs_tail_seen s < jr_capacity r) \<and>
     rs_head_seen s - jr_tail r \<le> jr_head r - jr_tail r \<and>
     (rs_pop s \<noteq> Po_Idle \<longrightarrow> rs_head_seen s \<noteq> jr_tail r))"

definition spsc_inv :: "spsc \<Rightarrow> bool" where
  "spsc_inv s \<longleftrightarrow> jr_wf (rs_ring s) \<and> rs_accepted s = rs_out s @ jr_contents (rs_ring s) \<and>
     seen_inv s \<and> push_inv (rs_ring s) (rs_push s) \<and> pop_inv (rs_ring s) (rs_pop s)"

lemma spsc_invD:
  assumes "spsc_inv s"
  shows "jr_wf (rs_ring s)" "rs_accepted s = rs_out s @ jr_contents (rs_ring s)" "seen_inv s"
    "push_inv (rs_ring s) (rs_push s)" "pop_inv (rs_ring s) (rs_pop s)"
  using assms by (simp_all add: spsc_inv_def)

lemma seen_room:
  assumes "seen_inv s" "rs_push s \<noteq> Pu_Idle"
  shows "unat (jr_head (rs_ring s) - jr_tail (rs_ring s)) < unat (jr_capacity (rs_ring s))"
proof -
  have "unat (jr_head (rs_ring s) - rs_tail_seen s) < unat (jr_capacity (rs_ring s))"
    using assms by (simp add: seen_inv_def Let_def word_less_nat_alt)
  then show ?thesis using assms(1) between_unat [of "jr_tail (rs_ring s)" "rs_tail_seen s" "jr_head (rs_ring s)"]
    by (simp add: seen_inv_def Let_def)
qed

lemma seen_nonempty:
  assumes "seen_inv s" "rs_pop s \<noteq> Po_Idle"
  shows "jr_tail (rs_ring s) \<noteq> jr_head (rs_ring s)"
proof
  assume "jr_tail (rs_ring s) = jr_head (rs_ring s)"
  then have "rs_head_seen s - jr_tail (rs_ring s) \<le> 0" using assms(1) by (simp add: seen_inv_def Let_def)
  then show False using assms by (simp add: seen_inv_def Let_def)
qed

lemma race_free:
  assumes "spsc_inv s" "rs_push s \<noteq> Pu_Idle" "rs_pop s \<noteq> Po_Idle"
  shows "push_slot (rs_ring s) \<noteq> pop_slot (rs_ring s)"
  using spsc_invD(1,3) [OF assms(1)] seen_room assms(2,3) seen_nonempty by (intro slots_apart) auto

subsection \<open>Every access keeps it\<close>

lemma tryPush_load_inv:
  assumes I: "spsc_inv s" and idle: "rs_push s = Pu_Idle"
    and v: "acquirable (rs_tail_seen s) (jr_tail (rs_ring s)) v" and st: "tryPush_load data v s = (res, s')"
  shows "spsc_inv s'"
proof -
  let ?r = "rs_ring s" and ?o = "rs_tail_seen s"
  have seen: "jr_tail ?r - ?o \<le> jr_head ?r - ?o" "jr_head ?r - ?o \<le> jr_capacity ?r"
    using spsc_invD(3) [OF I] by (simp_all add: seen_inv_def Let_def)
  have d: "unat (jr_head ?r - ?o) = unat (jr_tail ?r - ?o) + unat (jr_head ?r - jr_tail ?r)"
    "unat (jr_tail ?r - ?o) = unat (v - ?o) + unat (jr_tail ?r - v)"
    using between_unat [OF seen(1)] between_unat [of v ?o "jr_tail ?r"] v by (simp_all add: acquirable_def)
  then have "v - ?o \<le> jr_head ?r - ?o" by (simp add: word_le_nat_alt)
  note e = between_unat [OF this]
  have "jr_tail ?r - v \<le> jr_head ?r - v" "jr_head ?r - v \<le> jr_capacity ?r"
    using d e seen(2) by (simp_all add: word_le_nat_alt)
  then show ?thesis
    using I idle st
    by (auto simp: tryPush_load_def spsc_inv_def seen_inv_def record_ok_def Let_def
        split: option.splits if_splits)
qed

text \<open>The two writes to the slot behind the window.\<close>

lemma slot_write_inv:
  assumes I: "spsc_inv s" and busy: "rs_push s \<noteq> Pu_Idle" "pc \<noteq> Pu_Idle"
    and s': "s' = s\<lparr>rs_ring := (rs_ring s)\<lparr>jr_ring := (jr_ring (rs_ring s))[push_slot (rs_ring s) := x]\<rparr>, rs_push := pc\<rparr>"
    and inv: "push_inv (rs_ring s') (rs_push s')"
  shows "spsc_inv s'"
proof -
  let ?r = "rs_ring s" and ?r' = "rs_ring s'"
  note W = wf_slot_write [OF spsc_invD(1) [OF I] seen_room [OF spsc_invD(3) [OF I] busy(1)], of x]
  have r': "?r' = ?r\<lparr>jr_ring := (jr_ring ?r)[push_slot ?r := x]\<rparr>" by (simp add: s')
  have "jr_ring ?r' ! pop_slot ?r = jr_ring ?r ! pop_slot ?r" if "rs_pop s \<noteq> Po_Idle"
    using race_free [OF I busy(1) that] by (simp add: r')
  then have "pop_inv (rs_ring s') (rs_pop s')" using spsc_invD(5) [OF I]
    by (cases "rs_pop s") (simp_all add: pop_slot_def s')
  moreover have "seen_inv s'" using spsc_invD(3) [OF I] busy by (simp add: seen_inv_def Let_def s')
  ultimately show ?thesis using W inv spsc_invD(2) [OF I] unfolding spsc_inv_def r' by (simp add: s')
qed

lemma push_slot_less: "jr_wf r \<Longrightarrow> push_slot r < length (jr_ring r)"
  using slot_positions [of r] by simp

lemma tryPush_copy_inv:
  assumes I: "spsc_inv s" and pc: "rs_push s = Pu_Copy bytes"
  shows "spsc_inv (tryPush_copy bytes s)"
proof (rule slot_write_inv [OF I])
  show "push_inv (rs_ring (tryPush_copy bytes s)) (rs_push (tryPush_copy bytes s))"
    using spsc_invD(4) [OF I] pc push_slot_less [OF spsc_invD(1) [OF I]]
    by (simp add: tryPush_copy_def push_slot_def Let_def)
qed (use pc in \<open>simp_all add: tryPush_copy_def Let_def\<close>)

lemma tryPush_size_inv:
  assumes I: "spsc_inv s" and pc: "rs_push s = Pu_Size bytes"
  shows "spsc_inv (tryPush_size bytes s)"
proof (rule slot_write_inv [OF I])
  let ?sl = "jr_ring (rs_ring s) ! push_slot (rs_ring s)"
  have b: "bytes \<noteq> []" "length bytes \<le> kMaxRecordSize" "take (length bytes) (sl_data ?sl) = bytes"
    using spsc_invD(4) [OF I] pc by (simp_all add: record_ok_def)
  have "?sl\<lparr>sl_size := of_nat (length bytes)\<rparr> = fill_slot bytes ?sl"
  proof -
    have "sl_data ?sl = bytes @ drop (length bytes) (sl_data ?sl)" using append_take_drop_id b(3) by metis
    then show ?thesis by (simp add: fill_slot_def)
  qed
  then show "push_inv (rs_ring (tryPush_size bytes s)) (rs_push (tryPush_size bytes s))"
    using fill_slot_ok [OF b(1,2), of ?sl] push_slot_less [OF spsc_invD(1) [OF I]]
    by (simp add: tryPush_size_def push_slot_def Let_def)
qed (use pc in \<open>simp_all add: tryPush_size_def Let_def\<close>)

lemma tryPush_store_inv:
  assumes I: "spsc_inv s" and pc: "rs_push s = Pu_Store bytes" and st: "tryPush_store bytes s = (res, s')"
  shows "spsc_inv s'"
proof -
  let ?r = "rs_ring s" and ?o = "rs_tail_seen s"
  have busy: "rs_push s \<noteq> Pu_Idle" using pc by simp
  have v: "slot_valid (jr_ring ?r ! push_slot ?r)" "slot_bytes (jr_ring ?r ! push_slot ?r) = bytes"
    using spsc_invD(4) [OF I] pc by (simp_all add:)
  note room = seen_room [OF spsc_invD(3) [OF I] busy] and S = spsc_invD(3) [OF I, unfolded seen_inv_def Let_def]
  note H = head_store [OF spsc_invD(1) [OF I] room v(1)]
  have o: "unat (jr_head ?r - ?o) < unat (jr_capacity ?r)" using S busy by (simp add: word_less_nat_alt)
  have d: "unat (jr_head ?r - ?o) = unat (jr_tail ?r - ?o) + unat (jr_head ?r - jr_tail ?r)" using S by (intro between_unat) simp
  have "seen_inv s'"
    using S d unat_step [OF o] unat_step [OF room] o st
    by (auto simp: seen_inv_def tryPush_store_def word_le_nat_alt)
  then show ?thesis
    using H v(2) spsc_invD(2,5) [OF I] st by (auto simp: spsc_inv_def tryPush_store_def pop_slot_def)
qed

lemma tryPop_load_inv:
  assumes I: "spsc_inv s" and idle: "rs_pop s = Po_Idle"
    and v: "acquirable (rs_head_seen s) (jr_head (rs_ring s)) v" and st: "tryPop_load v s = (res, s')"
  shows "spsc_inv s'"
proof -
  let ?r = "rs_ring s" and ?o = "rs_head_seen s"
  have seen: "?o - jr_tail ?r \<le> jr_head ?r - jr_tail ?r" using spsc_invD(3) [OF I] by (simp add: seen_inv_def Let_def)
  have d: "unat (jr_head ?r - jr_tail ?r) = unat (?o - jr_tail ?r) + unat (jr_head ?r - ?o)"
    "unat (jr_head ?r - ?o) = unat (v - ?o) + unat (jr_head ?r - v)"
    using between_unat [OF seen] between_unat [of v ?o "jr_head ?r"] v by (simp_all add: acquirable_def)
  have "unat (v - jr_tail ?r) \<le> unat (jr_head ?r - jr_tail ?r)"
  proof -
    have "v - jr_tail ?r = (v - ?o) + (?o - jr_tail ?r)" by simp
    then have "unat (v - jr_tail ?r) \<le> unat (v - ?o) + unat (?o - jr_tail ?r)"
      by (metis unat_word_ariths(1) mod_less_eq_dividend)
    then show ?thesis using d by linarith
  qed
  then have "v - jr_tail ?r \<le> jr_head ?r - jr_tail ?r" by (simp add: word_le_nat_alt)
  then show ?thesis
    using I idle st by (auto simp: tryPop_load_def spsc_inv_def seen_inv_def Let_def split: if_splits)
qed

lemma tryPop_store_inv:
  assumes I: "spsc_inv s" and pc: "rs_pop s = Po_Store bytes" and st: "tryPop_store bytes s = (res, s')"
  shows "spsc_inv s'"
proof -
  let ?r = "rs_ring s" and ?o = "rs_tail_seen s" and ?h = "rs_head_seen s"
  have busy: "rs_pop s \<noteq> Po_Idle" using pc by simp
  note ne = seen_nonempty [OF spsc_invD(3) [OF I] busy] and S = spsc_invD(3) [OF I, unfolded seen_inv_def Let_def]
  note T = tail_store [OF spsc_invD(1) [OF I] ne]
  have b: "bytes = slot_bytes (jr_ring ?r ! pop_slot ?r)" using spsc_invD(5) [OF I] pc by (simp add:)
  have d: "unat (jr_head ?r - ?o) = unat (jr_tail ?r - ?o) + unat (jr_head ?r - jr_tail ?r)" using S by (intro between_unat) simp
  have p: "0 < unat (jr_head ?r - jr_tail ?r)" using ne by (simp add: unat_gt_0)
  have t: "unat (jr_tail ?r + 1 - ?o) = Suc (unat (jr_tail ?r - ?o))"
    using d p by (intro unat_step [where n = "jr_head ?r - ?o"]) simp
  have h: "?h \<noteq> jr_tail ?r" using S busy by simp
  have "seen_inv s'"
    using S d t p unat_back [OF h] unat_back [OF ne [symmetric]] st
    by (auto simp: seen_inv_def tryPop_store_def word_le_nat_alt Let_def)
  then show ?thesis
    using T b spsc_invD(2,4) [OF I] st by (auto simp: spsc_inv_def tryPop_store_def push_slot_def)
qed

lemma tryPop_reads_inv:
  assumes I: "spsc_inv s"
  shows "rs_pop s = Po_Size \<Longrightarrow> tryPop_size s = (res, s') \<Longrightarrow> res = None \<and> spsc_inv s'"
    and "rs_pop s = Po_Copy n \<Longrightarrow> spsc_inv (tryPop_copy n s)"
proof -
  assume pc: "rs_pop s = Po_Size" and st: "tryPop_size s = (res, s')"
  have "slot_valid (jr_ring (rs_ring s) ! pop_slot (rs_ring s))"
    using tail_store(1) [OF spsc_invD(1) [OF I]] seen_nonempty [OF spsc_invD(3) [OF I]] pc by simp
  then show "res = None \<and> spsc_inv s'"
    using I pc st by (auto simp: tryPop_size_def spsc_inv_def seen_inv_def Let_def)
next
  assume "rs_pop s = Po_Copy n"
  then show "spsc_inv (tryPop_copy n s)"
    using I by (auto simp: tryPop_copy_def spsc_inv_def seen_inv_def Let_def slot_bytes_def)
qed

lemma spsc_step_inv: "spsc_step s s' \<Longrightarrow> spsc_inv s \<Longrightarrow> spsc_inv s'"
  unfolding spsc_step_def
proof (elim disjE)
  show "spsc_inv s'" if "push_step s s'" "spsc_inv s"
    using that by cases (auto intro: tryPush_load_inv tryPush_copy_inv tryPush_size_inv tryPush_store_inv)
  show "spsc_inv s'" if "pop_step s s'" "spsc_inv s"
    using that by cases (auto dest: tryPop_reads_inv intro: tryPop_load_inv tryPop_store_inv)
qed

lemma spsc_start_inv:
  assumes "JournalRingBuffer cap = Inr r"
  shows "spsc_inv (spsc_start r)"
  using JournalRingBuffer_wf [OF assms] assms
  by (auto simp: spsc_inv_def spsc_start_def seen_inv_def JournalRingBuffer_def split: if_splits)

lemma spsc_capacity: "spsc_step s s' \<Longrightarrow> jr_capacity (rs_ring s') = jr_capacity (rs_ring s)"
  by (auto simp: spsc_step_def tryPush_load_def tryPush_copy_def tryPush_size_def tryPush_store_def tryPop_load_def tryPop_size_def
      tryPop_copy_def tryPop_store_def Let_def elim!: push_step.cases pop_step.cases split: option.splits if_splits)

lemma spsc_reaches:
  assumes "JournalRingBuffer cap = Inr r" "spsc_step\<^sup>*\<^sup>* (spsc_start r) s"
  shows "spsc_inv s \<and> jr_capacity (rs_ring s) = cap"
  using assms(2)
proof (rule rtranclp_invariant [where I = "\<lambda>s. spsc_inv s \<and> jr_capacity (rs_ring s) = cap"])
  show "spsc_inv (spsc_start r) \<and> jr_capacity (rs_ring (spsc_start r)) = cap"
    using spsc_start_inv [OF assms(1)] assms(1) by (auto simp: spsc_start_def JournalRingBuffer_def split: if_splits)
qed (use spsc_step_inv spsc_capacity in auto)

lemma fill_slot_writes:
  "sl\<lparr>sl_data := bytes @ drop (length bytes) (sl_data sl), sl_size := of_nat (length bytes)\<rparr> = fill_slot bytes sl"
  by (cases sl) (simp add: fill_slot_def)

text \<open>Without interference the steps of a call are the atomic operations of \<open>Journal_Ring\<close>.\<close>

lemma push_is_tryPush:
  assumes "rs_push s = Pu_Idle" "tryPush (Some bytes) (rs_ring s) = (Ok, r')" "acquirable (rs_tail_seen s) (jr_tail (rs_ring s)) (jr_tail (rs_ring s))"
  shows "\<exists>s'. push_step\<^sup>*\<^sup>* s s' \<and> rs_ring s' = r' \<and> rs_push s' = Pu_Idle \<and> rs_accepted s' = rs_accepted s @ [bytes]"
proof -
  let ?v = "jr_tail (rs_ring s)"
  define s1 s2 s3 s4 where "s1 = s\<lparr>rs_tail_seen := ?v, rs_push := Pu_Copy bytes\<rparr>" and "s2 = tryPush_copy bytes s1"
    and "s3 = tryPush_size bytes s2" and "s4 = snd (tryPush_store bytes s3)"
  have "tryPush_load (Some bytes) ?v s = (None, s1)"
    using assms(2) by (auto simp: tryPush_load_def tryPush_def s1_def split: if_splits)
  then have "push_step s s1" by (rule push_step.load [OF assms(1,3)])
  moreover have "push_step s1 s2" "push_step s2 s3"
    unfolding s2_def s3_def by (rule push_step.copy push_step.size; simp add: s1_def tryPush_copy_def Let_def)+
  moreover have "push_step s3 s4"
    by (rule push_step.store [of s3 bytes "Some Ok"]) (simp_all add: s3_def tryPush_size_def s4_def tryPush_store_def Let_def)
  ultimately have "push_step\<^sup>*\<^sup>* s s4" by (meson converse_rtranclp_into_rtranclp rtranclp.rtrancl_refl)
  moreover have "rs_ring s4 = r'"
    using assms(2)
    by (cases "push_slot (rs_ring s) < length (jr_ring (rs_ring s))")
      (auto simp: s4_def tryPush_store_def s3_def tryPush_size_def s2_def tryPush_copy_def s1_def tryPush_def Let_def
        push_slot_def fill_slot_writes list_update_beyond split: if_splits)
  ultimately show ?thesis
    by (intro exI [of _ s4]) (simp add: s4_def tryPush_store_def s3_def tryPush_size_def s2_def tryPush_copy_def s1_def Let_def)
qed

text \<open>
  C36. However the accesses of the producer and the consumer interleave, and however stale the counters they
  see of each other: the records popped are, in order and byte for byte, the first of those pushed, and the ring holds the
  rest, never more than its capacity. No slot is written while it is read, and none is skipped
  as invalid. With the current value of the other's counter a well-formed record is refused exactly when the ring is full, and a pop fails
  exactly when everything pushed has been popped.
\<close>

theorem journal_ring_spsc:
  assumes "JournalRingBuffer cap = Inr r" "spsc_step\<^sup>*\<^sup>* (spsc_start r) s"
  shows "rs_accepted s = rs_out s @ jr_contents (rs_ring s) \<and>
    length (rs_accepted s) - length (rs_out s) \<le> unat cap \<and>
    (\<forall>i j. writing s = Some i \<longrightarrow> reading s = Some j \<longrightarrow> i \<noteq> j) \<and>
    (rs_pop s = Po_Size \<longrightarrow> fst (tryPop_size s) = None) \<and>
    (record_ok (Some bytes) \<longrightarrow>
       (fst (tryPush_load (Some bytes) (jr_tail (rs_ring s)) s) = Some Full \<longleftrightarrow> length (rs_accepted s) - length (rs_out s) = unat cap)) \<and>
    (fst (tryPop_load (jr_head (rs_ring s)) s) = Some None \<longleftrightarrow> rs_accepted s = rs_out s)"
proof -
  let ?r = "rs_ring s"
  have I: "spsc_inv s" and cap: "jr_capacity ?r = cap" using spsc_reaches [OF assms] by auto
  note acc = spsc_invD(2) [OF I]
  have le: "jr_head ?r - jr_tail ?r \<le> cap" using spsc_invD(1) [OF I] cap by (simp add: jr_wf_def)
  have len: "length (rs_accepted s) - length (rs_out s) = unat (jr_head ?r - jr_tail ?r)"
    using acc length_jr_contents [of ?r] by simp
  have "i \<noteq> j" if "writing s = Some i" "reading s = Some j" for i j
    using race_free [OF I] that by (auto simp: writing_def reading_def split: if_splits)
  moreover have "fst (tryPop_size s) = None" if "rs_pop s = Po_Size"
    using tryPop_reads_inv(1) [OF I that] by (metis prod.collapse)
  moreover have "fst (tryPush_load (Some bytes) (jr_tail ?r) s) = Some Full \<longleftrightarrow> unat (jr_head ?r - jr_tail ?r) = unat cap" if "record_ok (Some bytes)"
    using that le by (auto simp: tryPush_load_def record_ok_def cap word_le_nat_alt)
  moreover have "fst (tryPop_load (jr_head ?r) s) = Some None \<longleftrightarrow> jr_contents ?r = []"
    using length_jr_contents [of ?r] by (auto simp: tryPop_load_def unat_eq_zero)
  ultimately show ?thesis unfolding len using acc le by (simp add: word_le_nat_alt)
qed

text \<open>
  A ring of two slots: a record is pushed, then a second one is being written, on a view of \<open>tail_\<close>
  from the beginning, while the first is being read.
\<close>

definition ex_one_pushed :: "jring \<Rightarrow> spsc" where
  "ex_one_pushed r = (let s1 = snd (tryPush_load (Some [1, 2]) 0 (spsc_start r))
     in snd (tryPush_store [1, 2] (tryPush_size [1, 2] (tryPush_copy [1, 2] s1))))"

definition ex_overlap :: "jring \<Rightarrow> spsc" where
  "ex_overlap r = snd (tryPop_load 1 (snd (tryPush_load (Some [3]) 0 (ex_one_pushed r))))"

definition ex_jring2 :: jring where
  "ex_jring2 = \<lparr>jr_ring = [empty_slot, empty_slot], jr_head = 0, jr_tail = 0, jr_capacity = 2, jr_mask = 1\<rparr>"

lemmas spsc_defs = tryPush_load_def tryPush_copy_def tryPush_size_def tryPush_store_def tryPop_load_def spsc_start_def
  ex_jring2_def push_slot_def pop_slot_def Let_def

lemma ex_overlap_reached: "spsc_step\<^sup>*\<^sup>* (spsc_start ex_jring2) (ex_overlap ex_jring2)"
proof -
  let ?s0 = "spsc_start ex_jring2"
  let ?s1 = "snd (tryPush_load (Some [1, 2]) 0 ?s0)"
  let ?s2 = "tryPush_copy [1, 2] ?s1"
  let ?s3 = "tryPush_size [1, 2] ?s2"
  let ?s4 = "snd (tryPush_store [1, 2] ?s3)"
  let ?s5 = "snd (tryPush_load (Some [3]) 0 ?s4)"
  let ?s6 = "snd (tryPop_load 1 ?s5)"
  have "push_step ?s0 ?s1"
    by (rule push_step.load [where v = 0 and data = "Some [1, 2]" and res = None]) (simp_all add: spsc_defs acquirable_def)
  moreover have "push_step ?s1 ?s2" by (rule push_step.copy) (simp add: spsc_defs)
  moreover have "push_step ?s2 ?s3" by (rule push_step.size) (simp add: spsc_defs)
  moreover have "push_step ?s3 ?s4"
    by (rule push_step.store [where bytes = "[1, 2]" and res = "Some Ok"]) (simp_all add: spsc_defs)
  moreover have "push_step ?s4 ?s5"
    by (rule push_step.load [where v = 0 and data = "Some [3]" and res = None]) (simp_all add: spsc_defs acquirable_def word_le_nat_alt)
  moreover have "pop_step ?s5 ?s6"
    by (rule pop_step.load [where v = 1 and res = None]) (simp_all add: spsc_defs acquirable_def)
  ultimately show ?thesis
    unfolding ex_overlap_def ex_one_pushed_def Let_def
    by (meson spsc_step_def converse_rtranclp_into_rtranclp rtranclp.rtrancl_refl)
qed

theorem journal_ring_spsc_witness:
  "rs_accepted (ex_overlap ex_jring2) = [[1, 2]] \<and> rs_out (ex_overlap ex_jring2) = [] \<and>
   writing (ex_overlap ex_jring2) = Some 1 \<and> reading (ex_overlap ex_jring2) = Some 0 \<and> (1::nat) \<noteq> 0 \<and>
   jr_contents (rs_ring (ex_overlap ex_jring2)) = [[1, 2]] \<and> fst (tryPop_size (ex_overlap ex_jring2)) = None"
proof -
  let ?s = "ex_overlap ex_jring2"
  have new: "JournalRingBuffer 2 = Inr ex_jring2"
  proof -
    have "replicate 2 empty_slot = [empty_slot, empty_slot]" by (simp add: numeral_2_eq_2)
    then show ?thesis by (simp add: JournalRingBuffer_def ex_jring2_def)
  qed
  have s: "rs_accepted ?s = [[1, 2]]" "rs_out ?s = []" "rs_pop ?s = Po_Size" "writing ?s = Some 1" "reading ?s = Some 0"
    by (simp_all add: ex_overlap_def ex_one_pushed_def spsc_defs writing_def reading_def word_le_nat_alt)
  show ?thesis using journal_ring_spsc [OF new ex_overlap_reached, of "[3]"] s by simp
qed

end
