(* ===== verification/Byte_Codec.thy ===== *)
theory Byte_Codec
  imports Trading_Prelude
begin

unbundle bit_operations_syntax

text \<open>
  The byte level shared by \<open>src/Journal.cpp\<close> and \<open>src/Recovery.cpp\<close>: writing big-endian
  numbers into a fixed buffer, reading them back, and the table-driven CRC-32.

  A buffer is a byte list of fixed length with a write position; \<open>out[pos++] = b\<close> is a list update.
\<close>

type_synonym buf = "u8 list \<times> nat"

definition putU8 :: "u8 \<Rightarrow> buf \<Rightarrow> buf" where
  "putU8 v ob = ((fst ob)[snd ob := v], snd ob + 1)"

definition putU32BE :: "u32 \<Rightarrow> buf \<Rightarrow> buf" where
  "putU32BE v ob =
     putU8 (ucast (v AND 0xFF))
       (putU8 (ucast (drop_bit 8 v AND 0xFF))
         (putU8 (ucast (drop_bit 16 v AND 0xFF))
           (putU8 (ucast (drop_bit 24 v AND 0xFF)) ob)))"

definition putU64BE :: "u64 \<Rightarrow> buf \<Rightarrow> buf" where
  "putU64BE v ob = fold (\<lambda>shift. putU8 (ucast (drop_bit shift v AND 0xFF))) [56, 48, 40, 32, 24, 16, 8, 0] ob"

text \<open>\<open>static_cast<std::uint64_t>\<close> of a signed number is its value modulo \<open>2 ^ 64\<close>.\<close>

definition putI64BE :: "i64 \<Rightarrow> buf \<Rightarrow> buf" where
  "putI64BE v ob = putU64BE (word_of_int v) ob"

definition readU32BE :: "u8 list \<Rightarrow> u32" where
  "readU32BE p = push_bit 24 (ucast (p ! 0)) OR push_bit 16 (ucast (p ! 1)) OR push_bit 8 (ucast (p ! 2)) OR ucast (p ! 3)"

definition readU64BE :: "u8 list \<Rightarrow> u64" where
  "readU64BE p = fold (\<lambda>i r. push_bit 8 r OR ucast (p ! i)) [0, 1, 2, 3, 4, 5, 6, 7] 0"

definition readI64BE :: "u8 list \<Rightarrow> i64" where
  "readI64BE p = sint (readU64BE p)"

subsection \<open>CRC-32\<close>

definition crc_bit :: "u32 \<Rightarrow> u32" where
  "crc_bit crc = (if crc AND 1 \<noteq> 0 then drop_bit 1 crc XOR 0xEDB88320 else drop_bit 1 crc)"

definition crc_table :: "u32 list" where
  "crc_table = map (\<lambda>i. (crc_bit ^^ 8) (of_nat i)) [0..<256]"

definition crc_step :: "u32 \<Rightarrow> u8 \<Rightarrow> u32" where
  "crc_step crc b = (let index = ucast ((crc XOR ucast b) AND 0xFF) :: u8
     in drop_bit 8 crc XOR crc_table ! unat index)"

definition crc32 :: "u8 list \<Rightarrow> u32" where
  "crc32 bs = foldl crc_step 0xFFFFFFFF bs XOR 0xFFFFFFFF"

section \<open>Lemmas\<close>

subsection \<open>Bytes of a number\<close>

definition u32_bytes :: "u32 \<Rightarrow> u8 list" where
  "u32_bytes v = [ucast (drop_bit 24 v), ucast (drop_bit 16 v), ucast (drop_bit 8 v), ucast v]"

definition u64_bytes :: "u64 \<Rightarrow> u8 list" where
  "u64_bytes v = [ucast (drop_bit 56 v), ucast (drop_bit 48 v), ucast (drop_bit 40 v), ucast (drop_bit 32 v),
     ucast (drop_bit 24 v), ucast (drop_bit 16 v), ucast (drop_bit 8 v), ucast v]"

lemma length_u32_bytes [simp]: "length (u32_bytes v) = 4"
  by (simp add: u32_bytes_def)

lemma length_u64_bytes [simp]: "length (u64_bytes v) = 8"
  by (simp add: u64_bytes_def)

lemma and_255: "x AND 255 = take_bit 8 x" for x :: "'a::len word"
proof -
  have "(255 :: 'a word) = mask 8" by (simp add: mask_eq_exp_minus_1)
  then show ?thesis by (simp only: take_bit_eq_mask)
qed

lemma low_byte [simp]: "(ucast (x AND 255) :: u8) = ucast x" for x :: "'a::len word"
  unfolding and_255 by (rule bit_word_eqI) (auto simp: bit_simps)

text \<open>One step of a big-endian read: the next byte under the bits read so far.\<close>

lemma read_step: "push_bit 8 (drop_bit (n + 8) v) OR ucast (ucast (drop_bit n v) :: u8) = drop_bit n v"
  for v :: "'a::len word"
proof (rule bit_word_eqI)
  fix m assume "m < LENGTH('a)"
  then show "bit (push_bit 8 (drop_bit (n + 8) v) OR ucast (ucast (drop_bit n v) :: u8)) m = bit (drop_bit n v) m"
    by (cases "m < 8") (auto simp: bit_simps ac_simps)
qed

lemma read_first: "ucast (ucast (drop_bit n v) :: u8) = drop_bit n v" if "LENGTH('a) = n + 8" for v :: "'a::len word"
  by (rule bit_word_eqI) (use that in \<open>auto simp: bit_simps dest: bit_imp_le_length\<close>)

lemma readU64BE_bytes [simp]: "readU64BE (u64_bytes v @ bs) = v"
  using read_first [where n = 56 and v = v] read_step [of 0 v] read_step [of 8 v] read_step [of 16 v] read_step [of 24 v]
    read_step [of 32 v] read_step [of 40 v] read_step [of 48 v]
  by (simp add: readU64BE_def u64_bytes_def)

lemma readU32BE_bytes [simp]: "readU32BE (u32_bytes v @ bs) = v"
proof -
  have "readU32BE p = push_bit 8 (push_bit 8 (push_bit 8 (ucast (p ! 0)) OR ucast (p ! 1)) OR ucast (p ! 2)) OR ucast (p ! 3)" for p
    by (simp add: readU32BE_def push_bit_or or.assoc)
  moreover have "(u32_bytes v @ bs) ! 0 = ucast (drop_bit 24 v)" "(u32_bytes v @ bs) ! 1 = ucast (drop_bit 16 v)"
    "(u32_bytes v @ bs) ! 2 = ucast (drop_bit 8 v)" "(u32_bytes v @ bs) ! 3 = ucast (drop_bit 0 v)"
    by (simp_all add: u32_bytes_def)
  ultimately show ?thesis
    using read_first [where n = 24 and v = v] read_step [of 0 v] read_step [of 8 v] read_step [of 16 v]
    by (simp only: add_0 add_numeral_left) simp
qed

lemma readI64BE_bytes: "in_i64 v \<Longrightarrow> readI64BE (u64_bytes (word_of_int v) @ bs) = v"
  by (simp add: readI64BE_def in_i64_def signed_of_int signed_take_bit_int_eq_self)

lemma readU32BE_prefix: "4 \<le> length p \<Longrightarrow> readU32BE (p @ q) = readU32BE p"
  by (cases p) (auto simp: readU32BE_def nth_append)

subsection \<open>The table-driven CRC is the bitwise CRC\<close>

abbreviation crc_poly :: u32 where "crc_poly \<equiv> 0xEDB88320"

lemma xor_right_cancel: "a XOR c = b XOR c \<longleftrightarrow> a = b" for a b c :: "'a::len word"
proof
  assume "a XOR c = b XOR c"
  then have "(a XOR c) XOR c = (b XOR c) XOR c" by (rule arg_cong)
  then show "a = b" by (simp add: xor.assoc)
qed simp

lemma xor_left_cancel: "c XOR a = c XOR b \<longleftrightarrow> a = b" for a b c :: "'a::len word"
  using xor_right_cancel by (metis xor.commute)

lemma crc_bit_alt: "crc_bit c = drop_bit 1 c XOR (if bit c 0 then crc_poly else 0)"
  by (simp add: crc_bit_def and_one_eq bit_0 odd_iff_mod_2_eq_one)

lemma crc_bit_xor: "crc_bit (a XOR b) = crc_bit a XOR crc_bit b"
  by (rule bit_word_eqI) (auto simp: crc_bit_alt bit_simps)

lemma crc_bits_xor: "(crc_bit ^^ n) (a XOR b) = (crc_bit ^^ n) a XOR (crc_bit ^^ n) b"
  by (induction n) (simp_all add: crc_bit_xor)

lemma crc_bits_low: "take_bit n c = 0 \<Longrightarrow> (crc_bit ^^ n) c = drop_bit n c"
proof (induction n arbitrary: c)
  case (Suc n)
  have "\<not> bit c 0" using Suc.prems by (metis bit_take_bit_iff bit_0_eq bot_apply bot_bool_def zero_less_Suc)
  moreover have "take_bit n (drop_bit 1 c) = 0" using Suc.prems by (simp add: take_bit_drop_bit)
  ultimately show ?case using Suc.IH [of "drop_bit 1 c"] by (simp add: funpow_Suc_right crc_bit_alt [of c] del: funpow.simps)
qed simp

lemma split_low: "x = push_bit n (drop_bit n x) XOR take_bit n x" for x :: "'a::len word"
  by (rule bit_word_eqI) (auto simp: bit_simps)

lemma crc_byte: "(crc_bit ^^ 8) x = drop_bit 8 x XOR (crc_bit ^^ 8) (take_bit 8 x)"
proof -
  have "(crc_bit ^^ 8) x = (crc_bit ^^ 8) (push_bit 8 (drop_bit 8 x)) XOR (crc_bit ^^ 8) (take_bit 8 x)"
    by (subst split_low [of x 8]) (rule crc_bits_xor)
  also have "(crc_bit ^^ 8) (push_bit 8 (drop_bit 8 x)) = drop_bit 8 (push_bit 8 (drop_bit 8 x))"
    by (rule crc_bits_low) (simp add: take_bit_push_bit)
  also have "drop_bit 8 (push_bit 8 (drop_bit 8 x)) = drop_bit 8 x"
    by (rule bit_word_eqI) (auto simp: bit_simps dest: bit_imp_le_length)
  finally show ?thesis .
qed

lemma crc_table_nth: "crc_table ! unat (ucast (x AND 0xFF) :: u8) = (crc_bit ^^ 8) (take_bit 8 x)" for x :: u32
proof -
  have u: "unat (ucast x :: u8) = unat (take_bit 8 x)"
    by (simp add: unsigned_ucast_eq unsigned_take_bit_eq)
  have "unat (ucast x :: u8) < 256" using unsigned_less [of "ucast x :: u8", where 'a = nat] by simp
  then have "crc_table ! unat (ucast x :: u8) = (crc_bit ^^ 8) (of_nat (unat (ucast x :: u8)))"
    by (simp add: crc_table_def del: upt_Suc of_nat_unat)
  then show ?thesis by (simp add: u del: of_nat_unat) simp
qed

lemma crc_step_bitwise: "crc_step crc b = (crc_bit ^^ 8) (crc XOR ucast b)"
proof -
  have "drop_bit 8 (crc XOR ucast b) = drop_bit 8 crc"
    by (rule bit_word_eqI) (auto simp: bit_simps dest: bit_imp_le_length)
  then show ?thesis
    unfolding crc_step_def Let_def crc_table_nth by (subst crc_byte) simp
qed

definition crc32_bitwise :: "u8 list \<Rightarrow> u32" where
  "crc32_bitwise bs = NOT (foldl (\<lambda>crc b. (crc_bit ^^ 8) (crc XOR ucast b)) (NOT 0) bs)"

text \<open>
  C34. The checksum of the journal, computed byte by byte from a table of 256 entries, is the bit-by-bit CRC-32 with the
  reversed polynomial: complement, and for every byte eight shifts with conditional feedback.
\<close>

theorem crc32_is_bitwise: "crc32 bs = crc32_bitwise bs"
proof -
  have "crc_step = (\<lambda>crc b. (crc_bit ^^ 8) (crc XOR ucast b))" by (intro ext crc_step_bitwise)
  moreover have "(0xFFFFFFFF :: u32) = - 1" by simp
  ultimately show ?thesis by (simp only: crc32_def crc32_bitwise_def bit.xor_one_right bit.compl_zero)
qed

subsection \<open>Errors the checksum detects\<close>

lemma crc_bit_top: "bit (crc_bit c) 31 = bit c 0"
  by (auto simp: crc_bit_alt bit_simps dest: bit_imp_le_length)

lemma inj_crc_bit: "inj crc_bit"
proof (rule injI)
  fix a b assume e: "crc_bit a = crc_bit b"
  then have low: "bit a 0 = bit b 0" using crc_bit_top by metis
  with e have d: "drop_bit 1 a = drop_bit 1 b"
    by (simp add: crc_bit_alt xor_right_cancel)
  show "a = b"
  proof (rule bit_word_eqI)
    fix n show "bit a n = bit b n"
      using low arg_cong [OF d, of "\<lambda>x. bit x (n - 1)"] by (cases n) (simp_all add: bit_simps)
  qed
qed

lemma inj_crc_bits: "inj (crc_bit ^^ n)"
  by (induction n) (simp_all add: inj_crc_bit inj_compose [unfolded o_def] o_def)

lemma crc_fold_inj: "foldl crc_step c bs = foldl crc_step d bs \<Longrightarrow> c = d"
proof (induction bs arbitrary: c d)
  case (Cons b bs)
  then have "crc_step c b = crc_step d b" by simp
  then have "c XOR ucast b = d XOR ucast b"
    unfolding crc_step_bitwise by (rule injD [OF inj_crc_bits])
  then show ?case by (simp only: xor_right_cancel)
qed simp

text \<open>The bytes of a burst as one number, first byte lowest.\<close>

primrec le_word :: "u8 list \<Rightarrow> u32" where
  "le_word [] = 0"
| "le_word (b # bs) = ucast b XOR push_bit 8 (le_word bs)"

lemma le_word_small: "length bs \<le> 4 \<Longrightarrow> bit (le_word bs) n \<Longrightarrow> n < 8 * length bs"
proof (induction bs arbitrary: n)
  case (Cons b bs)
  from Cons.prems(2) have "bit b n \<or> 8 \<le> n \<and> bit (le_word bs) (n - 8)" by (auto simp: bit_simps)
  then show ?case using Cons.IH [of "n - 8"] Cons.prems(1) by (auto dest: bit_imp_le_length)
qed simp

lemma le_word_tl: "length bs \<le> 3 \<Longrightarrow> drop_bit 8 (push_bit 8 (le_word bs)) = le_word bs"
  using le_word_small [of bs] by (intro bit_word_eqI) (fastforce simp: bit_simps)

lemma crc_fold_burst:
  "length bs \<le> 4 \<Longrightarrow> foldl crc_step c bs = (crc_bit ^^ (8 * length bs)) (c XOR le_word bs)"
proof (induction bs arbitrary: c)
  case (Cons b bs)
  have low: "(crc_bit ^^ 8) (push_bit 8 (le_word bs)) = le_word bs"
    using crc_bits_low [of 8 "push_bit 8 (le_word bs)"] le_word_tl [of bs] Cons.prems by (simp add: take_bit_push_bit)
  have "foldl crc_step c (b # bs) = (crc_bit ^^ (8 * length bs)) ((crc_bit ^^ 8) (c XOR ucast b) XOR le_word bs)"
    using Cons by (simp add: crc_step_bitwise [of c b])
  moreover have "(crc_bit ^^ 8) (c XOR ucast b) XOR le_word bs = (crc_bit ^^ 8) (c XOR le_word (b # bs))"
    using low by (simp add: crc_bits_xor xor.assoc)
  moreover have "8 * length (b # bs) = 8 * length bs + 8" by simp
  ultimately show ?case by (simp only: funpow_add o_apply)
qed simp

lemma le_word_inj: "length bs = length cs \<Longrightarrow> length bs \<le> 4 \<Longrightarrow> le_word bs = le_word cs \<Longrightarrow> bs = cs"
proof (induction bs cs rule: list_induct2)
  case (Cons b bs c cs)
  have lo: "ucast (le_word (x # xs)) = x" for x xs
    by (rule bit_word_eqI) (auto simp: bit_simps)
  have hi: "drop_bit 8 (le_word (x # xs)) = le_word xs" if "length xs \<le> 3" for x xs
  proof -
    have "drop_bit 8 (le_word (x # xs)) = drop_bit 8 (push_bit 8 (le_word xs))"
      by (rule bit_word_eqI) (auto simp: bit_simps dest: bit_imp_le_length)
    then show ?thesis using le_word_tl [OF that] by simp
  qed
  have "b = c" using lo [of b bs] lo [of c cs] Cons.prems by simp
  moreover have "le_word bs = le_word cs" using hi [of bs b] hi [of cs c] Cons by (simp del: le_word.simps)
  ultimately show ?case using Cons by simp
qed simp

text \<open>
  Two messages of the same length that differ only inside four consecutive bytes have different checksums.
\<close>

lemma crc_bursts:
  assumes "length m = length m'" "length m \<le> 4" "m \<noteq> m'"
  shows "crc32 (xs @ m @ ys) \<noteq> crc32 (xs @ m' @ ys)"
proof
  assume e: "crc32 (xs @ m @ ys) = crc32 (xs @ m' @ ys)"
  let ?c = "foldl crc_step 0xFFFFFFFF xs"
  have "foldl crc_step (foldl crc_step ?c m) ys = foldl crc_step (foldl crc_step ?c m') ys"
    using arg_cong [OF e, of "\<lambda>x. x XOR 0xFFFFFFFF"] by (simp add: crc32_def xor.assoc)
  then have "foldl crc_step ?c m = foldl crc_step ?c m'" by (rule crc_fold_inj)
  then have "?c XOR le_word m = ?c XOR le_word m'"
    using assms(1,2) injD [OF inj_crc_bits, of "8 * length m'" "?c XOR le_word m"] by (simp add: crc_fold_burst)
  then have "le_word m = le_word m'" by (simp only: xor_left_cancel)
  then show False using le_word_inj assms by blast
qed

subsection \<open>Writing into the buffer\<close>

definition write_at :: "nat \<Rightarrow> u8 list \<Rightarrow> u8 list \<Rightarrow> u8 list" where
  "write_at pos bs out = take pos out @ bs @ drop (pos + length bs) out"

lemma length_write_at [simp]: "pos + length bs \<le> length out \<Longrightarrow> length (write_at pos bs out) = length out"
  by (simp add: write_at_def)

lemma write_at_append:
  "pos + length as + length bs \<le> length out \<Longrightarrow>
   write_at (pos + length as) bs (write_at pos as out) = write_at pos (as @ bs) out"
  by (simp add: write_at_def ac_simps)

lemma putU8_write: "pos < length out \<Longrightarrow> putU8 v (out, pos) = (write_at pos [v] out, pos + 1)"
  by (simp add: putU8_def write_at_def upd_conv_take_nth_drop)

text \<open>An operation on the buffer that writes given bytes at the position and moves past them.\<close>

definition emits :: "(buf \<Rightarrow> buf) \<Rightarrow> u8 list \<Rightarrow> bool" where
  "emits f bs \<longleftrightarrow> (\<forall>out pos. pos + length bs \<le> length out \<longrightarrow> f (out, pos) = (write_at pos bs out, pos + length bs))"

lemma emitsD: "emits f bs \<Longrightarrow> pos + length bs \<le> length out \<Longrightarrow> f (out, pos) = (write_at pos bs out, pos + length bs)"
  by (simp add: emits_def)

lemma emits_id: "emits (\<lambda>ob. ob) []"
  by (simp add: emits_def write_at_def)

lemma emits_comp: "emits f as \<Longrightarrow> emits g bs \<Longrightarrow> emits (\<lambda>ob. g (f ob)) (as @ bs)"
  unfolding emits_def by (simp add: write_at_append [symmetric] add.assoc)

lemma emits_putU8: "emits (putU8 v) [v]"
  by (simp add: emits_def putU8_write)

lemma emits_fold: "list_all2 emits fs bss \<Longrightarrow> emits (fold (\<lambda>f. f) fs) (concat bss)"
  by (induction rule: list_all2_induct) (simp_all add: emits_id [unfolded id_def] emits_comp comp_def id_def)

lemma emits_putU32BE: "emits (putU32BE v) (u32_bytes v)"
proof -
  have "emits (fold (\<lambda>f. f) (map putU8 (u32_bytes v))) (concat (map (\<lambda>b. [b]) (u32_bytes v)))"
    by (intro emits_fold) (simp add: list_all2_map1 list_all2_map2 list_all2_refl emits_putU8)
  moreover have "fold (\<lambda>f. f) (map putU8 (u32_bytes v)) = putU32BE v"
    by (intro ext) (simp add: putU32BE_def u32_bytes_def)
  ultimately show ?thesis by (simp add: concat_map_singleton)
qed

lemma emits_putU64BE: "emits (putU64BE v) (u64_bytes v)"
proof -
  have "emits (fold (\<lambda>f. f) (map putU8 (u64_bytes v))) (concat (map (\<lambda>b. [b]) (u64_bytes v)))"
    by (intro emits_fold) (simp add: list_all2_map1 list_all2_map2 list_all2_refl emits_putU8)
  moreover have "fold (\<lambda>f. f) (map putU8 (u64_bytes v)) = putU64BE v"
    by (intro ext) (simp add: putU64BE_def u64_bytes_def)
  ultimately show ?thesis by (simp add: concat_map_singleton)
qed

lemma emits_putI64BE: "emits (putI64BE v) (u64_bytes (word_of_int v))"
  using emits_putU64BE [of "word_of_int v"] by (simp add: emits_def putI64BE_def)

lemmas emits_intros = emits_putU8 emits_putU32BE emits_putU64BE emits_putI64BE

lemma take_write_at: "pos + length bs \<le> length out \<Longrightarrow> take (pos + length bs) (write_at pos bs out) = take pos out @ bs"
  by (simp add: write_at_def)

end
