(* ===== verification/Journal_File.thy ===== *)
theory Journal_File
  imports Byte_Codec Journal_Ring Market_Data
begin

text \<open>
  The write-ahead journal (\<open>include/Journal.h\<close>, \<open>src/Journal.cpp\<close>): serialisation of the market
  events into checksummed records, the hand-over through the ring, and the writer that appends them to the file.

  The file is the list of its bytes. The operating system's answers to \<open>write\<close>, \<open>read\<close>, \<open>lseek\<close>, \<open>open\<close> and
  \<open>fdatasync\<close> are arguments; \<open>jn_synced\<close> is the length of the prefix that a successful
  \<open>fdatasync\<close> has put on stable storage. Locks and condition variables appear as the atomic steps
  they delimit (theory \<open>Journal_Threads\<close>).
\<close>

datatype sync_policy = PER_RECORD | PER_N_RECORDS | MANUAL

abbreviation NEW_ORDER :: u8 where "NEW_ORDER \<equiv> 1"
abbreviation CANCEL_ORDER :: u8 where "CANCEL_ORDER \<equiv> 2"
abbreviation FILL :: u8 where "FILL \<equiv> 3"

text \<open>\<open>kMagic\<close> is \<open>JNL2\<close>.\<close>

definition kMagic :: "u8 list" where
  "kMagic = [74, 78, 76, 50]"

abbreviation kVersion :: u8 where "kVersion \<equiv> 3"

record journal =
  jn_file :: "u8 list"
  jn_synced :: nat
  jn_open :: bool
  jn_running :: bool
  jn_healthy :: bool
  jn_last_sequence :: u64
  jn_ring :: jring
  jn_queued :: u64
  jn_written :: u64
  jn_policy :: sync_policy
  jn_every :: u64
  jn_since :: u64

subsection \<open>System calls\<close>

text \<open>One answer of \<open>write\<close> or \<open>read\<close>: a number of bytes, \<open>EINTR\<close>, or another error.\<close>

datatype io = Moved nat | Interrupted | Failed

text \<open>
  The loop around \<open>write\<close>, on a file opened with \<open>O_APPEND\<close>: the result and the file. \<open>None\<close> when the system never
  answers again.
\<close>

fun writeAll :: "io list \<Rightarrow> u8 list \<Rightarrow> u8 list \<Rightarrow> (bool \<times> u8 list) option" where
  "writeAll ios [] file = Some (True, file)"
| "writeAll [] (b # bs) file = None"
| "writeAll (Failed # ios) (b # bs) file = Some (False, file)"
| "writeAll (Interrupted # ios) (b # bs) file = writeAll ios (b # bs) file"
| "writeAll (Moved n # ios) (b # bs) file =
     (if n = 0 then Some (False, file) else writeAll ios (drop n (b # bs)) (file @ take n (b # bs)))"

text \<open>
  The loop around \<open>read\<close>: the bytes read and what is left of the file, \<open>Some None\<close> for
  failure. \<open>Moved n\<close> moves at most what was asked for and what is there; nothing moved is the end of file.
\<close>

fun readAll :: "io list \<Rightarrow> nat \<Rightarrow> u8 list \<Rightarrow> u8 list \<Rightarrow> (u8 list \<times> u8 list) option option" where
  "readAll ios 0 got rest = Some (Some (got, rest))"
| "readAll [] (Suc k) got rest = None"
| "readAll (Failed # ios) (Suc k) got rest = Some None"
| "readAll (Interrupted # ios) (Suc k) got rest = readAll ios (Suc k) got rest"
| "readAll (Moved n # ios) (Suc k) got rest =
     (let m = min n (min (Suc k) (length rest))
      in if m = 0 then Some None else readAll ios (Suc k - m) (got @ take m rest) (drop m rest))"

subsection \<open>Construction\<close>

record jenv =
  je_open :: bool
  je_seek_end :: bool
  je_seek_set :: bool
  je_magic :: "io list"
  je_version :: "io list"
  je_seek_back :: bool
  je_header :: "io list"

definition header :: "u8 list" where
  "header = kMagic @ [kVersion]"

text \<open>\<open>file\<close> is what the file holds before; a new file is empty.\<close>

definition Journal :: "jenv \<Rightarrow> u8 list \<Rightarrow> u64 \<Rightarrow> (exn + journal) option" where
  "Journal v file queue_capacity =
     (case JournalRingBuffer queue_capacity of
        Inl e \<Rightarrow> Some (Inl e)
      | Inr ring \<Rightarrow>
          let j = \<lparr>jn_file = file, jn_synced = 0, jn_open = True, jn_running = True, jn_healthy = True,
                   jn_last_sequence = 0, jn_ring = ring, jn_queued = 0, jn_written = 0,
                   jn_policy = MANUAL, jn_every = 1, jn_since = 0\<rparr>
          in if queue_capacity = 0 then Some (Inl (Invalid_argument ''Journal: queue capacity must be > 0''))
             else if \<not> je_open v then Some (Inl (Runtime_error ''Journal: cannot open file''))
             else if \<not> je_seek_end v then Some (Inl (Runtime_error ''Journal: seek failed''))
             else if file \<noteq> [] then
               if length file < 5 then Some (Inl (Runtime_error ''Journal: truncated header''))
               else if \<not> je_seek_set v then Some (Inl (Runtime_error ''Journal: header seek failed''))
               else
                 (case readAll (je_magic v) 4 [] file of
                    None \<Rightarrow> None
                  | Some None \<Rightarrow> Some (Inl (Runtime_error ''Journal: cannot read header''))
                  | Some (Some (magic, rest)) \<Rightarrow>
                      (case readAll (je_version v) 1 [] rest of
                         None \<Rightarrow> None
                       | Some None \<Rightarrow> Some (Inl (Runtime_error ''Journal: cannot read header''))
                       | Some (Some (version, rest)) \<Rightarrow>
                           if magic \<noteq> kMagic \<or> version \<noteq> [kVersion]
                           then Some (Inl (Runtime_error ''Journal: incompatible header''))
                           else if \<not> je_seek_back v then Some (Inl (Runtime_error ''Journal: end seek failed''))
                           else Some (Inr j)))
             else
               (case writeAll (je_header v) header [] of
                  None \<Rightarrow> None
                | Some (ok, file') \<Rightarrow>
                    if ok then Some (Inr (j\<lparr>jn_file := file'\<rparr>))
                    else Some (Inl (Runtime_error ''Journal: header write failed''))))"

definition setSyncPolicy :: "sync_policy \<Rightarrow> u64 \<Rightarrow> journal \<Rightarrow> journal" where
  "setSyncPolicy policy n j = j\<lparr>jn_policy := policy, jn_every := (if n = 0 then 1 else n), jn_since := 0\<rparr>"

subsection \<open>The producer\<close>

definition failStop :: "journal \<Rightarrow> journal" where
  "failStop j = j\<lparr>jn_healthy := False, jn_running := False\<rparr>"

definition count_queued :: "journal \<Rightarrow> journal" where
  "count_queued j = j\<lparr>jn_queued := jn_queued j + 1\<rparr>"

definition enqueueSerialized :: "u8 list \<Rightarrow> journal \<Rightarrow> bool \<times> journal" where
  "enqueueSerialized data j =
     (if length data = 0 \<or> kMaxRecordSize < length data then (False, failStop j)
      else if \<not> jn_healthy j \<or> \<not> jn_running j then (False, j)
      else case tryPush (Some data) (jn_ring j) of (result, ring) \<Rightarrow>
        if result = Ok then (True, count_queued (j\<lparr>jn_ring := ring\<rparr>))
        else (False, failStop (j\<lparr>jn_ring := ring\<rparr>)))"

text \<open>
  The end of every branch of \<open>onEvent\<close>: length, sequence and command go in front of the payload, the checksum of everything
  behind it.
\<close>

definition seal :: "u32 \<Rightarrow> u64 \<Rightarrow> u8 \<Rightarrow> buf \<Rightarrow> buf" where
  "seal payload_length seq cmd ob =
     (let payload_end = snd ob;
          rec1 = fst (putU32BE payload_length (fst ob, 0));
          rec2 = fst (putU64BE seq (rec1, 4));
          rec3 = rec2[12 := cmd];
          checksum = crc32 (take payload_end rec3)
      in putU32BE checksum (rec3, payload_end))"

primrec type_byte :: "order_type \<Rightarrow> u8" where
  "type_byte MARKET = 0"
| "type_byte LIMIT = 1"
| "type_byte IOC = 2"
| "type_byte FOK = 3"

definition bool_byte :: "bool \<Rightarrow> u8" where
  "bool_byte b = (if b then 1 else 0)"

definition record_start :: buf where
  "record_start = (replicate kMaxRecordSize 0, 13)"

definition put_accepted :: "accepted_event \<Rightarrow> buf \<Rightarrow> buf" where
  "put_accepted e = fold (\<lambda>f. f)
     [putU64BE (oa_timestamp e), putU64BE (oa_orderId e), putU32BE (oa_symbolId e), putU32BE (oa_traderId e),
      putU8 (bool_byte (oa_isBuy e)), putI64BE (oa_priceTicks e), putU32BE (oa_quantity e),
      putU32BE (oa_remainingQuantity e), putU8 (type_byte (oa_orderType e)), putU64BE (oa_prioritySeq e)]"

definition put_cancelled :: "cancelled_event \<Rightarrow> buf \<Rightarrow> buf" where
  "put_cancelled e = fold (\<lambda>f. f) [putU64BE (oc_timestamp e), putU64BE (oc_orderId e)]"

definition put_trade :: "trade_event \<Rightarrow> buf \<Rightarrow> buf" where
  "put_trade e = fold (\<lambda>f. f)
     [putU64BE (te_timestamp e), putU64BE (te_restingOrderId e), putU64BE (te_aggressorOrderId e),
      putU32BE (te_symbolId e), putU32BE (te_traderId e), putU32BE (te_tradeQuantity e),
      putI64BE (te_tradePriceTicks e), putU8 (bool_byte (te_aggressorIsBuy e))]"

definition put_record :: "nat \<Rightarrow> u64 \<Rightarrow> u8 \<Rightarrow> buf \<Rightarrow> journal \<Rightarrow> journal" where
  "put_record kPayloadSize seq cmd ob j =
     (if snd ob \<noteq> 13 + kPayloadSize then failStop j
      else case seal (of_nat kPayloadSize) seq cmd ob of (record, crc_pos) \<Rightarrow>
        snd (enqueueSerialized (take crc_pos record) j))"

definition onEvent :: "market_event \<Rightarrow> journal \<Rightarrow> journal" where
  "onEvent event j =
     (case event of
        OrderAcceptedEvent e \<Rightarrow> put_record 50 (oa_sequence e) NEW_ORDER (put_accepted e record_start) j
      | OrderCancelledEvent e \<Rightarrow> put_record 16 (oc_sequence e) CANCEL_ORDER (put_cancelled e record_start) j
      | TradeEvent e \<Rightarrow> put_record 45 (te_sequence e) FILL (put_trade e record_start) j
      | OrderRejectedEvent e \<Rightarrow> j)"

subsection \<open>The writer\<close>

definition validateSerialized :: "u8 list \<Rightarrow> bool" where
  "validateSerialized data =
     (if length data < kRecordOverhead then False
      else if kMaxRecordSize < length data then False
      else
        let payload_length = unat (readU32BE data)
        in if kMaxPayloadSize < payload_length then False
           else kRecordOverhead + payload_length = length data)"

text \<open>\<open>sync_ok\<close> is whether \<open>fdatasync\<close> succeeds.\<close>

definition doFdatasync :: "bool \<Rightarrow> journal \<Rightarrow> bool \<times> journal" where
  "doFdatasync sync_ok j =
     (if \<not> jn_open j then (False, j)
      else if \<not> sync_ok then (False, j)
      else (True, j\<lparr>jn_synced := length (jn_file j)\<rparr>))"

definition should_sync :: "journal \<Rightarrow> bool" where
  "should_sync j =
     (if jn_policy j = PER_RECORD then True
      else if jn_policy j = PER_N_RECORDS then jn_every j \<le> jn_since j
      else False)"

definition writeSerialized :: "io list \<Rightarrow> bool \<Rightarrow> u8 list \<Rightarrow> journal \<Rightarrow> (bool \<times> journal) option" where
  "writeSerialized ios sync_ok data j =
     (if \<not> validateSerialized data then Some (False, j)
      else if \<not> jn_open j then Some (False, j)
      else case writeAll ios data (jn_file j) of
        None \<Rightarrow> None
      | Some (ok, file) \<Rightarrow>
          let j1 = j\<lparr>jn_file := file\<rparr> in
          if \<not> ok then Some (False, j1)
          else
            let j2 = j1\<lparr>jn_since := jn_since j1 + 1\<rparr> in
            if should_sync j2 then
              (case doFdatasync sync_ok j2 of (ok, j3) \<Rightarrow>
                 if \<not> ok then Some (False, j3) else Some (True, j3\<lparr>jn_since := 0\<rparr>))
            else Some (True, j2))"

text \<open>
  One turn of the writer's loop, cut where other threads can come between: waiting for work, popping a
  record, writing it, counting it.
\<close>

datatype writer_pc = W_Wait | W_Pop | W_Popped "u8 list" | W_Written u64 | W_Exit

definition writer_wake :: "journal \<Rightarrow> writer_pc option" where
  "writer_wake j =
     (if jr_empty (jn_ring j) \<and> jn_running j then None
      else if jr_empty (jn_ring j) \<and> \<not> jn_running j then Some W_Exit
      else Some W_Pop)"

definition writer_pop :: "journal \<Rightarrow> writer_pc \<times> journal" where
  "writer_pop j =
     (case tryPop (jn_ring j) of
        (None, ring) \<Rightarrow> (W_Exit, failStop (j\<lparr>jn_ring := ring\<rparr>))
      | (Some bytes, ring) \<Rightarrow> (W_Popped bytes, j\<lparr>jn_ring := ring\<rparr>))"

definition record_sequence :: "u8 list \<Rightarrow> u64" where
  "record_sequence data = fold (\<lambda>i s. push_bit 8 s OR ucast (data ! (4 + i))) [0, 1, 2, 3, 4, 5, 6, 7] 0"

definition writer_write :: "io list \<Rightarrow> bool \<Rightarrow> u8 list \<Rightarrow> journal \<Rightarrow> (writer_pc \<times> journal) option" where
  "writer_write ios sync_ok data j =
     (if length data < kRecordOverhead then Some (W_Exit, failStop j)
      else if \<not> validateSerialized data then Some (W_Exit, failStop j)
      else
        let sequence = record_sequence data in
        case writeSerialized ios sync_ok data j of
          None \<Rightarrow> None
        | Some (ok, j') \<Rightarrow> if \<not> ok then Some (W_Exit, failStop j') else Some (W_Written sequence, j'))"

definition writer_count :: "u64 \<Rightarrow> journal \<Rightarrow> journal" where
  "writer_count sequence j = j\<lparr>jn_written := jn_written j + 1, jn_last_sequence := sequence\<rparr>"

subsection \<open>Flushing\<close>

text \<open>\<open>None\<close> while the condition variable's predicate is false: the caller waits.\<close>

definition waitUntilWritten :: "u64 \<Rightarrow> journal \<Rightarrow> bool option" where
  "waitUntilWritten target j =
     (if target \<le> jn_written j \<or> \<not> jn_healthy j \<or> \<not> jn_running j
      then Some (jn_healthy j \<and> target \<le> jn_written j) else None)"

text \<open>\<open>Inl\<close> the answer, or \<open>Inr\<close> the count of records to wait for.\<close>

definition flush_begin :: "journal \<Rightarrow> bool + u64" where
  "flush_begin j =
     (let target = jn_queued j
      in if target \<le> jn_written j then Inl (jn_healthy j)
         else if \<not> jn_healthy j then Inl False
         else Inr target)"

text \<open>\<open>sync\<close> after its \<open>flush\<close> returned.\<close>

definition sync_end :: "bool \<Rightarrow> bool \<Rightarrow> journal \<Rightarrow> bool \<times> journal" where
  "sync_end flushed sync_ok j =
     (if \<not> flushed then (False, j)
      else if \<not> jn_open j then (False, j)
      else case doFdatasync sync_ok j of (ok, j') \<Rightarrow>
        if \<not> ok then (False, j'\<lparr>jn_healthy := False\<rparr>) else (True, j'\<lparr>jn_since := 0\<rparr>))"

text \<open>The destructor: it stops the writer, joins it, and closes the file after a last \<open>fdatasync\<close>.\<close>

definition stop_writer :: "journal \<Rightarrow> journal" where
  "stop_writer j = j\<lparr>jn_running := False\<rparr>"

definition close_file :: "bool \<Rightarrow> journal \<Rightarrow> journal" where
  "close_file sync_ok j =
     (if jn_open j then (if sync_ok then j\<lparr>jn_synced := length (jn_file j)\<rparr> else j)\<lparr>jn_open := False\<rparr> else j)"

section \<open>Lemmas\<close>

subsection \<open>Records\<close>

text \<open>A record as bytes: length, sequence, command, payload, checksum of all before it.\<close>

definition body :: "u64 \<Rightarrow> u8 \<Rightarrow> u8 list \<Rightarrow> u8 list" where
  "body seq cmd payload = u32_bytes (of_nat (length payload)) @ u64_bytes seq @ cmd # payload"

definition frame :: "u64 \<Rightarrow> u8 \<Rightarrow> u8 list \<Rightarrow> u8 list" where
  "frame seq cmd payload = body seq cmd payload @ u32_bytes (crc32 (body seq cmd payload))"

definition accepted_payload :: "accepted_event \<Rightarrow> u8 list" where
  "accepted_payload e = u64_bytes (oa_timestamp e) @ u64_bytes (oa_orderId e) @ u32_bytes (oa_symbolId e) @
     u32_bytes (oa_traderId e) @ bool_byte (oa_isBuy e) # u64_bytes (word_of_int (oa_priceTicks e)) @
     u32_bytes (oa_quantity e) @ u32_bytes (oa_remainingQuantity e) @ type_byte (oa_orderType e) #
     u64_bytes (oa_prioritySeq e)"

definition cancelled_payload :: "cancelled_event \<Rightarrow> u8 list" where
  "cancelled_payload e = u64_bytes (oc_timestamp e) @ u64_bytes (oc_orderId e)"

definition trade_payload :: "trade_event \<Rightarrow> u8 list" where
  "trade_payload e = u64_bytes (te_timestamp e) @ u64_bytes (te_restingOrderId e) @ u64_bytes (te_aggressorOrderId e) @
     u32_bytes (te_symbolId e) @ u32_bytes (te_traderId e) @ u32_bytes (te_tradeQuantity e) @
     u64_bytes (word_of_int (te_tradePriceTicks e)) @ [bool_byte (te_aggressorIsBuy e)]"

primrec serialize :: "market_event \<Rightarrow> u8 list option" where
  "serialize (OrderAcceptedEvent e) = Some (frame (oa_sequence e) NEW_ORDER (accepted_payload e))"
| "serialize (TradeEvent e) = Some (frame (te_sequence e) FILL (trade_payload e))"
| "serialize (OrderCancelledEvent e) = Some (frame (oc_sequence e) CANCEL_ORDER (cancelled_payload e))"
| "serialize (OrderRejectedEvent e) = None"

lemma length_body [simp]: "length (body seq cmd payload) = 13 + length payload"
  by (simp add: body_def)

lemma length_frame [simp]: "length (frame seq cmd payload) = 17 + length payload"
  by (simp add: frame_def)

lemma length_payloads [simp]:
  "length (accepted_payload e) = 50" "length (cancelled_payload c) = 16" "length (trade_payload t) = 45"
  by (simp_all add: accepted_payload_def cancelled_payload_def trade_payload_def)

lemma emits_put:
  "emits (put_accepted e) (accepted_payload e)" "emits (put_cancelled c) (cancelled_payload c)" "emits (put_trade t) (trade_payload t)"
proof -
  have "emits (put_accepted e) (concat [u64_bytes (oa_timestamp e), u64_bytes (oa_orderId e), u32_bytes (oa_symbolId e),
     u32_bytes (oa_traderId e), [bool_byte (oa_isBuy e)], u64_bytes (word_of_int (oa_priceTicks e)),
     u32_bytes (oa_quantity e), u32_bytes (oa_remainingQuantity e), [type_byte (oa_orderType e)],
     u64_bytes (oa_prioritySeq e)])"
    unfolding put_accepted_def by (rule emits_fold) (simp add: emits_intros)
  then show "emits (put_accepted e) (accepted_payload e)" by (simp add: accepted_payload_def)
  have "emits (put_cancelled c) (concat [u64_bytes (oc_timestamp c), u64_bytes (oc_orderId c)])"
    unfolding put_cancelled_def by (rule emits_fold) (simp add: emits_intros)
  then show "emits (put_cancelled c) (cancelled_payload c)" by (simp add: cancelled_payload_def)
  have "emits (put_trade t) (concat [u64_bytes (te_timestamp t), u64_bytes (te_restingOrderId t), u64_bytes (te_aggressorOrderId t),
     u32_bytes (te_symbolId t), u32_bytes (te_traderId t), u32_bytes (te_tradeQuantity t),
     u64_bytes (word_of_int (te_tradePriceTicks t)), [bool_byte (te_aggressorIsBuy t)]])"
    unfolding put_trade_def by (rule emits_fold) (simp add: emits_intros)
  then show "emits (put_trade t) (trade_payload t)" by (simp add: trade_payload_def)
qed

text \<open>Filling in the header and the checksum around the payload gives the record.\<close>

lemma seal_frame:
  assumes p: "length payload \<le> kMaxPayloadSize"
  shows "\<exists>record. seal (of_nat (length payload)) seq cmd (write_at 13 payload (replicate kMaxRecordSize 0), 13 + length payload) =
      (record, 17 + length payload) \<and> take (17 + length payload) record = frame seq cmd payload"
proof -
  let ?n = "length payload" and ?r0 = "write_at 13 payload (replicate kMaxRecordSize 0)"
  define r1 where "r1 = write_at 0 (u32_bytes (of_nat ?n)) ?r0"
  define r2 where "r2 = write_at 4 (u64_bytes seq) r1"
  define r3 where "r3 = write_at 12 [cmd] r2"
  have len: "length ?r0 = 1088" "length r1 = 1088" "length r2 = 1088" "length r3 = 1088"
    using p by (simp_all add: r1_def r2_def r3_def)
  have "r2 = write_at 0 (u32_bytes (of_nat ?n) @ u64_bytes seq) ?r0"
    using write_at_append [of 0 "u32_bytes (of_nat ?n)" "u64_bytes seq" ?r0] len by (simp add: r1_def r2_def)
  then have "r3 = write_at 0 ((u32_bytes (of_nat ?n) @ u64_bytes seq) @ [cmd]) ?r0"
    using write_at_append [of 0 "u32_bytes (of_nat ?n) @ u64_bytes seq" "[cmd]" ?r0] len by (simp add: r3_def)
  then have t3: "take (13 + ?n) r3 = body seq cmd payload"
    by (simp add: write_at_def body_def)
  have e1: "putU32BE (of_nat ?n) (?r0, 0) = (r1, 4)"
    using emitsD [OF emits_putU32BE, of 0 "of_nat ?n" ?r0] len by (simp add: r1_def)
  have e2: "putU64BE seq (r1, 4) = (r2, 12)"
    using emitsD [OF emits_putU64BE, of 4 seq r1] len by (simp add: r2_def)
  have e3: "r2[12 := cmd] = r3"
    using len by (simp add: r3_def write_at_def upd_conv_take_nth_drop)
  have e4: "putU32BE c (r3, 13 + ?n) = (write_at (13 + ?n) (u32_bytes c) r3, 17 + ?n)" for c
    using emitsD [OF emits_putU32BE, of "13 + ?n" c r3] len p by simp
  have "take (17 + ?n) (write_at (13 + ?n) (u32_bytes c) r3) = take (13 + ?n) r3 @ u32_bytes c" for c
    using take_write_at [of "13 + ?n" "u32_bytes c" r3] len p by (simp add: add.commute)
  then show ?thesis by (simp add: seal_def Let_def e1 e2 e3 e4 t3 frame_def)
qed

lemma put_record_frame:
  assumes "emits put payload" "length payload \<le> kMaxPayloadSize"
  shows "put_record (length payload) seq cmd (put record_start) j = snd (enqueueSerialized (frame seq cmd payload) j)"
proof -
  have "put record_start = (write_at 13 payload (replicate kMaxRecordSize 0), 13 + length payload)"
    using emitsD [OF assms(1), of 13 "replicate kMaxRecordSize 0"] assms(2) by (simp add: record_start_def)
  then show ?thesis using seal_frame [OF assms(2), of seq cmd] by (auto simp: put_record_def)
qed

text \<open>The producer hands exactly the serialised event to the ring.\<close>

lemma onEvent_serialize:
  "onEvent ev j = (case serialize ev of None \<Rightarrow> j | Some bytes \<Rightarrow> snd (enqueueSerialized bytes j))"
  using put_record_frame [OF emits_put(1)] put_record_frame [OF emits_put(2)] put_record_frame [OF emits_put(3)]
  by (cases ev) (simp_all add: onEvent_def)

lemma validate_frame: "length payload \<le> kMaxPayloadSize \<Longrightarrow> validateSerialized (frame seq cmd payload)"
  by (simp add: validateSerialized_def frame_def body_def unat_of_nat)

lemma serialize_valid: "serialize ev = Some bytes \<Longrightarrow> validateSerialized bytes"
  by (cases ev) (auto intro: validate_frame)

lemma valid_length: "validateSerialized bytes \<Longrightarrow> kRecordOverhead \<le> length bytes \<and> length bytes \<le> kMaxRecordSize"
  by (auto simp: validateSerialized_def split: if_splits)

lemma record_sequence_frame: "record_sequence (frame seq cmd payload) = seq"
proof -
  have "record_sequence data = readU64BE (drop 4 data)" if "12 \<le> length data" for data
    using that by (simp add: record_sequence_def readU64BE_def add.commute)
  then show ?thesis by (simp add: frame_def body_def)
qed

lemma serialize_sequence: "serialize ev = Some bytes \<Longrightarrow> record_sequence bytes = ev_sequence ev"
  by (cases ev) (auto simp: record_sequence_frame)

text \<open>The payload an event is laid out in: nothing for a rejection, which is not journaled.\<close>

primrec payload_size :: "market_event \<Rightarrow> nat option" where
  "payload_size (OrderAcceptedEvent e) = Some 50"
| "payload_size (TradeEvent e) = Some 45"
| "payload_size (OrderCancelledEvent e) = Some 16"
| "payload_size (OrderRejectedEvent e) = None"

text \<open>
  C20. Every event has one record layout. A rejection leaves the journal as it is; any other event is handed
  to the ring as a record whose length is the fixed payload size of its kind and 17 bytes of header and checksum, whose
  length field, sequence field and checksum say so, that \<open>validateSerialized\<close> accepts and that the ring never
  refuses as invalid.
\<close>

theorem event_record_well_formed:
  "case payload_size ev of
     None \<Rightarrow> onEvent ev j = j
   | Some n \<Rightarrow> \<exists>bytes. onEvent ev j = snd (enqueueSerialized bytes j) \<and> length bytes = n + kRecordOverhead \<and>
       unat (readU32BE bytes) = n \<and> record_sequence bytes = ev_sequence ev \<and>
       readU32BE (drop (13 + n) bytes) = crc32 (take (13 + n) bytes) \<and>
       validateSerialized bytes \<and> fst (tryPush (Some bytes) (jn_ring j)) \<noteq> Invalid"
proof -
  have *: "\<exists>bytes. onEvent ev j = snd (enqueueSerialized bytes j) \<and> length bytes = n + kRecordOverhead \<and>
       unat (readU32BE bytes) = n \<and> record_sequence bytes = ev_sequence ev \<and>
       readU32BE (drop (13 + n) bytes) = crc32 (take (13 + n) bytes) \<and>
       validateSerialized bytes \<and> fst (tryPush (Some bytes) (jn_ring j)) \<noteq> Invalid"
    if s: "serialize ev = Some (frame seq cmd payload)" and n: "n = length payload" "n \<le> 50" for seq cmd payload n
  proof (intro exI [of _ "frame seq cmd payload"] conjI)
    let ?b = "frame seq cmd payload"
    show "onEvent ev j = snd (enqueueSerialized ?b j)" by (simp add: onEvent_serialize s)
    show "length ?b = n + kRecordOverhead" by (simp add: n)
    show "unat (readU32BE ?b) = n" using n by (simp add: frame_def body_def unat_of_nat)
    show "record_sequence ?b = ev_sequence ev" by (rule serialize_sequence [OF s])
    show "readU32BE (drop (13 + n) ?b) = crc32 (take (13 + n) ?b)"
      using readU32BE_bytes [where bs = "[]"] by (simp add: frame_def n)
    show "validateSerialized ?b" by (rule serialize_valid [OF s])
    show "fst (tryPush (Some ?b) (jn_ring j)) \<noteq> Invalid" using n by (auto simp: tryPush_def frame_def body_def Let_def)
  qed
  show ?thesis
  proof (cases ev)
    case (OrderAcceptedEvent e)
    then show ?thesis using * [of _ _ "accepted_payload e" 50] by simp
  next
    case (TradeEvent e)
    then show ?thesis using * [of _ _ "trade_payload e" 45] by simp
  next
    case (OrderCancelledEvent e)
    then show ?thesis using * [of _ _ "cancelled_payload e" 16] by simp
  next
    case (OrderRejectedEvent e)
    then show ?thesis by (simp add: onEvent_serialize)
  qed
qed

subsection \<open>System calls\<close>

text \<open>A write that reports success appended all; one that fails appended a proper prefix.\<close>

lemma writeAll_result:
  "writeAll ios data fl = Some (ok, fl') \<Longrightarrow>
   (ok \<longrightarrow> fl' = fl @ data) \<and> (\<not> ok \<longrightarrow> (\<exists>xs y ys. data = xs @ y # ys \<and> fl' = fl @ xs))"
proof (induction ios data fl rule: writeAll.induct)
  case (5 n ios b bs fl)
  show ?case
  proof (cases "n = 0")
    case True
    then show ?thesis using 5(2) by (auto intro: exI [of _ "[]"])
  next
    case False
    then have IH: "(ok \<longrightarrow> fl' = (fl @ take n (b # bs)) @ drop n (b # bs)) \<and>
      (\<not> ok \<longrightarrow> (\<exists>xs y ys. drop n (b # bs) = xs @ y # ys \<and> fl' = (fl @ take n (b # bs)) @ xs))"
      using 5 by simp
    show ?thesis
    proof (cases ok)
      case True
      then show ?thesis using IH by simp
    next
      case F: False
      then obtain xs y ys where "drop n (b # bs) = xs @ y # ys" "fl' = fl @ take n (b # bs) @ xs" using IH by auto
      then have "b # bs = (take n (b # bs) @ xs) @ y # ys" by (metis append_take_drop_id append.assoc)
      then show ?thesis using F \<open>fl' = _\<close> by blast
    qed
  qed
qed (auto split: if_splits intro: exI [of _ "[]"])

text \<open>It returns as soon as the system moves a byte often enough or reports an error.\<close>

lemma writeAll_returns:
  "length data \<le> length (filter (\<lambda>a. a \<noteq> Interrupted) ios) \<Longrightarrow> \<exists>r. writeAll ios data fl = Some r"
proof (induction ios data fl rule: writeAll.induct)
  case (5 n ios b bs fl)
  have "length (drop n (b # bs)) \<le> length (filter (\<lambda>a. a \<noteq> Interrupted) ios)" if "n \<noteq> 0"
    using that 5(2) by simp
  then show ?case using 5(1) by (cases "n = 0") auto
qed auto

end
