(* ===== verification/Journal_Threads.thy ===== *)
theory Journal_Threads
  imports Journal_File "HOL-Library.Sublist"
begin

text \<open>
  The journal with its two threads: the engine's thread that serialises and enqueues, and the writer. A step
  is what one thread does between two points where the other can come in: the producer loads the health
  flags, pushes, counts; the writer wakes, pops, writes, counts. \<open>js_accepted\<close> and \<open>js_done\<close> record what the
  ring took and what was written; no step reads them.
\<close>

datatype producer_pc = P_Idle | P_Checked "u8 list" | P_Pushed

record jsys =
  js_journal :: journal
  js_prod :: producer_pc
  js_writer :: writer_pc
  js_accepted :: "u8 list list"
  js_done :: "u8 list list"

inductive jstep :: "jsys \<Rightarrow> jsys \<Rightarrow> bool" where
  check: "js_prod s = P_Idle \<Longrightarrow> serialize ev = Some bytes \<Longrightarrow> jn_healthy (js_journal s) \<Longrightarrow> jn_running (js_journal s) \<Longrightarrow>
    jstep s (s\<lparr>js_prod := P_Checked bytes\<rparr>)"
| push: "js_prod s = P_Checked bytes \<Longrightarrow> tryPush (Some bytes) (jn_ring (js_journal s)) = (Ok, ring) \<Longrightarrow>
    jstep s (s\<lparr>js_journal := (js_journal s)\<lparr>jn_ring := ring\<rparr>, js_prod := P_Pushed, js_accepted := js_accepted s @ [bytes]\<rparr>)"
| push_failed: "js_prod s = P_Checked bytes \<Longrightarrow> tryPush (Some bytes) (jn_ring (js_journal s)) = (res, ring) \<Longrightarrow> res \<noteq> Ok \<Longrightarrow>
    jstep s (s\<lparr>js_journal := failStop ((js_journal s)\<lparr>jn_ring := ring\<rparr>), js_prod := P_Idle\<rparr>)"
| count: "js_prod s = P_Pushed \<Longrightarrow> jstep s (s\<lparr>js_journal := count_queued (js_journal s), js_prod := P_Idle\<rparr>)"
| wake: "js_writer s = W_Wait \<Longrightarrow> writer_wake (js_journal s) = Some pc \<Longrightarrow> jstep s (s\<lparr>js_writer := pc\<rparr>)"
| pop: "js_writer s = W_Pop \<Longrightarrow> writer_pop (js_journal s) = (pc, j) \<Longrightarrow> jstep s (s\<lparr>js_journal := j, js_writer := pc\<rparr>)"
| write_ok: "js_writer s = W_Popped bytes \<Longrightarrow> writer_write ios sync_ok bytes (js_journal s) = Some (W_Written seq, j) \<Longrightarrow>
    jstep s (s\<lparr>js_journal := j, js_writer := W_Written seq, js_done := js_done s @ [bytes]\<rparr>)"
| write_failed: "js_writer s = W_Popped bytes \<Longrightarrow> writer_write ios sync_ok bytes (js_journal s) = Some (W_Exit, j) \<Longrightarrow>
    jstep s (s\<lparr>js_journal := j, js_writer := W_Exit\<rparr>)"
| written: "js_writer s = W_Written seq \<Longrightarrow>
    jstep s (s\<lparr>js_journal := writer_count seq (js_journal s), js_writer := W_Wait\<rparr>)"
| policy: "jstep s (s\<lparr>js_journal := setSyncPolicy pol n (js_journal s)\<rparr>)"
| sync: "sync_end flushed sync_ok (js_journal s) = (ok, j) \<Longrightarrow> jstep s (s\<lparr>js_journal := j\<rparr>)"
| stop: "jstep s (s\<lparr>js_journal := stop_writer (js_journal s)\<rparr>)"
| close: "js_writer s = W_Exit \<Longrightarrow> jstep s (s\<lparr>js_journal := close_file sync_ok (js_journal s)\<rparr>)"

inductive_cases jstepE: "jstep s s'"

definition jstart :: "journal \<Rightarrow> jsys" where
  "jstart j = \<lparr>js_journal = j, js_prod = P_Idle, js_writer = W_Wait, js_accepted = [], js_done = []\<rparr>"

text \<open>Without interference the producer's three steps are \<open>enqueueSerialized\<close>.\<close>

lemma enqueue_is_steps:
  assumes "js_prod s = P_Idle" "serialize ev = Some bytes" "enqueueSerialized bytes (js_journal s) = (True, j)"
  shows "\<exists>acc. jstep\<^sup>*\<^sup>* s (s\<lparr>js_journal := j, js_prod := P_Idle, js_accepted := acc\<rparr>)"
proof -
  obtain ring where r: "jn_healthy (js_journal s)" "jn_running (js_journal s)"
    "tryPush (Some bytes) (jn_ring (js_journal s)) = (Ok, ring)" "j = count_queued ((js_journal s)\<lparr>jn_ring := ring\<rparr>)"
    using assms(3) by (auto simp: enqueueSerialized_def split: if_splits prod.splits)
  let ?s1 = "s\<lparr>js_prod := P_Checked bytes\<rparr>"
  let ?s2 = "?s1\<lparr>js_journal := (js_journal ?s1)\<lparr>jn_ring := ring\<rparr>, js_prod := P_Pushed, js_accepted := js_accepted ?s1 @ [bytes]\<rparr>"
  have "jstep s ?s1" by (rule jstep.check) (use assms r in simp_all)
  moreover have "jstep ?s1 ?s2" by (rule jstep.push) (use r in simp_all)
  moreover have "jstep ?s2 (?s2\<lparr>js_journal := count_queued (js_journal ?s2), js_prod := P_Idle\<rparr>)" by (rule jstep.count) simp
  ultimately have "jstep\<^sup>*\<^sup>* s (?s2\<lparr>js_journal := count_queued (js_journal ?s2), js_prod := P_Idle\<rparr>)"
    by (meson converse_rtranclp_into_rtranclp r_into_rtranclp)
  then show ?thesis using r(4) by (intro exI [of _ "js_accepted s @ [bytes]"]) (cases s, simp)
qed

subsection \<open>The invariant\<close>

primrec popped :: "writer_pc \<Rightarrow> u8 list list" where
  "popped W_Wait = []"
| "popped W_Pop = []"
| "popped (W_Popped b) = [b]"
| "popped (W_Written q) = []"
| "popped W_Exit = []"

primrec uncounted :: "writer_pc \<Rightarrow> nat" where
  "uncounted W_Wait = 0"
| "uncounted W_Pop = 0"
| "uncounted (W_Popped b) = 0"
| "uncounted (W_Written q) = 1"
| "uncounted W_Exit = 0"

text \<open>
  Of the accepted records some are in the file, one may be in the writer's hands, the rest are in the ring. A record
  whose write failed leaves a torn prefix at the end of the file, and the writer has stopped.
\<close>

definition accounted :: "u8 list \<Rightarrow> u8 list list \<Rightarrow> u8 list \<Rightarrow> jsys \<Rightarrow> bool" where
  "accounted base lost torn s \<longleftrightarrow>
     jn_file (js_journal s) = base @ concat (js_done s) @ torn \<and>
     js_accepted s = js_done s @ popped (js_writer s) @ lost @ jr_contents (jn_ring (js_journal s)) \<and>
     prefix torn (concat lost) \<and> (lost \<noteq> [] \<longrightarrow> js_writer s = W_Exit \<and> \<not> jn_healthy (js_journal s))"

definition journaled :: "u8 list \<Rightarrow> bool" where
  "journaled bytes \<longleftrightarrow> (\<exists>ev. serialize ev = Some bytes)"

lemma journaled_valid: "journaled bytes \<Longrightarrow> validateSerialized bytes"
  by (auto simp: journaled_def intro: serialize_valid)

definition jinv :: "u8 list \<Rightarrow> jsys \<Rightarrow> bool" where
  "jinv base s \<longleftrightarrow> jr_wf (jn_ring (js_journal s)) \<and> (\<forall>b \<in> set (js_accepted s). journaled b) \<and>
     (\<forall>b. js_prod s = P_Checked b \<longrightarrow> journaled b) \<and>
     (js_writer s = W_Pop \<longrightarrow> jr_contents (jn_ring (js_journal s)) \<noteq> []) \<and>
     (\<exists>lost torn. accounted base lost torn s) \<and>
     uncounted (js_writer s) \<le> length (js_done s) \<and>
     jn_written (js_journal s) = of_nat (length (js_done s) - uncounted (js_writer s)) \<and>
     (js_prod s = P_Pushed \<longrightarrow> js_accepted s \<noteq> []) \<and>
     jn_queued (js_journal s) = of_nat (length (js_accepted s) - (if js_prod s = P_Pushed then 1 else 0)) \<and>
     jn_synced (js_journal s) \<le> length (jn_file (js_journal s)) \<and>
     (js_writer s \<noteq> W_Exit \<longrightarrow> jn_open (js_journal s))"

lemma jinvI:
  assumes "jr_wf (jn_ring (js_journal s))" "\<forall>b \<in> set (js_accepted s). journaled b"
    "\<forall>b. js_prod s = P_Checked b \<longrightarrow> journaled b"
    "js_writer s = W_Pop \<longrightarrow> jr_contents (jn_ring (js_journal s)) \<noteq> []" "accounted base lost torn s"
    "uncounted (js_writer s) \<le> length (js_done s)"
    "jn_written (js_journal s) = of_nat (length (js_done s) - uncounted (js_writer s))"
    "js_prod s = P_Pushed \<longrightarrow> js_accepted s \<noteq> []"
    "jn_queued (js_journal s) = of_nat (length (js_accepted s) - (if js_prod s = P_Pushed then 1 else 0))"
    "jn_synced (js_journal s) \<le> length (jn_file (js_journal s))"
    "js_writer s \<noteq> W_Exit \<longrightarrow> jn_open (js_journal s)"
  shows "jinv base s"
  using assms unfolding jinv_def by blast

lemma tryPush_Ok:
  assumes "tryPush (Some bytes) ring = (Ok, ring')" "jr_wf ring" "validateSerialized bytes"
  shows "jr_wf ring' \<and> jr_contents ring' = jr_contents ring @ [bytes]"
proof -
  have b: "bytes \<noteq> []" "length bytes \<le> kMaxRecordSize" using valid_length [OF assms(3)] by auto
  have "\<not> jr_capacity ring \<le> jr_head ring - jr_tail ring"
    using assms(1) by (auto simp: tryPush_def split: if_splits)
  then show ?thesis using tryPush_ok [OF assms(2) b] assms(1) by (metis prod.inject)
qed

lemma tryPush_not_Ok: "tryPush (Some bytes) ring = (res, ring') \<Longrightarrow> res \<noteq> Ok \<Longrightarrow> ring' = ring"
  by (auto simp: tryPush_def Let_def split: if_splits)

lemma jr_empty_contents: "jr_empty ring \<longleftrightarrow> jr_contents ring = []"
  by (auto simp: jr_empty_def jr_contents_def jr_window_def ring_list_def unat_eq_zero)

lemma jinvD:
  assumes "jinv base s"
  obtains lost torn where "accounted base lost torn s"
  using assms unfolding jinv_def by blast

text \<open>What the writer's call does to the file, the ring and the counters.\<close>

lemma writer_write_effect:
  assumes "writer_write ios sync_ok bytes j = Some (pc, j')" "validateSerialized bytes"
  shows "jn_ring j' = jn_ring j" "jn_written j' = jn_written j" "jn_queued j' = jn_queued j"
    "pc = W_Exit \<and> \<not> jn_healthy j' \<or> pc = W_Written (record_sequence bytes) \<and> jn_file j' = jn_file j @ bytes \<and> jn_healthy j' = jn_healthy j"
    "\<exists>xs. prefix xs bytes \<and> jn_file j' = jn_file j @ xs"
    "jn_synced j \<le> length (jn_file j) \<Longrightarrow> jn_synced j' \<le> length (jn_file j')"
    "jn_synced j \<le> length (jn_file j) \<Longrightarrow> jn_synced j \<le> jn_synced j'" "jn_open j' = jn_open j"
proof -
  have len: "\<not> length bytes < 17" using valid_length [OF assms(2)] by simp
  show "jn_ring j' = jn_ring j" "jn_written j' = jn_written j" "jn_queued j' = jn_queued j"
    "pc = W_Exit \<and> \<not> jn_healthy j' \<or> pc = W_Written (record_sequence bytes) \<and> jn_file j' = jn_file j @ bytes \<and> jn_healthy j' = jn_healthy j"
    "\<exists>xs. prefix xs bytes \<and> jn_file j' = jn_file j @ xs"
    "jn_synced j \<le> length (jn_file j) \<Longrightarrow> jn_synced j' \<le> length (jn_file j')"
    "jn_synced j \<le> length (jn_file j) \<Longrightarrow> jn_synced j \<le> jn_synced j'" "jn_open j' = jn_open j"
    using assms len
    by (auto simp: writer_write_def writeSerialized_def doFdatasync_def failStop_def Let_def prefix_def
        split: if_splits option.splits prod.splits dest!: writeAll_result)
qed

lemma jinv_push:
  assumes I: "jinv base s" and c: "js_prod s = P_Checked bytes" and p: "tryPush (Some bytes) (jn_ring (js_journal s)) = (Ok, ring)"
  shows "jinv base (s\<lparr>js_journal := (js_journal s)\<lparr>jn_ring := ring\<rparr>, js_prod := P_Pushed, js_accepted := js_accepted s @ [bytes]\<rparr>)"
proof -
  obtain lost torn where a: "accounted base lost torn s" using I by (rule jinvD)
  have g: "journaled bytes" using I c by (simp add: jinv_def)
  then have v: "validateSerialized bytes" by (rule journaled_valid)
  have r: "jr_wf ring" "jr_contents ring = jr_contents (jn_ring (js_journal s)) @ [bytes]"
    using tryPush_Ok [OF p _ v] I by (simp_all add: jinv_def)
  show ?thesis
    by (rule jinvI [where lost = lost and torn = torn]) (use I c g r a in \<open>auto simp: jinv_def accounted_def\<close>)
qed

lemma jinv_pop:
  assumes I: "jinv base s" and w: "js_writer s = W_Pop" and p: "writer_pop (js_journal s) = (pc, j)"
  shows "jinv base (s\<lparr>js_journal := j, js_writer := pc\<rparr>)"
proof -
  obtain lost torn where a: "accounted base lost torn s" using I by (rule jinvD)
  obtain x xs where c: "jr_contents (jn_ring (js_journal s)) = x # xs"
    using I w by (auto simp: jinv_def neq_Nil_conv)
  obtain ring where r: "tryPop (jn_ring (js_journal s)) = (Some x, ring)" "jr_wf ring" "jr_contents ring = xs"
    using tryPop_ok [OF _ c] I by (auto simp: jinv_def)
  have e: "pc = W_Popped x" "j = (js_journal s)\<lparr>jn_ring := ring\<rparr>" using p r(1) by (auto simp: writer_pop_def)
  show ?thesis
    by (rule jinvI [where lost = lost and torn = torn]) (use I a r w c e in \<open>auto simp: jinv_def accounted_def\<close>)
qed

lemma jinv_write:
  assumes I: "jinv base s" and w: "js_writer s = W_Popped bytes" and p: "writer_write ios sync_ok bytes (js_journal s) = Some (pc, j)"
  shows "pc = W_Exit \<Longrightarrow> jinv base (s\<lparr>js_journal := j, js_writer := W_Exit\<rparr>)"
    and "pc = W_Written q \<Longrightarrow> jinv base (s\<lparr>js_journal := j, js_writer := W_Written q, js_done := js_done s @ [bytes]\<rparr>)"
proof -
  obtain lost torn where a: "accounted base lost torn s" using I by (rule jinvD)
  have n: "lost = []" "torn = []" using a w by (auto simp: accounted_def)
  have v: "validateSerialized bytes" using I a w by (intro journaled_valid) (auto simp: jinv_def accounted_def)
  note E = writer_write_effect [OF p v]
  obtain xs where xs: "prefix xs bytes" "jn_file j = jn_file (js_journal s) @ xs" using E(5) by blast
  show "jinv base (s\<lparr>js_journal := j, js_writer := W_Exit\<rparr>)" if "pc = W_Exit"
    by (rule jinvI [where lost = "[bytes]" and torn = xs])
      (use I a n w E(1-4,6,8) xs that in \<open>auto simp: jinv_def accounted_def\<close>)
  show "jinv base (s\<lparr>js_journal := j, js_writer := W_Written q, js_done := js_done s @ [bytes]\<rparr>)" if "pc = W_Written q"
    by (rule jinvI [where lost = "[]" and torn = "[]"])
      (use I a n w E(1-4,6,8) that in \<open>auto simp: jinv_def accounted_def\<close>)
qed

lemma jinv_journal:
  assumes I: "jinv base s"
    and "jn_ring j = jn_ring (js_journal s)" "jn_written j = jn_written (js_journal s)" "jn_queued j = jn_queued (js_journal s)"
    "jn_file j = jn_file (js_journal s)" "jn_healthy j \<longrightarrow> jn_healthy (js_journal s)"
    "jn_synced j \<le> length (jn_file j)" "js_writer s \<noteq> W_Exit \<longrightarrow> jn_open j"
  shows "jinv base (s\<lparr>js_journal := j\<rparr>)"
proof -
  obtain lost torn where a: "accounted base lost torn s" using I by (rule jinvD)
  show ?thesis
    by (rule jinvI [where lost = lost and torn = torn]) (use assms a in \<open>auto simp: jinv_def accounted_def\<close>)
qed

lemma sync_end_effect:
  assumes "sync_end flushed sync_ok j = (ok, j')"
  shows "jn_ring j' = jn_ring j" "jn_written j' = jn_written j" "jn_queued j' = jn_queued j" "jn_file j' = jn_file j"
    "jn_healthy j' \<longrightarrow> jn_healthy j" "jn_synced j \<le> length (jn_file j) \<Longrightarrow> jn_synced j' \<le> length (jn_file j') \<and> jn_synced j \<le> jn_synced j'"
    "ok \<Longrightarrow> flushed \<and> jn_synced j' = length (jn_file j')" "jn_open j' = jn_open j"
  using assms by (auto simp: sync_end_def doFdatasync_def split: if_splits)

lemma jstep_inv:
  assumes "jstep s s'" "jinv base s"
  shows "jinv base s'"
  using assms
proof (induction rule: jstep.induct)
  case (check s ev bytes)
  then show ?case by (auto simp: jinv_def accounted_def journaled_def)
next
  case (push s bytes ring)
  then show ?case by (intro jinv_push) simp_all
next
  case (push_failed s bytes res ring)
  then have "ring = jn_ring (js_journal s)" using tryPush_not_Ok by blast
  then have "jinv base (s\<lparr>js_journal := failStop ((js_journal s)\<lparr>jn_ring := ring\<rparr>)\<rparr>)"
    using push_failed by (intro jinv_journal) (auto simp: failStop_def jinv_def)
  then show ?case using push_failed(1) by (auto simp: jinv_def accounted_def)
next
  case (count s)
  then show ?case by (auto simp: jinv_def accounted_def count_queued_def of_nat_diff Suc_le_eq)
next
  case (wake s pc)
  then show ?case
    by (auto simp: jinv_def accounted_def writer_wake_def jr_empty_contents split: if_splits)
next
  case (pop s pc j)
  then show ?case using jinv_pop by blast
next
  case (write_ok s bytes ios sync_ok seq j)
  then show ?case using jinv_write(2) by blast
next
  case (write_failed s bytes ios sync_ok j)
  then show ?case using jinv_write(1) by blast
next
  case (written s seq)
  then show ?case by (auto simp: jinv_def accounted_def writer_count_def of_nat_diff Suc_le_eq)
next
  case (policy s pol n)
  then show ?case by (intro jinv_journal) (auto simp: setSyncPolicy_def jinv_def)
next
  case (sync flushed sync_ok s ok j)
  then show ?case using sync_end_effect [OF sync(1)] by (intro jinv_journal) (auto simp: jinv_def)
next
  case (stop s)
  then show ?case by (intro jinv_journal) (auto simp: stop_writer_def jinv_def)
next
  case (close s sync_ok)
  then show ?case by (intro jinv_journal) (auto simp: close_file_def jinv_def)
qed

lemma readAll_result:
  "readAll ios k got rest = Some (Some (x, y)) \<Longrightarrow> x @ y = got @ rest \<and> length x = length got + k"
proof (induction ios k got rest rule: readAll.induct)
  case (5 n ios k got rest)
  let ?m = "min n (min (Suc k) (length rest))"
  have "?m \<noteq> 0" using 5(2) by (auto simp: Let_def split: if_splits)
  then show ?case using 5 by (auto simp: Let_def split: if_splits)
qed (auto split: if_splits)

lemma Journal_start:
  assumes "Journal v fl cap = Some (Inr j)"
  shows "prefix header (jn_file j)" "prefix fl (jn_file j)" "jinv (jn_file j) (jstart j)" "jn_healthy j" "jn_running j"
proof -
  obtain ring where r: "JournalRingBuffer cap = Inr ring" using assms by (auto simp: Journal_def split: sum.splits)
  have j: "jn_ring j = ring" "jn_synced j = 0" "jn_written j = 0" "jn_queued j = 0" "jn_healthy j" "jn_running j" "jn_open j"
    using assms r by (auto simp: Journal_def Let_def split: if_splits option.splits prod.splits)
  then show "jn_healthy j" "jn_running j" by simp_all
  show "jinv (jn_file j) (jstart j)"
    using j JournalRingBuffer_wf [OF r] by (simp add: jinv_def jstart_def accounted_def)
  show "prefix header (jn_file j)" "prefix fl (jn_file j)"
  proof (induction "fl = []")
    case True
    then show "prefix header (jn_file j)" "prefix fl (jn_file j)"
      using assms r by (auto simp: Journal_def Let_def split: if_splits option.splits prod.splits dest!: writeAll_result)
  next
    case False
    then obtain rest y where m: "readAll (je_magic v) 4 [] fl = Some (Some (kMagic, rest))"
      "readAll (je_version v) 1 [] rest = Some (Some ([kVersion], y))" and f: "jn_file j = fl"
      using assms r by (auto simp: Journal_def Let_def split: if_splits option.splits prod.splits)
    have "fl = header @ y" using readAll_result [OF m(1)] readAll_result [OF m(2)] by (simp add: header_def)
    then show "prefix header (jn_file j)" "prefix fl (jn_file j)" using f by simp_all
  qed
qed

lemma jsteps_inv: "jstep\<^sup>*\<^sup>* s s' \<Longrightarrow> jinv base s \<Longrightarrow> jinv base s'"
  using rtranclp_invariant [of jstep s s' "jinv base"] jstep_inv by blast

text \<open>
  C16. However the engine's thread and the writer interleave, and whatever errors the system reports, the
  file is the header and old contents followed by a prefix of the serialised records in the order the ring
  accepted them: nothing is reordered, duplicated or invented, and at most the last record is torn. While the journal
  is healthy the file ends exactly behind the last written record.
\<close>

theorem journal_file_faithful:
  assumes "Journal v fl cap = Some (Inr j)" "jstep\<^sup>*\<^sup>* (jstart j) s"
  shows "prefix header (jn_file j) \<and>
    prefix (jn_file (js_journal s)) (jn_file j @ concat (js_accepted s)) \<and>
    prefix (jn_file j @ concat (js_done s)) (jn_file (js_journal s)) \<and> prefix (js_done s) (js_accepted s) \<and>
    list_all (\<lambda>b. \<exists>ev. serialize ev = Some b) (js_accepted s) \<and>
    (jn_healthy (js_journal s) \<longrightarrow> jn_file (js_journal s) = jn_file j @ concat (js_done s))"
proof -
  have I: "jinv (jn_file j) s" using jsteps_inv [OF assms(2)] Journal_start(3) [OF assms(1)] by blast
  obtain lost torn where a: "accounted (jn_file j) lost torn s" using I by (rule jinvD)
  have "prefix torn (concat (popped (js_writer s) @ lost @ jr_contents (jn_ring (js_journal s))))"
  proof (cases "lost = []")
    case False
    then have "popped (js_writer s) = []" using a by (auto simp: accounted_def)
    then show ?thesis using a by (simp add: accounted_def prefix_prefix)
  qed (use a in \<open>simp add: accounted_def\<close>)
  moreover have "jn_healthy (js_journal s) \<Longrightarrow> torn = []" using a by (auto simp: accounted_def)
  ultimately show ?thesis
    using Journal_start(1) [OF assms(1)] a I
    by (auto simp: accounted_def jinv_def list_all_iff journaled_def)
qed

definition ex_jenv :: jenv where
  "ex_jenv = \<lparr>je_open = True, je_seek_end = True, je_seek_set = True, je_magic = [], je_version = [], je_seek_back = True,
     je_header = [Interrupted, Moved 2, Moved 3]\<rparr>"

definition ex_journal :: journal where
  "ex_journal = \<lparr>jn_file = header, jn_synced = 0, jn_open = True, jn_running = True, jn_healthy = True, jn_last_sequence = 0,
     jn_ring = \<lparr>jr_ring = replicate 2 empty_slot, jr_head = 0, jr_tail = 0, jr_capacity = 2, jr_mask = 1\<rparr>,
     jn_queued = 0, jn_written = 0, jn_policy = MANUAL, jn_every = 1, jn_since = 0\<rparr>"

definition ex_event :: market_event where
  "ex_event = OrderCancelledEvent \<lparr>oc_timestamp = 5, oc_sequence = 1, oc_orderId = 7, oc_symbolId = 1, oc_traderId = 3, oc_cancelledQuantity = 2\<rparr>"

lemma ex_journal_new: "Journal ex_jenv [] 2 = Some (Inr ex_journal)"
proof -
  have "writeAll (je_header ex_jenv) header [] = Some (True, header)"
    by (simp add: ex_jenv_def header_def kMagic_def numeral_eq_Suc)
  then show ?thesis by (simp add: Journal_def JournalRingBuffer_def ex_journal_def Let_def) (simp add: ex_jenv_def)
qed

text \<open>The journal after one event was pushed and not yet counted.\<close>

definition ex_pushed :: jsys where
  "ex_pushed = (let bytes = the (serialize ex_event); s = jstart ex_journal
     in s\<lparr>js_journal := ex_journal\<lparr>jn_ring := snd (tryPush (Some bytes) (jn_ring ex_journal))\<rparr>, js_prod := P_Pushed,
          js_accepted := [bytes]\<rparr>)"

lemma ex_pushed_steps:
  "\<exists>s. jstep (jstart ex_journal) s \<and> jstep s ex_pushed \<and> js_writer s = W_Wait \<and> js_prod s \<noteq> P_Idle"
proof -
  obtain bytes where b: "serialize ex_event = Some bytes" "length bytes = 33" by (auto simp: ex_event_def)
  have t: "tryPush (Some bytes) (jn_ring ex_journal) = (Ok, snd (tryPush (Some bytes) (jn_ring ex_journal)))"
    using b(2) by (auto simp: tryPush_def ex_journal_def Let_def)
  let ?s = "(jstart ex_journal)\<lparr>js_prod := P_Checked bytes\<rparr>"
  have "jstep (jstart ex_journal) ?s" by (rule jstep.check [OF _ b(1)]) (simp_all add: jstart_def ex_journal_def)
  moreover have "jstep ?s ex_pushed"
    using jstep.push [of ?s bytes "snd (tryPush (Some bytes) (jn_ring ex_journal))"] t
    by (simp add: ex_pushed_def b(1) jstart_def Let_def)
  ultimately show ?thesis by (intro exI [of _ ?s]) (simp add: jstart_def)
qed

lemma ex_pushed_reach: "jstep\<^sup>*\<^sup>* (jstart ex_journal) ex_pushed"
  using ex_pushed_steps by (meson converse_rtranclp_into_rtranclp r_into_rtranclp)

theorem journal_file_faithful_witness:
  "prefix (jn_file (js_journal ex_pushed)) (jn_file ex_journal @ concat (js_accepted ex_pushed)) \<and> js_accepted ex_pushed \<noteq> []"
proof -
  have "js_accepted ex_pushed \<noteq> []" by (simp add: ex_pushed_def Let_def)
  then show ?thesis using journal_file_faithful [OF ex_journal_new ex_pushed_reach] by blast
qed

subsection \<open>Flush and sync\<close>

lemma jstep_mono:
  assumes "jstep s s'" "jinv base s"
  shows "prefix (js_accepted s) (js_accepted s') \<and> prefix (jn_file (js_journal s)) (jn_file (js_journal s')) \<and>
    jn_synced (js_journal s) \<le> jn_synced (js_journal s')"
  using assms
proof (induction rule: jstep.induct)
  case (write_ok s bytes ios sync_ok seq j)
  have "validateSerialized bytes" using write_ok by (intro journaled_valid) (auto simp: jinv_def accounted_def)
  from writer_write_effect(5,7) [OF write_ok(2) this] show ?case using write_ok(3) by (auto simp: jinv_def)
next
  case (write_failed s bytes ios sync_ok j)
  have "validateSerialized bytes" using write_failed by (intro journaled_valid) (auto simp: jinv_def accounted_def)
  from writer_write_effect(5,7) [OF write_failed(2) this] show ?case using write_failed(3) by (auto simp: jinv_def)
next
  case (pop s pc j)
  then show ?case by (auto simp: writer_pop_def failStop_def split: option.splits prod.splits)
next
  case (sync flushed sync_ok s ok j)
  then show ?case using sync_end_effect [OF sync(1)] by (auto simp: jinv_def)
qed (auto simp: failStop_def count_queued_def writer_count_def setSyncPolicy_def stop_writer_def close_file_def jinv_def)

lemma jsteps_mono:
  assumes "jstep\<^sup>*\<^sup>* s s'" "jinv base s"
  shows "prefix (js_accepted s) (js_accepted s') \<and> prefix (jn_file (js_journal s)) (jn_file (js_journal s')) \<and>
    jn_synced (js_journal s) \<le> jn_synced (js_journal s')"
  using assms
proof (induction rule: rtranclp_induct)
  case (step y z)
  then show ?case using jstep_mono [OF step(2) jsteps_inv [OF step(1,4)]] by (meson order_trans prefix_order.trans)
qed simp

text \<open>If the counter of written records has reached a number, that many records are in the file.\<close>

lemma written_in_file:
  assumes I: "jinv base s" and small: "length (js_accepted s) < 2 ^ 64" and n: "of_nat n \<le> jn_written (js_journal s)" "n < 2 ^ 64"
  shows "prefix (base @ concat (take n (js_accepted s))) (jn_file (js_journal s))"
proof -
  obtain lost torn where a: "accounted base lost torn s" using I by (rule jinvD)
  have "length (js_done s) \<le> length (js_accepted s)" using a by (simp add: accounted_def)
  moreover have w: "jn_written (js_journal s) = of_nat (length (js_done s) - uncounted (js_writer s))"
    using I by (simp add: jinv_def)
  ultimately have "unat (jn_written (js_journal s)) = length (js_done s) - uncounted (js_writer s)"
    using small by (simp add: w unat_of_nat)
  then have "n \<le> length (js_done s)" using n by (simp add: word_le_nat_alt unat_of_nat)
  then have t: "take n (js_accepted s) = take n (js_done s)" using a by (simp add: accounted_def)
  have c: "concat (js_done s) = concat (take n (js_done s)) @ concat (drop n (js_done s))"
    by (simp flip: concat_append)
  have f: "jn_file (js_journal s) = base @ concat (js_done s) @ torn" using a by (simp add: accounted_def)
  show ?thesis unfolding t f by (subst c) simp
qed

lemma flush_durable:
  assumes new: "Journal v fl cap = Some (Inr j)" and run: "jstep\<^sup>*\<^sup>* (jstart j) s" "jstep\<^sup>*\<^sup>* s s'"
    and idle: "js_prod s = P_Idle" and small: "length (js_accepted s') < 2 ^ 64"
    and fl: "flush_begin (js_journal s) = Inl True \<or>
      (\<exists>target. flush_begin (js_journal s) = Inr target \<and> waitUntilWritten target (js_journal s') = Some True)"
  shows "prefix (jn_file j @ concat (js_accepted s)) (jn_file (js_journal s')) \<and>
    (sync_end True sync_ok (js_journal s') = (True, j') \<longrightarrow>
     prefix (jn_file j @ concat (js_accepted s)) (take (jn_synced j') (jn_file j')))"
proof -
  let ?n = "length (js_accepted s)"
  have I: "jinv (jn_file j) s" "jinv (jn_file j) s'"
    using jsteps_inv run Journal_start(3) [OF new] by blast+
  note M = jsteps_mono [OF run(2) I(1)]
  have sm: "?n < 2 ^ 64" using M small prefix_length_le by fastforce
  have q: "jn_queued (js_journal s) = of_nat ?n" using I(1) idle by (simp add: jinv_def)
  have "prefix (jn_file j @ concat (js_accepted s)) (jn_file (js_journal s'))" using fl
  proof
    assume "flush_begin (js_journal s) = Inl True"
    then have "of_nat ?n \<le> jn_written (js_journal s)" by (auto simp: flush_begin_def Let_def q split: if_splits)
    from written_in_file [OF I(1) sm this sm] show ?thesis using M by (auto intro: prefix_order.trans)
  next
    assume "\<exists>target. flush_begin (js_journal s) = Inr target \<and> waitUntilWritten target (js_journal s') = Some True"
    then have "of_nat ?n \<le> jn_written (js_journal s')"
      by (auto simp: flush_begin_def waitUntilWritten_def Let_def q split: if_splits)
    moreover have "take ?n (js_accepted s') = js_accepted s" using M by (auto elim!: prefixE)
    ultimately show ?thesis using written_in_file [OF I(2) small _ sm] by simp
  qed
  then show ?thesis using sync_end_effect(4,7) [of True sync_ok "js_journal s'" True j'] by auto
qed

text \<open>
  C17. A successful flush is a promise kept: when \<open>flush\<close> returns true, at once or after waiting, every record the
  engine had enqueued when it was called is completely in the file; when \<open>sync\<close> returns true they are
  on stable storage, and stay there.
\<close>

theorem flush_is_durable:
  assumes new: "Journal v fl cap = Some (Inr j)" and run: "jstep\<^sup>*\<^sup>* (jstart j) s" "jstep\<^sup>*\<^sup>* s s'"
    and idle: "js_prod s = P_Idle" and small: "length (js_accepted s') < 2 ^ 64"
    and fl: "flush_begin (js_journal s) = Inl True \<or>
      (\<exists>target. flush_begin (js_journal s) = Inr target \<and> waitUntilWritten target (js_journal s') = Some True)"
  shows "prefix (jn_file j @ concat (js_accepted s)) (jn_file (js_journal s')) \<and>
    (sync_end True sync_ok (js_journal s') = (True, j') \<longrightarrow>
     prefix (jn_file j @ concat (js_accepted s)) (take (jn_synced j') (jn_file j')))"
  using flush_durable [OF assms] .

subsection \<open>The writer makes progress\<close>

definition writer_step :: "jsys \<Rightarrow> jsys \<Rightarrow> bool" where
  "writer_step s s' \<longleftrightarrow> jstep s s' \<and> js_writer s' \<noteq> js_writer s \<and> js_prod s' = js_prod s \<and> js_accepted s' = js_accepted s"

definition rank :: "jsys \<Rightarrow> nat" where
  "rank s = 4 * length (jr_contents (jn_ring (js_journal s))) +
     (case js_writer s of W_Wait \<Rightarrow> 1 | W_Pop \<Rightarrow> 0 | W_Popped b \<Rightarrow> 3 | W_Written q \<Rightarrow> 2 | W_Exit \<Rightarrow> 0)"

lemma writer_write_good:
  assumes "validateSerialized bytes" "jn_open j"
  obtains j' where "writer_write [Moved (length bytes)] True bytes j = Some (W_Written (record_sequence bytes), j')"
    "jn_healthy j' = jn_healthy j" "jn_ring j' = jn_ring j"
proof -
  have len: "17 \<le> length bytes" using valid_length [OF assms(1)] by simp
  then obtain b bs where b: "bytes = b # bs" by (cases bytes) auto
  have "writeAll [Moved (length bytes)] bytes (jn_file j) = Some (True, jn_file j @ bytes)" by (simp add: b)
  then have "\<exists>j'. writer_write [Moved (length bytes)] True bytes j = Some (W_Written (record_sequence bytes), j') \<and>
      jn_healthy j' = jn_healthy j \<and> jn_ring j' = jn_ring j"
    using assms len
    by (cases "should_sync (j\<lparr>jn_file := jn_file j @ bytes, jn_since := jn_since j + 1\<rparr>)")
      (simp_all add: writer_write_def writeSerialized_def doFdatasync_def Let_def)
  then show ?thesis using that by blast
qed

lemma writer_progress:
  assumes I: "jinv base s" and h: "jn_healthy (js_journal s)" "js_writer s \<noteq> W_Exit"
    and busy: "js_writer s \<noteq> W_Wait \<or> jr_contents (jn_ring (js_journal s)) \<noteq> []"
  shows "\<exists>s'. writer_step s s' \<and> rank s' < rank s \<and> jn_healthy (js_journal s') \<and> js_writer s' \<noteq> W_Exit"
proof (cases "js_writer s")
  case W_Wait
  then have ne: "jr_contents (jn_ring (js_journal s)) \<noteq> []" using busy by simp
  have "writer_wake (js_journal s) = Some W_Pop" using ne by (simp add: writer_wake_def jr_empty_contents)
  then have "jstep s (s\<lparr>js_writer := W_Pop\<rparr>)" using W_Wait by (intro jstep.wake)
  then show ?thesis using W_Wait h by (intro exI [of _ "s\<lparr>js_writer := W_Pop\<rparr>"]) (simp add: writer_step_def rank_def)
next
  case W_Pop
  obtain x xs where c: "jr_contents (jn_ring (js_journal s)) = x # xs"
    using I W_Pop by (auto simp: jinv_def neq_Nil_conv)
  obtain ring where r: "tryPop (jn_ring (js_journal s)) = (Some x, ring)" "jr_contents ring = xs"
    using tryPop_ok [OF _ c] I by (auto simp: jinv_def)
  let ?s = "s\<lparr>js_journal := (js_journal s)\<lparr>jn_ring := ring\<rparr>, js_writer := W_Popped x\<rparr>"
  have "jstep s ?s" using W_Pop r(1) by (intro jstep.pop) (simp_all add: writer_pop_def)
  then show ?thesis using W_Pop h c r by (intro exI [of _ ?s]) (simp add: writer_step_def rank_def)
next
  case (W_Popped b)
  have "validateSerialized b" using I W_Popped by (intro journaled_valid) (auto simp: jinv_def accounted_def)
  then obtain j where j: "writer_write [Moved (length b)] True b (js_journal s) = Some (W_Written (record_sequence b), j)"
    "jn_healthy j = jn_healthy (js_journal s)" "jn_ring j = jn_ring (js_journal s)"
    using writer_write_good I W_Popped by (metis jinv_def writer_pc.distinct(17))
  let ?s = "s\<lparr>js_journal := j, js_writer := W_Written (record_sequence b), js_done := js_done s @ [b]\<rparr>"
  have "jstep s ?s" using W_Popped j(1) by (intro jstep.write_ok)
  then show ?thesis using W_Popped h j by (intro exI [of _ ?s]) (simp add: writer_step_def rank_def)
next
  case (W_Written q)
  let ?s = "s\<lparr>js_journal := writer_count q (js_journal s), js_writer := W_Wait\<rparr>"
  have "jstep s ?s" using W_Written by (intro jstep.written)
  then show ?thesis using W_Written h by (intro exI [of _ ?s]) (simp add: writer_step_def rank_def writer_count_def)
qed (use h in simp)

interpretation jw: draining writer_step "\<lambda>s. jinv base s \<and> jn_healthy (js_journal s) \<and> js_writer s \<noteq> W_Exit"
  "\<lambda>s. js_writer s = W_Wait \<and> jr_contents (jn_ring (js_journal s)) = []" rank for base
proof unfold_locales
  fix s assume s: "jinv base s \<and> jn_healthy (js_journal s) \<and> js_writer s \<noteq> W_Exit"
    "\<not> (js_writer s = W_Wait \<and> jr_contents (jn_ring (js_journal s)) = [])"
  then obtain s1 where s1: "writer_step s s1" "rank s1 < rank s" "jn_healthy (js_journal s1)" "js_writer s1 \<noteq> W_Exit"
    using writer_progress [of base s] by blast
  moreover have "jinv base s1" using s1(1) s(1) jstep_inv by (auto simp: writer_step_def)
  ultimately show "\<exists>s'. writer_step s s' \<and> (jinv base s' \<and> jn_healthy (js_journal s') \<and> js_writer s' \<noteq> W_Exit) \<and> rank s' < rank s" by blast
qed

lemma writer_drains:
  "jinv base s \<Longrightarrow> jn_healthy (js_journal s) \<Longrightarrow> js_writer s \<noteq> W_Exit \<Longrightarrow>
   \<exists>s'. writer_step\<^sup>*\<^sup>* s s' \<and> jn_healthy (js_journal s') \<and> js_writer s' = W_Wait \<and> jr_contents (jn_ring (js_journal s')) = []"
  using jw.finishes [of base s] by blast

lemma writer_steps: "writer_step\<^sup>*\<^sup>* s s' \<Longrightarrow> jstep\<^sup>*\<^sup>* s s' \<and> js_prod s' = js_prod s \<and> js_accepted s' = js_accepted s"
  by (induction rule: rtranclp_induct) (auto simp: writer_step_def intro: rtranclp.rtrancl_into_rtrancl)

lemma drained:
  assumes "Journal v fl cap = Some (Inr j)" "jstep\<^sup>*\<^sup>* (jstart j) s" "jn_healthy (js_journal s)" "js_writer s \<noteq> W_Exit"
  shows "\<exists>s'. writer_step\<^sup>*\<^sup>* s s' \<and> js_done s' = js_accepted s \<and> jn_file (js_journal s') = jn_file j @ concat (js_accepted s) \<and>
    (js_prod s = P_Idle \<longrightarrow> flush_begin (js_journal s') = Inl True)"
proof -
  have I: "jinv (jn_file j) s" using jsteps_inv assms(2) Journal_start(3) [OF assms(1)] by blast
  obtain s' where s': "writer_step\<^sup>*\<^sup>* s s'" "jn_healthy (js_journal s')" "js_writer s' = W_Wait"
    "jr_contents (jn_ring (js_journal s')) = []"
    using writer_drains [OF I assms(3,4)] by blast
  note S = writer_steps [OF s'(1)]
  have I': "jinv (jn_file j) s'" using jsteps_inv S I by blast
  obtain lost torn where a: "accounted (jn_file j) lost torn s'" using I' by (rule jinvD)
  have "js_done s' = js_accepted s'" "torn = []" using a s' by (auto simp: accounted_def)
  then show ?thesis
    using s' S a I' by (intro exI [of _ s']) (auto simp: accounted_def jinv_def flush_begin_def Let_def)
qed

definition ex_queued :: jsys where
  "ex_queued = ex_pushed\<lparr>js_journal := count_queued (js_journal ex_pushed), js_prod := P_Idle\<rparr>"

lemma ex_queued_step: "jstep ex_pushed ex_queued"
  unfolding ex_queued_def by (rule jstep.count) (simp add: ex_pushed_def Let_def)

lemma ex_queued_reach: "jstep\<^sup>*\<^sup>* (jstart ex_journal) ex_queued"
  using ex_queued_step ex_pushed_reach by (meson rtranclp.rtrancl_into_rtrancl)

theorem flush_is_durable_witness:
  "\<exists>s'. jstep\<^sup>*\<^sup>* ex_queued s' \<and> prefix (jn_file ex_journal @ concat (js_accepted ex_queued)) (jn_file (js_journal s'))"
proof -
  note r = ex_queued_reach
  have q: "jn_healthy (js_journal ex_queued)" "js_writer ex_queued \<noteq> W_Exit" "js_prod ex_queued = P_Idle"
    "length (js_accepted ex_queued) = 1" "flush_begin (js_journal ex_queued) = Inr 1"
    by (simp_all add: ex_queued_def ex_pushed_def ex_journal_def jstart_def count_queued_def flush_begin_def Let_def)
  obtain s' where s': "writer_step\<^sup>*\<^sup>* ex_queued s'" "flush_begin (js_journal s') = Inl True"
    using drained [OF ex_journal_new r q(1,2)] q(3) by blast
  note S = writer_steps [OF s'(1)]
  have "jinv (jn_file ex_journal) s'" using jsteps_inv S r Journal_start(3) [OF ex_journal_new] by blast
  then have "jn_queued (js_journal s') = 1" using S q by (simp add: jinv_def)
  then have w: "waitUntilWritten 1 (js_journal s') = Some True"
    using s'(2) by (auto simp: flush_begin_def waitUntilWritten_def Let_def split: if_splits)
  have "length (js_accepted s') < 2 ^ 64" using S q(4) by simp
  then show ?thesis
    using flush_is_durable [OF ex_journal_new r conjunct1 [OF S] q(3)] S q(5) w by blast
qed

end
