(* ===== verification/Journal_Flush.thy ===== *)
theory Journal_Flush
  imports Journal_Threads
begin

text \<open>
  The protocol by which \<open>Journal::flush\<close> waits for the writer (\<open>flush\<close>, \<open>waitUntilWritten\<close>, \<open>notifyFlush\<close> and the fast path of
  \<open>writerThread\<close> in \<open>src/Journal.cpp\<close>). The callers and the condition variable are added to the threads of \<open>Journal_Threads\<close>:
  a caller that finds its condition false parks and stays parked until a \<open>notifyFlush\<close>, however true the condition has become
  meanwhile. The writer notifies only when it finds \<open>flush_waiter_present_\<close> set, and that flag is one for all callers.
  The writer's own wait is the condition it waits for, as in \<open>Journal_Threads\<close>; its notifications are the subject of \<open>Journal_Queue\<close>.
\<close>

section \<open>Definitions\<close>

text \<open>Where a caller of \<open>flush\<close> stands; \<open>Fl_Back r\<close> is a call that returned \<open>r\<close>.\<close>

datatype flush_pc = Fl_Out | Fl_Mark u64 | Fl_Test u64 | Fl_Parked u64 | Fl_Clear bool | Fl_Back bool

fun returned :: "flush_pc \<Rightarrow> bool" where
  "returned Fl_Out = True"
| "returned (Fl_Back r) = True"
| "returned _ = False"

text \<open>
  \<open>fs_present\<close> is \<open>flush_waiter_present_\<close>; \<open>fs_check\<close> says the writer has counted a record and not yet looked at the flag;
  \<open>fs_owed\<close> counts the calls of \<open>notifyFlush\<close> that threads have come to and not yet made.
\<close>

record fsys =
  fs_sys :: jsys
  fs_present :: bool
  fs_check :: bool
  fs_owed :: nat
  fs_call :: "nat \<Rightarrow> flush_pc"

definition fstart :: "journal \<Rightarrow> fsys" where
  "fstart j = \<lparr>fs_sys = jstart j, fs_present = False, fs_check = False, fs_owed = 0, fs_call = (\<lambda>_. Fl_Out)\<rparr>"

abbreviation fs_journal :: "fsys \<Rightarrow> journal" where
  "fs_journal s \<equiv> js_journal (fs_sys s)"

text \<open>\<open>flush\<close>: the first critical section; setting the flag; the test of \<open>waitUntilWritten\<close> under the lock; clearing the flag.\<close>

definition flush_enter :: "nat \<Rightarrow> fsys \<Rightarrow> fsys" where
  "flush_enter i s = s\<lparr>fs_call := (fs_call s)(i :=
     (case flush_begin (fs_journal s) of Inl r \<Rightarrow> Fl_Back r | Inr target \<Rightarrow> Fl_Mark target))\<rparr>"

definition flush_mark :: "nat \<Rightarrow> u64 \<Rightarrow> fsys \<Rightarrow> fsys" where
  "flush_mark i target s = s\<lparr>fs_present := True, fs_call := (fs_call s)(i := Fl_Test target)\<rparr>"

definition flush_test :: "nat \<Rightarrow> u64 \<Rightarrow> fsys \<Rightarrow> fsys" where
  "flush_test i target s = s\<lparr>fs_call := (fs_call s)(i :=
     (case waitUntilWritten target (fs_journal s) of Some r \<Rightarrow> Fl_Clear r | None \<Rightarrow> Fl_Parked target))\<rparr>"

definition flush_clear :: "nat \<Rightarrow> bool \<Rightarrow> fsys \<Rightarrow> fsys" where
  "flush_clear i r s = s\<lparr>fs_present := False, fs_call := (fs_call s)(i := Fl_Back r)\<rparr>"

text \<open>\<open>flush_cv_.notify_all()\<close>: every parked caller goes back to its test.\<close>

fun woken :: "flush_pc \<Rightarrow> flush_pc" where
  "woken (Fl_Parked target) = Fl_Test target"
| "woken pc = pc"

definition notifyFlush :: "fsys \<Rightarrow> fsys" where
  "notifyFlush s = s\<lparr>fs_owed := fs_owed s - 1, fs_call := woken \<circ> fs_call s\<rparr>"

text \<open>The writer's fast path after it has counted a record.\<close>

definition writer_check :: "fsys \<Rightarrow> fsys" where
  "writer_check s = s\<lparr>fs_check := False, fs_owed := fs_owed s + (if fs_present s then 1 else 0)\<rparr>"

text \<open>
  The steps of \<open>jstep\<close> that end in a notification: the writer leaves its loop, or the journal fails, in \<open>failStop\<close> or in a
  failing \<open>sync\<close>. That the notification of \<open>failStop\<close> is made in the same critical section is not used.
\<close>

definition counts :: "jsys \<Rightarrow> jsys \<Rightarrow> bool" where
  "counts u u' \<longleftrightarrow> (case js_writer u of W_Written _ \<Rightarrow> js_writer u' = W_Wait | _ \<Rightarrow> False)"

definition owes :: "jsys \<Rightarrow> jsys \<Rightarrow> bool" where
  "owes u u' \<longleftrightarrow> (jn_healthy (js_journal u) \<and> \<not> jn_healthy (js_journal u')) \<or>
     (js_writer u \<noteq> W_Exit \<and> js_writer u' = W_Exit)"

definition journal_moves :: "jsys \<Rightarrow> fsys \<Rightarrow> fsys" where
  "journal_moves u s = s\<lparr>fs_sys := u, fs_check := fs_check s \<or> counts (fs_sys s) u,
     fs_owed := fs_owed s + (if owes (fs_sys s) u then 1 else 0)\<rparr>"

text \<open>
  With \<open>serial\<close> a call of \<open>flush\<close> starts only when no other is in progress; with \<open>spurious\<close> the condition variable may
  wake a caller without a notification, as C++ allows.
\<close>

inductive fstep :: "bool \<Rightarrow> bool \<Rightarrow> fsys \<Rightarrow> fsys \<Rightarrow> bool" for serial spurious where
  journal: "jstep (fs_sys s) u \<Longrightarrow> (fs_check s \<longrightarrow> js_writer u = js_writer (fs_sys s)) \<Longrightarrow>
    fstep serial spurious s (journal_moves u s)"
| check: "fs_check s \<Longrightarrow> fstep serial spurious s (writer_check s)"
| notify: "0 < fs_owed s \<Longrightarrow> fstep serial spurious s (notifyFlush s)"
| enter: "returned (fs_call s i) \<Longrightarrow> (serial \<longrightarrow> (\<forall>k. returned (fs_call s k))) \<Longrightarrow> fstep serial spurious s (flush_enter i s)"
| mark: "fs_call s i = Fl_Mark target \<Longrightarrow> fstep serial spurious s (flush_mark i target s)"
| test: "fs_call s i = Fl_Test target \<Longrightarrow> fstep serial spurious s (flush_test i target s)"
| clear: "fs_call s i = Fl_Clear r \<Longrightarrow> fstep serial spurious s (flush_clear i r s)"
| spurious: "spurious \<Longrightarrow> fs_call s i = Fl_Parked target \<Longrightarrow>
    fstep serial spurious s (s\<lparr>fs_call := (fs_call s)(i := Fl_Test target)\<rparr>)"

section \<open>Lemmas\<close>

subsection \<open>What a step of the journal can change\<close>

lemmas journal_step_defs = failStop_def count_queued_def writer_pop_def writer_wake_def setSyncPolicy_def sync_end_def doFdatasync_def
  stop_writer_def close_file_def

lemma jstep_effect:
  assumes "jstep s s'" "jinv base s"
  shows "jn_written (js_journal s') = jn_written (js_journal s) \<or> counts s s'"
    and "jn_healthy (js_journal s') \<Longrightarrow> jn_healthy (js_journal s)"
    and "jn_running (js_journal s') \<Longrightarrow> jn_running (js_journal s)"
    and "jn_running (js_journal s) \<Longrightarrow> \<not> jn_running (js_journal s') \<Longrightarrow> owes s s' \<or> js_writer s' = js_writer s"
    and "js_writer s' = W_Exit \<Longrightarrow> js_writer s = W_Exit \<or> \<not> jn_running (js_journal s')"
proof -
  have W: "validateSerialized bytes" if "js_writer s = W_Popped bytes" for bytes
    using assms(2) that by (intro journaled_valid) (auto simp: jinv_def accounted_def)
  have E: "jn_written j = jn_written (js_journal s) \<and> (jn_healthy j \<longrightarrow> jn_healthy (js_journal s)) \<and>
      (pc = W_Exit \<longrightarrow> \<not> jn_running j) \<and> (pc \<noteq> W_Exit \<longrightarrow> jn_running j = jn_running (js_journal s))"
    if "writer_write ios sync_ok bytes (js_journal s) = Some (pc, j)" "js_writer s = W_Popped bytes" for ios sync_ok bytes pc j
    using that W [OF that(2)]
    by (auto simp: writer_write_def writeSerialized_def doFdatasync_def failStop_def Let_def
        split: if_splits option.splits prod.splits)
  from assms(1) show "jn_written (js_journal s') = jn_written (js_journal s) \<or> counts s s'"
    by cases (auto simp: journal_step_defs counts_def dest!: E split: option.splits prod.splits if_splits)
  from assms(1) show "jn_healthy (js_journal s') \<Longrightarrow> jn_healthy (js_journal s)"
    by cases (auto simp: journal_step_defs writer_count_def dest!: E split: option.splits prod.splits if_splits)
  from assms(1) show "jn_running (js_journal s') \<Longrightarrow> jn_running (js_journal s)"
    by cases (auto simp: journal_step_defs writer_count_def dest!: E split: option.splits prod.splits if_splits)
  from assms(1) show "jn_running (js_journal s) \<Longrightarrow> \<not> jn_running (js_journal s') \<Longrightarrow> owes s s' \<or> js_writer s' = js_writer s"
    by cases (auto simp: journal_step_defs writer_count_def owes_def dest!: E split: option.splits prod.splits if_splits)
  from assms(1) show "js_writer s' = W_Exit \<Longrightarrow> js_writer s = W_Exit \<or> \<not> jn_running (js_journal s')"
    by cases (auto simp: journal_step_defs dest!: E split: option.splits prod.splits if_splits)
qed

text \<open>The number of records counted as queued never goes down.\<close>

definition queued_count :: "jsys \<Rightarrow> nat" where
  "queued_count u = length (js_accepted u) - (if js_prod u = P_Pushed then 1 else 0)"

lemma jstep_queued: "jstep s s' \<Longrightarrow> jinv base s \<Longrightarrow> queued_count s \<le> queued_count s'"
  by (induction rule: jstep.induct) (auto simp: queued_count_def jinv_def)

subsection \<open>No caller is forgotten\<close>

text \<open>A parked caller whose condition holds: a notification is owed, or the writer will look at the flag, or it is still to leave.\<close>

definition remembered :: "fsys \<Rightarrow> bool" where
  "remembered s \<longleftrightarrow> 0 < fs_owed s \<or> fs_check s \<or>
     (jn_healthy (fs_journal s) \<and> \<not> jn_running (fs_journal s) \<and> js_writer (fs_sys s) \<noteq> W_Exit)"

fun flagged :: "flush_pc \<Rightarrow> bool" where
  "flagged (Fl_Test target) = True"
| "flagged (Fl_Parked target) = True"
| "flagged (Fl_Clear r) = True"
| "flagged _ = False"

fun awaits :: "flush_pc \<Rightarrow> u64 option" where
  "awaits (Fl_Mark target) = Some target"
| "awaits (Fl_Test target) = Some target"
| "awaits (Fl_Parked target) = Some target"
| "awaits _ = None"

definition finv :: "u8 list \<Rightarrow> fsys \<Rightarrow> bool" where
  "finv base s \<longleftrightarrow> jinv base (fs_sys s) \<and>
     (js_writer (fs_sys s) = W_Exit \<longrightarrow> \<not> jn_running (fs_journal s)) \<and>
     (\<forall>i. flagged (fs_call s i) \<longrightarrow> fs_present s) \<and>
     (\<forall>i k. \<not> returned (fs_call s i) \<longrightarrow> \<not> returned (fs_call s k) \<longrightarrow> i = k) \<and>
     (\<forall>i t. awaits (fs_call s i) = Some t \<longrightarrow> (\<exists>n \<le> queued_count (fs_sys s). t = of_nat n)) \<and>
     (\<forall>i t. fs_call s i = Fl_Parked t \<longrightarrow> waitUntilWritten t (fs_journal s) \<noteq> None \<longrightarrow> remembered s)"

lemma finvD:
  assumes "finv base s"
  shows "jinv base (fs_sys s)" "js_writer (fs_sys s) = W_Exit \<Longrightarrow> \<not> jn_running (fs_journal s)"
    "flagged (fs_call s i) \<Longrightarrow> fs_present s" "\<not> returned (fs_call s i) \<Longrightarrow> \<not> returned (fs_call s k) \<Longrightarrow> i = k"
    "awaits (fs_call s i) = Some t \<Longrightarrow> \<exists>n \<le> queued_count (fs_sys s). t = of_nat n"
    "fs_call s i = Fl_Parked t \<Longrightarrow> waitUntilWritten t (fs_journal s) \<noteq> None \<Longrightarrow> remembered s"
  using assms unfolding finv_def by blast+

lemma fstart_inv: "Journal v fl cap = Some (Inr j) \<Longrightarrow> finv (jn_file j) (fstart j)"
  using Journal_start(3) by (simp add: finv_def fstart_def jstart_def)

lemma journal_moves_inv:
  assumes I: "finv base s" and st: "jstep (fs_sys s) u"
  shows "finv base (journal_moves u s)"
proof -
  note E = jstep_effect [OF st finvD(1) [OF I]] and Q = jstep_queued [OF st finvD(1) [OF I]]
  have "remembered (journal_moves u s)"
    if pk: "fs_call s i = Fl_Parked t" and w: "waitUntilWritten t (js_journal u) \<noteq> None" for i t
  proof (cases "waitUntilWritten t (fs_journal s) = None")
    case False
    then have "remembered s" using finvD(6) [OF I pk] by simp
    then show ?thesis using E by (auto simp: remembered_def journal_moves_def owes_def)
  next
    case True
    then have "\<not> t \<le> jn_written (fs_journal s)" "jn_healthy (fs_journal s)" "jn_running (fs_journal s)"
      by (auto simp: waitUntilWritten_def split: if_splits)
    then show ?thesis using w E finvD(2) [OF I]
      by (auto simp: remembered_def journal_moves_def owes_def waitUntilWritten_def split: if_splits)
  qed
  moreover have "jinv base u" using jstep_inv [OF st finvD(1) [OF I]] .
  moreover have "js_writer u = W_Exit \<longrightarrow> \<not> jn_running (js_journal u)" using E(3,5) finvD(2) [OF I] by blast
  moreover have "\<exists>n \<le> queued_count u. t = of_nat n" if "awaits (fs_call s i) = Some t" for i t
    using finvD(5) [OF I that] Q order_trans by blast
  moreover have "fs_call (journal_moves u s) = fs_call s" "fs_present (journal_moves u s) = fs_present s"
    "fs_sys (journal_moves u s) = u" by (simp_all add: journal_moves_def)
  ultimately show ?thesis using finvD(3,4) [OF I] unfolding finv_def by metis
qed

text \<open>The steps of a caller that leave the journal, the writer and the debts alone.\<close>

lemma call_inv:
  assumes I: "finv base s" and s': "s' = s\<lparr>fs_present := b, fs_call := (fs_call s)(i := pc)\<rparr>"
    and flag: "flagged pc \<Longrightarrow> b" and others: "b \<or> \<not> fs_present s \<or> \<not> returned (fs_call s i)"
    and only: "returned pc \<or> \<not> returned (fs_call s i) \<or> (\<forall>k. returned (fs_call s k))"
    and target: "\<And>t. awaits pc = Some t \<Longrightarrow> awaits (fs_call s i) = Some t \<or> t = of_nat (queued_count (fs_sys s))"
    and park: "\<And>t. pc = Fl_Parked t \<Longrightarrow> waitUntilWritten t (fs_journal s) = None"
  shows "finv base s'"
proof -
  have "flagged (fs_call s k) \<Longrightarrow> \<not> returned (fs_call s k)" for k by (cases "fs_call s k") auto
  then have "fs_present s'" if "flagged (fs_call s' k)" for k
    using that flag others finvD(3) [OF I, of k] finvD(4) [OF I, of i k] by (cases "k = i") (auto simp: s')
  moreover have "i1 = i2" if "\<not> returned (fs_call s' i1)" "\<not> returned (fs_call s' i2)" for i1 i2
    using that only finvD(4) [OF I, of i1 i2] finvD(4) [OF I, of i i2] finvD(4) [OF I, of i1 i]
    by (cases "i1 = i"; cases "i2 = i") (auto simp: s')
  moreover have "\<exists>n \<le> queued_count (fs_sys s'). t = of_nat n" if "awaits (fs_call s' k) = Some t" for k t
    using that target finvD(5) [OF I] by (cases "k = i") (auto simp: s')
  moreover have "remembered s'" if "fs_call s' k = Fl_Parked t" "waitUntilWritten t (fs_journal s') \<noteq> None" for k t
    using that park finvD(6) [OF I, of k t] by (cases "k = i") (auto simp: s' remembered_def)
  moreover have "jinv base (fs_sys s')" "js_writer (fs_sys s') = W_Exit \<longrightarrow> \<not> jn_running (fs_journal s')"
    using finvD(1,2) [OF I] by (simp_all add: s')
  ultimately show ?thesis unfolding finv_def by blast
qed

lemma fstep_inv: "fstep True sp s s' \<Longrightarrow> finv base s \<Longrightarrow> finv base s'"
proof (induction rule: fstep.induct)
  case (journal s u)
  then show ?case by (blast intro: journal_moves_inv)
next
  case (check s)
  have "remembered (writer_check s)" if "fs_call s i = Fl_Parked t" for i t
    using finvD(3) [OF check(2), of i] that by (simp add: remembered_def writer_check_def)
  then show ?case using check(2) unfolding finv_def by (simp add: writer_check_def)
next
  case (notify s)
  have "returned (woken pc) = returned pc" "flagged (woken pc) = flagged pc" "awaits (woken pc) = awaits pc" "woken pc \<noteq> Fl_Parked t" for pc t
    by (cases pc; simp)+
  then show ?case using notify(2) unfolding finv_def by (simp add: notifyFlush_def)
next
  case (enter s i)
  have q: "jn_queued (fs_journal s) = of_nat (queued_count (fs_sys s))"
    using finvD(1) [OF enter(3)] by (simp add: jinv_def queued_count_def)
  show ?case
    by (rule call_inv [OF enter(3), where b = "fs_present s" and i = i and pc = "fs_call (flush_enter i s) i"])
      (use enter q in \<open>auto simp: flush_enter_def flush_begin_def Let_def split: if_splits\<close>)
next
  case (mark s i target)
  show ?case
    by (rule call_inv [OF mark(2), where b = True and i = i and pc = "Fl_Test target"])
      (use mark in \<open>auto simp: flush_mark_def\<close>)
next
  case (test s i target)
  show ?case
    by (rule call_inv [OF test(2), where b = "fs_present s" and i = i and pc = "fs_call (flush_test i target s) i"])
      (use test finvD(3) [OF test(2), of i] in \<open>auto simp: flush_test_def split: option.splits\<close>)
next
  case (clear s i r)
  show ?case
    by (rule call_inv [OF clear(2), where b = False and i = i and pc = "Fl_Back r"])
      (use clear in \<open>auto simp: flush_clear_def\<close>)
next
  case (spurious s i target)
  show ?case
    by (rule call_inv [OF spurious(3), where b = "fs_present s" and i = i and pc = "Fl_Test target"])
      (use spurious finvD(3) [OF spurious(3), of i] in auto)
qed

lemma fsteps_inv: "(fstep True sp)\<^sup>*\<^sup>* s s' \<Longrightarrow> finv base s \<Longrightarrow> finv base s'"
  using rtranclp_invariant [of "fstep True sp" s s' "finv base"] fstep_inv by blast

subsection \<open>Every call returns\<close>

text \<open>The writer's own runs, with its looks at the flag in between.\<close>

lemma uncheck:
  "\<exists>s'. (fstep se sp)\<^sup>*\<^sup>* s s' \<and> fs_sys s' = fs_sys s \<and> fs_call s' = fs_call s \<and> fs_present s' = fs_present s \<and> \<not> fs_check s' \<and>
     fs_owed s' = fs_owed s + (if fs_check s \<and> fs_present s then 1 else 0)"
proof (cases "fs_check s")
  case True
  then have "fstep se sp s (writer_check s)" by (rule fstep.check)
  then show ?thesis using True by (intro exI [of _ "writer_check s"]) (auto simp: writer_check_def)
qed (intro exI [of _ s], simp)

lemma lift_run:
  assumes "jstep\<^sup>*\<^sup>* (fs_sys s) u" "\<not> fs_check s"
  shows "\<exists>s'. (fstep se sp)\<^sup>*\<^sup>* s s' \<and> fs_sys s' = u \<and> fs_call s' = fs_call s \<and> fs_present s' = fs_present s \<and> \<not> fs_check s'"
  using assms
proof (induction rule: rtranclp_induct)
  case base
  then show ?case by blast
next
  case (step u u')
  then obtain s1 where s1: "(fstep se sp)\<^sup>*\<^sup>* s s1" "fs_sys s1 = u" "fs_call s1 = fs_call s" "fs_present s1 = fs_present s" "\<not> fs_check s1" by blast
  have "fstep se sp s1 (journal_moves u' s1)" using step(2) s1(2,5) by (intro fstep.journal) simp_all
  moreover obtain s2 where s2: "(fstep se sp)\<^sup>*\<^sup>* (journal_moves u' s1) s2" "fs_sys s2 = u'" "fs_call s2 = fs_call s1"
    "fs_present s2 = fs_present s1" "\<not> fs_check s2"
    using uncheck [of se sp "journal_moves u' s1"] by (auto simp: journal_moves_def)
  ultimately have "(fstep se sp)\<^sup>*\<^sup>* s s2" using s1(1) by (meson rtranclp.rtrancl_into_rtrancl rtranclp_trans)
  then show ?case using s1(3,4) s2 by auto
qed

lemma lift_writer:
  "writer_step\<^sup>*\<^sup>* (fs_sys s) u \<Longrightarrow> \<not> fs_check s \<Longrightarrow>
   \<exists>s'. (fstep se sp)\<^sup>*\<^sup>* s s' \<and> fs_sys s' = u \<and> fs_call s' = fs_call s \<and> \<not> fs_check s'"
  using lift_run [of s u se sp] writer_steps [of "fs_sys s" u] by blast

lemma writer_stays_stopped: "writer_step\<^sup>*\<^sup>* u u' \<Longrightarrow> jinv base u \<Longrightarrow> \<not> jn_running (js_journal u) \<Longrightarrow> \<not> jn_running (js_journal u')"
proof (induction rule: rtranclp_induct)
  case (step y z)
  have "jinv base y" using writer_steps [OF step(1)] jsteps_inv step(4) by blast
  then show ?case using step jstep_effect(3) by (auto simp: writer_step_def)
qed

text \<open>A healthy writer brings the count of written records to every number awaited.\<close>

lemma target_reached:
  assumes I: "finv base s" and h: "jn_healthy (fs_journal s)" "js_writer (fs_sys s) \<noteq> W_Exit" "\<not> fs_check s"
    and small: "length (js_accepted (fs_sys s)) < 2 ^ 64"
  obtains s' where "(fstep se sp)\<^sup>*\<^sup>* s s'" "fs_call s' = fs_call s" "\<not> fs_check s'" "js_writer (fs_sys s') = W_Wait"
    "jr_contents (jn_ring (fs_journal s')) = []"
    "\<And>t. awaits (fs_call s i) = Some t \<Longrightarrow> waitUntilWritten t (fs_journal s') \<noteq> None"
    "\<not> jn_running (fs_journal s) \<Longrightarrow> \<not> jn_running (fs_journal s')"
proof -
  obtain u where u: "writer_step\<^sup>*\<^sup>* (fs_sys s) u" "jn_healthy (js_journal u)" "js_writer u = W_Wait" "jr_contents (jn_ring (js_journal u)) = []"
    using writer_drains [OF finvD(1) [OF I] h(1,2)] by blast
  note S = writer_steps [OF u(1)]
  have J: "jinv base u" using S jsteps_inv finvD(1) [OF I] by blast
  then obtain lost torn where "accounted base lost torn u" by (rule jinvD)
  then have "js_done u = js_accepted u" using u by (auto simp: accounted_def)
  then have w: "jn_written (js_journal u) = of_nat (length (js_accepted (fs_sys s)))" using J u(3) S by (simp add: jinv_def)
  obtain s' where s': "(fstep se sp)\<^sup>*\<^sup>* s s'" "fs_sys s' = u" "fs_call s' = fs_call s" "\<not> fs_check s'"
    using lift_writer [OF u(1) h(3)] by blast
  have "waitUntilWritten t (js_journal u) \<noteq> None" if t: "awaits (fs_call s i) = Some t" for t
  proof -
    obtain n where n: "n \<le> queued_count (fs_sys s)" "t = of_nat n" using finvD(5) [OF I t] by blast
    then have "n \<le> length (js_accepted (fs_sys s))" by (simp add: queued_count_def split: if_splits)
    then have "t \<le> jn_written (js_journal u)" using small n(2) w by (simp add: word_le_nat_alt unat_of_nat)
    then show ?thesis by (simp add: waitUntilWritten_def)
  qed
  then show thesis using that s' u writer_stays_stopped [OF u(1) finvD(1) [OF I]] by blast
qed

lemma test_returns:
  assumes "fs_call s i = Fl_Test t" "waitUntilWritten t (fs_journal s) \<noteq> None"
  shows "\<exists>s' r. (fstep se sp)\<^sup>*\<^sup>* s s' \<and> fs_call s' i = Fl_Back r"
proof -
  obtain r where r: "waitUntilWritten t (fs_journal s) = Some r" using assms(2) by blast
  let ?s1 = "flush_test i t s"
  have "fstep se sp s ?s1" by (rule fstep.test [OF assms(1)])
  moreover have "fstep se sp ?s1 (flush_clear i r ?s1)" using r by (intro fstep.clear) (simp add: flush_test_def)
  ultimately have "(fstep se sp)\<^sup>*\<^sup>* s (flush_clear i r ?s1)" by (meson converse_rtranclp_into_rtranclp r_into_rtranclp)
  then show ?thesis by (intro exI [of _ "flush_clear i r ?s1"] exI [of _ r]) (simp add: flush_clear_def)
qed

lemma owed_returns:
  assumes "fs_call s i = Fl_Parked t" "waitUntilWritten t (fs_journal s) \<noteq> None" "0 < fs_owed s"
  shows "\<exists>s' r. (fstep se sp)\<^sup>*\<^sup>* s s' \<and> fs_call s' i = Fl_Back r"
proof -
  have n: "fstep se sp s (notifyFlush s)" by (rule fstep.notify [OF assms(3)])
  have "fs_call (notifyFlush s) i = Fl_Test t" "fs_sys (notifyFlush s) = fs_sys s" using assms(1) by (simp_all add: notifyFlush_def)
  then show ?thesis using test_returns [of "notifyFlush s" i t se sp] assms(2) n by (metis converse_rtranclp_into_rtranclp)
qed

text \<open>A writer that was told to stop leaves its loop when the ring is empty, and notifies.\<close>

lemma stopped_returns:
  assumes pk: "fs_call s i = Fl_Parked t" and w: "js_writer (fs_sys s) = W_Wait" "jr_contents (jn_ring (fs_journal s)) = []" "\<not> fs_check s"
    and r: "\<not> jn_running (fs_journal s)"
  shows "\<exists>s' r. (fstep se sp)\<^sup>*\<^sup>* s s' \<and> fs_call s' i = Fl_Back r"
proof -
  let ?u = "(fs_sys s)\<lparr>js_writer := W_Exit\<rparr>"
  let ?s1 = "journal_moves ?u s"
  have "jstep (fs_sys s) ?u" using w r by (intro jstep.wake) (simp_all add: writer_wake_def jr_empty_contents)
  then have st: "fstep se sp s ?s1" using w(3) by (intro fstep.journal) simp_all
  have "fs_call ?s1 i = Fl_Parked t" "waitUntilWritten t (fs_journal ?s1) \<noteq> None" "0 < fs_owed ?s1"
    using pk w(1) r by (simp_all add: journal_moves_def owes_def waitUntilWritten_def)
  from owed_returns [OF this] show ?thesis using st by (metis converse_rtranclp_into_rtranclp)
qed

lemma steps_then: "r\<^sup>*\<^sup>* s s1 \<Longrightarrow> \<exists>s' x. r\<^sup>*\<^sup>* s1 s' \<and> P s' x \<Longrightarrow> \<exists>s' x. r\<^sup>*\<^sup>* s s' \<and> P s' x"
  by (meson rtranclp_trans)

lemma unheard:
  "waitUntilWritten t (fs_journal s) = None \<Longrightarrow> finv base s \<Longrightarrow> jn_healthy (fs_journal s) \<and> jn_running (fs_journal s) \<and> js_writer (fs_sys s) \<noteq> W_Exit"
  using finvD(2) [of base s] by (auto simp: waitUntilWritten_def split: if_splits)

lemma parked_returns:
  assumes I: "finv base s" and small: "length (js_accepted (fs_sys s)) < 2 ^ 64" and pk: "fs_call s i = Fl_Parked t"
  shows "\<exists>s' r. (fstep True False)\<^sup>*\<^sup>* s s' \<and> fs_call s' i = Fl_Back r"
proof -
  obtain s0 where s0: "(fstep True False)\<^sup>*\<^sup>* s s0" "fs_sys s0 = fs_sys s" "fs_call s0 = fs_call s" "\<not> fs_check s0"
    "fs_owed s0 = fs_owed s + (if fs_check s \<and> fs_present s then 1 else 0)"
    using uncheck by blast
  have I0: "finv base s0" using fsteps_inv [OF s0(1) I] .
  have pk0: "fs_call s0 i = Fl_Parked t" "awaits (fs_call s0 i) = Some t" using pk s0(3) by simp_all
  have "\<exists>s' r. (fstep True False)\<^sup>*\<^sup>* s0 s' \<and> fs_call s' i = Fl_Back r"
  proof (cases "waitUntilWritten t (fs_journal s0) \<noteq> None \<and> 0 < fs_owed s0")
    case True
    then show ?thesis using owed_returns [OF pk0(1)] by blast
  next
    case False
    then have h: "jn_healthy (fs_journal s0)" "js_writer (fs_sys s0) \<noteq> W_Exit"
      using unheard [OF _ I0, of t] finvD(6) [OF I0 pk0(1)] s0(4)
      by (cases "waitUntilWritten t (fs_journal s0)"; auto simp: remembered_def)+
    have sm: "length (js_accepted (fs_sys s0)) < 2 ^ 64" using small s0(2) by simp
    obtain s1 where s1: "(fstep True False)\<^sup>*\<^sup>* s0 s1" "fs_call s1 = fs_call s0" "\<not> fs_check s1" "js_writer (fs_sys s1) = W_Wait"
      "jr_contents (jn_ring (fs_journal s1)) = []" "waitUntilWritten t (fs_journal s1) \<noteq> None"
      using target_reached [OF I0 h s0(4) sm, where i = i and se = True and sp = False] pk0(2) by metis
    have pk1: "fs_call s1 i = Fl_Parked t" using s1(2) pk0(1) by simp
    have "remembered s1" using finvD(6) [OF fsteps_inv [OF s1(1) I0] pk1 s1(6)] .
    then have "\<exists>s' r. (fstep True False)\<^sup>*\<^sup>* s1 s' \<and> fs_call s' i = Fl_Back r"
      using owed_returns [OF pk1 s1(6)] stopped_returns [OF pk1 s1(4,5,3)] s1(3) unfolding remembered_def by blast
    then show ?thesis using s1(1) by (rule steps_then [rotated])
  qed
  then show ?thesis using s0(1) by (rule steps_then [rotated])
qed

lemma testing_returns:
  assumes I: "finv base s" and small: "length (js_accepted (fs_sys s)) < 2 ^ 64" and pc: "fs_call s i = Fl_Test t"
  shows "\<exists>s' r. (fstep True False)\<^sup>*\<^sup>* s s' \<and> fs_call s' i = Fl_Back r"
proof (cases "waitUntilWritten t (fs_journal s) = None")
  case True
  let ?s1 = "flush_test i t s"
  have st: "fstep True False s ?s1" by (rule fstep.test [OF pc])
  have pk: "fs_call ?s1 i = Fl_Parked t" "fs_sys ?s1 = fs_sys s" using True by (simp_all add: flush_test_def)
  have "length (js_accepted (fs_sys ?s1)) < 2 ^ 64" using small pk(2) by simp
  from parked_returns [OF fstep_inv [OF st I] this pk(1)] show ?thesis using st by (metis converse_rtranclp_into_rtranclp)
qed (use test_returns [OF pc] in blast)

text \<open>
  C28. A \<open>flush\<close> always returns. As long as no two calls of \<open>flush\<close> overlap, from every reachable state and whatever happened before, failures
  and \<open>stop\<close> included, a call in progress has a run of the writer, of the notifications already due and of itself to its return, in
  which the writer's system calls succeed: the flag the writer looks at never hides a waiting caller, so no wake-up is lost. Spurious wake-ups
  may have happened on the way, but none is needed.
\<close>

theorem flush_returns:
  assumes "Journal v fl cap = Some (Inr j)" "(fstep True sp)\<^sup>*\<^sup>* (fstart j) s" "length (js_accepted (fs_sys s)) < 2 ^ 64"
    "\<not> returned (fs_call s i)"
  shows "(fs_call s i = Fl_Parked t \<longrightarrow> waitUntilWritten t (fs_journal s) \<noteq> None \<longrightarrow>
      0 < fs_owed s \<or> fs_check s \<and> fs_present s \<or> \<not> jn_running (fs_journal s) \<and> js_writer (fs_sys s) \<noteq> W_Exit) \<and>
    (\<exists>s' r. (fstep True False)\<^sup>*\<^sup>* s s' \<and> fs_call s' i = Fl_Back r)"
proof -
  have I: "finv (jn_file j) s" using fsteps_inv [OF assms(2) fstart_inv [OF assms(1)]] .
  have "\<exists>s' r. (fstep True False)\<^sup>*\<^sup>* s s' \<and> fs_call s' i = Fl_Back r"
  proof (cases "fs_call s i")
    case (Fl_Mark t)
    let ?s1 = "flush_mark i t s"
    have st: "fstep True False s ?s1" by (rule fstep.mark [OF Fl_Mark])
    have "length (js_accepted (fs_sys ?s1)) < 2 ^ 64" "fs_call ?s1 i = Fl_Test t" using assms(3) by (simp_all add: flush_mark_def)
    from testing_returns [OF fstep_inv [OF st I] this] show ?thesis using st by (metis converse_rtranclp_into_rtranclp)
  next
    case (Fl_Clear r)
    then have "fstep True False s (flush_clear i r s)" by (rule fstep.clear)
    then show ?thesis by (intro exI [of _ "flush_clear i r s"] exI [of _ r]) (auto simp: flush_clear_def)
  qed (use assms(4) testing_returns [OF I assms(3)] parked_returns [OF I assms(3)] in auto)
  moreover have "0 < fs_owed s \<or> fs_check s \<and> fs_present s \<or> \<not> jn_running (fs_journal s) \<and> js_writer (fs_sys s) \<noteq> W_Exit"
    if "fs_call s i = Fl_Parked t" "waitUntilWritten t (fs_journal s) \<noteq> None"
    using finvD(3) [OF I, of i] finvD(6) [OF I that] that(1) by (auto simp: remembered_def)
  ultimately show ?thesis by blast
qed

text \<open>A caller parked on the one record of \<open>ex_queued\<close>.\<close>

lemma ex_parked:
  obtains s where "(fstep True False)\<^sup>*\<^sup>* (fstart ex_journal) s" "fs_sys s = ex_queued" "fs_call s 0 = Fl_Parked 1"
proof -
  obtain s0 where s0: "(fstep True False)\<^sup>*\<^sup>* (fstart ex_journal) s0" "fs_sys s0 = ex_queued" "fs_call s0 = (\<lambda>_. Fl_Out)"
    using lift_run [of "fstart ex_journal" ex_queued True False] ex_queued_reach by (auto simp: fstart_def)
  let ?s1 = "flush_enter 0 s0"
  let ?s2 = "flush_mark 0 1 ?s1"
  let ?s3 = "flush_test 0 1 ?s2"
  have q: "flush_begin (js_journal ex_queued) = Inr 1" "waitUntilWritten 1 (js_journal ex_queued) = None"
    by (simp_all add: ex_queued_def ex_pushed_def ex_journal_def count_queued_def flush_begin_def waitUntilWritten_def Let_def)
  have "fstep True False s0 ?s1" using s0(3) by (intro fstep.enter) simp_all
  moreover have "fstep True False ?s1 ?s2" using s0(2) q by (intro fstep.mark) (simp add: flush_enter_def)
  moreover have "fstep True False ?s2 ?s3" by (intro fstep.test) (simp add: flush_mark_def)
  ultimately have "(fstep True False)\<^sup>*\<^sup>* (fstart ex_journal) ?s3" using s0(1) by (meson rtranclp.rtrancl_into_rtrancl)
  moreover have "fs_sys ?s3 = ex_queued" "fs_call ?s3 0 = Fl_Parked 1"
    using s0(2) q by (simp_all add: flush_test_def flush_mark_def flush_enter_def)
  ultimately show thesis by (rule that)
qed

theorem flush_returns_witness:
  "\<exists>s s' r. (fstep True False)\<^sup>*\<^sup>* (fstart ex_journal) s \<and> fs_call s 0 = Fl_Parked 1 \<and> (fstep True False)\<^sup>*\<^sup>* s s' \<and> fs_call s' 0 = Fl_Back r"
proof -
  obtain s where s: "(fstep True False)\<^sup>*\<^sup>* (fstart ex_journal) s" "fs_sys s = ex_queued" "fs_call s 0 = Fl_Parked 1" by (rule ex_parked)
  have "length (js_accepted (fs_sys s)) < 2 ^ 64" by (simp add: s(2) ex_queued_def ex_pushed_def Let_def)
  then show ?thesis using flush_returns [OF ex_journal_new s(1), of 0 1] s by auto
qed

subsection \<open>Two callers\<close>

text \<open>
  A caller is forgotten: parked, its condition true, no notification due and none to come while nothing new happens.
\<close>

definition forgotten :: "nat \<Rightarrow> u64 \<Rightarrow> fsys \<Rightarrow> bool" where
  "forgotten i t s \<longleftrightarrow> fs_call s i = Fl_Parked t \<and> waitUntilWritten t (fs_journal s) = Some True \<and> fs_owed s = 0 \<and> \<not> fs_check s \<and>
     js_prod (fs_sys s) = P_Idle \<and> js_writer (fs_sys s) = W_Wait \<and> jr_empty (jn_ring (fs_journal s)) \<and>
     jn_healthy (fs_journal s) \<and> jn_running (fs_journal s)"

text \<open>The steps other than a new event, a failure or the end of the journal.\<close>

definition idle_step :: "fsys \<Rightarrow> fsys \<Rightarrow> bool" where
  "idle_step s s' \<longleftrightarrow> fstep False False s s' \<and> js_prod (fs_sys s') = P_Idle \<and> jn_healthy (fs_journal s') \<and> jn_running (fs_journal s')"

lemma idle_jstep:
  assumes "jstep u u'" "js_prod u = P_Idle" "js_writer u = W_Wait" "jr_empty (jn_ring (js_journal u))" "jn_running (js_journal u)"
    "js_prod u' = P_Idle"
  shows "js_writer u' = W_Wait \<and> jn_ring (js_journal u') = jn_ring (js_journal u) \<and> jn_written (js_journal u') = jn_written (js_journal u)"
  using assms by cases (auto simp: journal_step_defs split: if_splits)

lemma forgotten_step: "idle_step s s' \<Longrightarrow> forgotten i t s \<Longrightarrow> forgotten i t s'"
proof -
  assume st: "idle_step s s'" and F: "forgotten i t s"
  then have h: "js_prod (fs_sys s') = P_Idle" "jn_healthy (fs_journal s')" "jn_running (fs_journal s')" by (simp_all add: idle_step_def)
  from st have "fstep False False s s'" by (simp add: idle_step_def)
  then show ?thesis
  proof cases
    case (journal u)
    then have J: "js_writer u = W_Wait \<and> jn_ring (js_journal u) = jn_ring (fs_journal s) \<and> jn_written (js_journal u) = jn_written (fs_journal s)"
      using idle_jstep F h by (simp add: forgotten_def journal_moves_def)
    then show ?thesis using F h journal
      by (auto simp: forgotten_def journal_moves_def counts_def owes_def waitUntilWritten_def split: if_splits)
  qed (use F in \<open>auto simp: forgotten_def flush_enter_def flush_mark_def flush_test_def flush_clear_def\<close>)
qed

lemma forgotten_for_good: "forgotten i t s \<Longrightarrow> {s'. idle_step\<^sup>*\<^sup>* s s'} \<subseteq> {s'. fs_call s' i = Fl_Parked t}"
  using rtranclp_invariant [of idle_step s _ "forgotten i t"] forgotten_step by (fastforce simp: forgotten_def)

lemma writer_keeps:
  assumes "writer_step\<^sup>*\<^sup>* u u'" "jinv base u" "jn_healthy (js_journal u')"
  shows "jn_running (js_journal u') = jn_running (js_journal u) \<and> jn_healthy (js_journal u)"
  using assms(1,3)
proof (induction rule: rtranclp_induct)
  case (step y z)
  have J: "jinv base y" using writer_steps [OF step(1)] jsteps_inv assms(2) by blast
  have st: "jstep y z" "js_writer z \<noteq> js_writer y" using step(2) by (auto simp: writer_step_def)
  have hy: "jn_healthy (js_journal y)" using jstep_effect(2) [OF st(1) J] step(4) by blast
  from st(1) have "jn_running (js_journal z) = jn_running (js_journal y)"
    using st(2) step(4)
    by cases (auto simp: journal_step_defs writer_count_def writer_write_def writeSerialized_def Let_def split: option.splits prod.splits if_splits)
  then show ?case using step(3) hy by simp
qed simp

text \<open>While the flag is down the writer's run leaves no notification behind.\<close>

lemma lift_unseen:
  assumes "writer_step\<^sup>*\<^sup>* (fs_sys s) u" "jinv base (fs_sys s)" "\<not> fs_check s" "\<not> fs_present s" "jn_healthy (js_journal u)" "js_writer u \<noteq> W_Exit"
  shows "\<exists>s'. (fstep se sp)\<^sup>*\<^sup>* s s' \<and> fs_sys s' = u \<and> fs_call s' = fs_call s \<and> \<not> fs_present s' \<and> \<not> fs_check s' \<and> fs_owed s' = fs_owed s"
  using assms(1,5,6)
proof (induction rule: rtranclp_induct)
  case base
  then show ?case using assms by blast
next
  case (step u u')
  have J: "jinv base u" using writer_steps [OF step(1)] jsteps_inv assms(2) by blast
  have st: "jstep u u'" "js_writer u' \<noteq> js_writer u" using step(2) by (auto simp: writer_step_def)
  have hy: "jn_healthy (js_journal u)" using jstep_effect(2) [OF st(1) J] step(4) by blast
  have "js_writer u \<noteq> W_Exit" using st by (auto elim: jstep.cases)
  then obtain s1 where s1: "(fstep se sp)\<^sup>*\<^sup>* s s1" "fs_sys s1 = u" "fs_call s1 = fs_call s" "\<not> fs_present s1" "\<not> fs_check s1" "fs_owed s1 = fs_owed s"
    using step(3) hy by blast
  have "\<not> owes u u'" using step(4,5) by (simp add: owes_def)
  moreover have "fstep se sp s1 (journal_moves u' s1)" using st(1) s1(2,5) by (intro fstep.journal) simp_all
  moreover obtain s2 where s2: "(fstep se sp)\<^sup>*\<^sup>* (journal_moves u' s1) s2" "fs_sys s2 = u'" "fs_call s2 = fs_call s1"
    "\<not> fs_present s2" "\<not> fs_check s2" "fs_owed s2 = fs_owed (journal_moves u' s1)"
    using uncheck [of se sp "journal_moves u' s1"] s1(4) by (auto simp: journal_moves_def)
  ultimately have "(fstep se sp)\<^sup>*\<^sup>* s s2" "fs_owed s2 = fs_owed s"
    using s1 by (auto simp: journal_moves_def dest: rtranclp.rtrancl_into_rtrancl rtranclp_trans)
  then show ?case using s1(3) s2 by auto
qed

lemma pay_all:
  "(\<And>i. woken (fs_call s i) = fs_call s i) \<Longrightarrow> \<exists>s'. (fstep se sp)\<^sup>*\<^sup>* s s' \<and> fs_sys s' = fs_sys s \<and> fs_call s' = fs_call s \<and>
     fs_present s' = fs_present s \<and> fs_check s' = fs_check s \<and> fs_owed s' = 0"
proof (induction "fs_owed s" arbitrary: s)
  case 0
  then show ?case by (intro exI [of _ s]) simp
next
  case (Suc n)
  have call: "fs_call (notifyFlush s) = fs_call s" using Suc(3) by (simp add: notifyFlush_def fun_eq_iff)
  have "fstep se sp s (notifyFlush s)" using Suc(2) by (intro fstep.notify) simp
  moreover have n: "n = fs_owed (notifyFlush s)" "fs_sys (notifyFlush s) = fs_sys s" "fs_present (notifyFlush s) = fs_present s"
    "fs_check (notifyFlush s) = fs_check s"
    using Suc(2) [symmetric] by (simp_all add: notifyFlush_def)
  moreover obtain s' where "(fstep se sp)\<^sup>*\<^sup>* (notifyFlush s) s'" "fs_sys s' = fs_sys s" "fs_call s' = fs_call s"
    "fs_present s' = fs_present s" "fs_check s' = fs_check s" "fs_owed s' = 0"
    using Suc(1) [OF n(1)] Suc(3) call n(2-4) by auto
  ultimately show ?case by (meson converse_rtranclp_into_rtranclp)
qed

lemma enqueue_run:
  assumes I: "jinv base u" and u: "js_prod u = P_Idle" "jr_contents (jn_ring (js_journal u)) = []" "jn_healthy (js_journal u)" "jn_running (js_journal u)"
    and ev: "serialize ev = Some bytes"
  obtains u' where "jstep\<^sup>*\<^sup>* u u'" "js_prod u' = P_Idle" "js_writer u' = js_writer u" "jn_healthy (js_journal u')" "jn_running (js_journal u')"
    "jn_written (js_journal u') = jn_written (js_journal u)" "length (js_accepted u') = Suc (length (js_accepted u))"
proof -
  let ?j = "js_journal u"
  have wf: "jr_wf (jn_ring ?j)" using I by (simp add: jinv_def)
  have b: "bytes \<noteq> []" "length bytes \<le> kMaxRecordSize" using valid_length [OF serialize_valid [OF ev]] by auto
  have "jr_head (jn_ring ?j) - jr_tail (jn_ring ?j) = 0" using u(2) by (simp add: jr_contents_def jr_window_def ring_list_def unat_eq_zero)
  then have "\<not> jr_capacity (jn_ring ?j) \<le> jr_head (jn_ring ?j) - jr_tail (jn_ring ?j)" using wf by (simp add: jr_wf_def)
  then obtain ring where r: "tryPush (Some bytes) (jn_ring ?j) = (Ok, ring)" using tryPush_ok [OF wf b] by blast
  let ?u1 = "u\<lparr>js_prod := P_Checked bytes\<rparr>"
  let ?u2 = "?u1\<lparr>js_journal := ?j\<lparr>jn_ring := ring\<rparr>, js_prod := P_Pushed, js_accepted := js_accepted u @ [bytes]\<rparr>"
  let ?u3 = "?u2\<lparr>js_journal := count_queued (js_journal ?u2), js_prod := P_Idle\<rparr>"
  have "jstep u ?u1" by (rule jstep.check [OF u(1) ev u(3,4)])
  moreover have "jstep ?u1 ?u2" using jstep.push [of ?u1 bytes ring] r by simp
  moreover have "jstep ?u2 ?u3" by (rule jstep.count) simp
  ultimately have "jstep\<^sup>*\<^sup>* u ?u3" by (meson converse_rtranclp_into_rtranclp r_into_rtranclp)
  then show thesis using u by (intro that [of ?u3]) (simp_all add: count_queued_def)
qed

text \<open>Drained: everything accepted is written and counted.\<close>

lemma drained_counts:
  assumes "jinv base u" "js_prod u = P_Idle" "js_writer u = W_Wait" "jr_contents (jn_ring (js_journal u)) = []" "jn_healthy (js_journal u)"
  shows "jn_written (js_journal u) = of_nat (length (js_accepted u))" "jn_queued (js_journal u) = of_nat (length (js_accepted u))"
proof -
  obtain lost torn where "accounted base lost torn u" using assms(1) by (rule jinvD)
  then have "js_done u = js_accepted u" using assms(3-5) by (auto simp: accounted_def)
  then show "jn_written (js_journal u) = of_nat (length (js_accepted u))" "jn_queued (js_journal u) = of_nat (length (js_accepted u))"
    using assms by (simp_all add: jinv_def)
qed

lemma queued_counts: "jinv base u \<Longrightarrow> js_prod u = P_Idle \<Longrightarrow> jn_queued (js_journal u) = of_nat (length (js_accepted u))"
  by (simp add: jinv_def)

text \<open>The first caller has seen its record written and is about to lower the flag; nothing is queued.\<close>

lemma ex_leaving:
  obtains s where "(fstep False False)\<^sup>*\<^sup>* (fstart ex_journal) s" "jinv (jn_file ex_journal) (fs_sys s)" "fs_call s = (\<lambda>_. Fl_Out)(0 := Fl_Clear True)"
    "\<not> fs_check s" "js_prod (fs_sys s) = P_Idle" "js_writer (fs_sys s) = W_Wait" "jr_contents (jn_ring (fs_journal s)) = []"
    "jn_healthy (fs_journal s)" "jn_running (fs_journal s)" "length (js_accepted (fs_sys s)) = 1"
proof -
  note I0 = Journal_start(3) [OF ex_journal_new]
  have I: "jinv (jn_file ex_journal) ex_queued" using jsteps_inv [OF ex_queued_reach I0] .
  have q: "flush_begin (js_journal ex_queued) = Inr 1" "jn_healthy (js_journal ex_queued)" "jn_running (js_journal ex_queued)"
    "js_writer ex_queued \<noteq> W_Exit" "js_prod ex_queued = P_Idle" "length (js_accepted ex_queued) = 1"
    by (simp_all add: ex_queued_def ex_pushed_def ex_journal_def jstart_def count_queued_def flush_begin_def Let_def)
  obtain s0 where s0: "(fstep False False)\<^sup>*\<^sup>* (fstart ex_journal) s0" "fs_sys s0 = ex_queued" "fs_call s0 = (\<lambda>_. Fl_Out)" "\<not> fs_check s0"
    using lift_run [of "fstart ex_journal" ex_queued False False] ex_queued_reach by (auto simp: fstart_def)
  let ?s1 = "flush_enter 0 s0"
  let ?s2 = "flush_mark 0 1 ?s1"
  have "fstep False False s0 ?s1" using s0(3) by (intro fstep.enter) simp_all
  moreover have "fstep False False ?s1 ?s2" using s0(2) q(1) by (intro fstep.mark) (simp add: flush_enter_def)
  ultimately have r2: "(fstep False False)\<^sup>*\<^sup>* (fstart ex_journal) ?s2" using s0(1) by (meson rtranclp.rtrancl_into_rtrancl)
  have s2: "fs_sys ?s2 = ex_queued" "fs_call ?s2 = (\<lambda>_. Fl_Out)(0 := Fl_Test 1)" "\<not> fs_check ?s2"
    using s0 by (simp_all add: flush_mark_def flush_enter_def)
  obtain u where u: "writer_step\<^sup>*\<^sup>* ex_queued u" "jn_healthy (js_journal u)" "js_writer u = W_Wait" "jr_contents (jn_ring (js_journal u)) = []"
    using writer_drains [OF I q(2,4)] by blast
  note S = writer_steps [OF u(1)]
  have J: "jinv (jn_file ex_journal) u" using S jsteps_inv I by blast
  have run: "jn_running (js_journal u)" using writer_keeps [OF u(1) I u(2)] q(3) by simp
  obtain s3 where s3: "(fstep False False)\<^sup>*\<^sup>* ?s2 s3" "fs_sys s3 = u" "fs_call s3 = fs_call ?s2" "\<not> fs_check s3"
    using lift_writer [of ?s2 u False False] u(1) s2 by auto
  let ?s4 = "flush_test 0 1 s3"
  have p3: "fs_call s3 0 = Fl_Test 1" using s3(3) s2(2) by simp
  have "waitUntilWritten 1 (js_journal u) = Some True"
    using drained_counts(1) [OF J _ u(3,4,2)] S q(5,6) u(2) by (simp add: waitUntilWritten_def)
  then have "fs_call ?s4 = (\<lambda>_. Fl_Out)(0 := Fl_Clear True)" using s3(2,3) s2(2) by (simp add: flush_test_def fun_eq_iff)
  moreover have "(fstep False False)\<^sup>*\<^sup>* (fstart ex_journal) ?s4"
    using r2 s3(1) fstep.test [OF p3] by (meson rtranclp.rtrancl_into_rtrancl rtranclp_trans)
  moreover have "fs_sys ?s4 = u" "\<not> fs_check ?s4" using s3 by (simp_all add: flush_test_def)
  ultimately show thesis using that [of ?s4] J S q u run by simp
qed

text \<open>The second caller has parked on the next record, and the first has lowered the flag.\<close>

lemma ex_flag_lowered:
  obtains s where "(fstep False False)\<^sup>*\<^sup>* (fstart ex_journal) s" "jinv (jn_file ex_journal) (fs_sys s)" "fs_call s 1 = Fl_Parked 2"
    "\<not> fs_check s" "\<not> fs_present s" "fs_owed s = 0" "js_prod (fs_sys s) = P_Idle" "js_writer (fs_sys s) = W_Wait"
    "jn_healthy (fs_journal s)" "jn_running (fs_journal s)" "length (js_accepted (fs_sys s)) = 2"
proof -
  obtain s where s: "(fstep False False)\<^sup>*\<^sup>* (fstart ex_journal) s" "jinv (jn_file ex_journal) (fs_sys s)" "fs_call s = (\<lambda>_. Fl_Out)(0 := Fl_Clear True)"
    "\<not> fs_check s" "js_prod (fs_sys s) = P_Idle" "js_writer (fs_sys s) = W_Wait" "jr_contents (jn_ring (fs_journal s)) = []"
    "jn_healthy (fs_journal s)" "jn_running (fs_journal s)" "length (js_accepted (fs_sys s)) = 1" by (rule ex_leaving)
  have w: "jn_written (fs_journal s) = 1" using drained_counts(1) [OF s(2,5-8)] s(10) by simp
  obtain bytes where "serialize ex_event = Some bytes" by (simp add: ex_event_def)
  then obtain u where u: "jstep\<^sup>*\<^sup>* (fs_sys s) u" "js_prod u = P_Idle" "js_writer u = W_Wait" "jn_healthy (js_journal u)" "jn_running (js_journal u)"
    "jn_written (js_journal u) = 1" "length (js_accepted u) = 2"
    using enqueue_run [OF s(2,5,7,8,9)] s(6,10) w by (metis One_nat_def Suc_1)
  have J: "jinv (jn_file ex_journal) u" using jsteps_inv [OF u(1) s(2)] .
  obtain s1 where s1: "(fstep False False)\<^sup>*\<^sup>* s s1" "fs_sys s1 = u" "fs_call s1 = fs_call s" "\<not> fs_check s1"
    using lift_run [OF u(1) s(4)] by blast
  obtain s2 where s2: "(fstep False False)\<^sup>*\<^sup>* s1 s2" "fs_sys s2 = u" "fs_call s2 = fs_call s" "\<not> fs_check s2" "fs_owed s2 = 0"
  proof -
    have "woken (fs_call s1 i) = fs_call s1 i" for i using s1(3) s(3) by simp
    then show thesis using pay_all [of s1 False False] s1(2-4) that by auto
  qed
  have q: "flush_begin (js_journal u) = Inr 2" "waitUntilWritten 2 (js_journal u) = None"
    using queued_counts [OF J u(2)] u(4-7) by (simp_all add: flush_begin_def waitUntilWritten_def Let_def word_le_nat_alt)
  let ?s3 = "flush_enter 1 s2"
  let ?s4 = "flush_mark 1 2 ?s3"
  let ?s5 = "flush_test 1 2 ?s4"
  let ?s6 = "flush_clear 0 True ?s5"
  have c: "fs_call s2 1 = Fl_Out" "fs_call s2 0 = Fl_Clear True" using s2(3) s(3) by simp_all
  have "fstep False False s2 ?s3" using c by (intro fstep.enter) simp_all
  moreover have "fstep False False ?s3 ?s4" using s2(2) q by (intro fstep.mark) (simp add: flush_enter_def)
  moreover have "fstep False False ?s4 ?s5" by (intro fstep.test) (simp add: flush_mark_def)
  moreover have "fstep False False ?s5 ?s6" using c by (intro fstep.clear) (simp add: flush_test_def flush_mark_def flush_enter_def)
  ultimately have "(fstep False False)\<^sup>*\<^sup>* s2 ?s6" by (meson converse_rtranclp_into_rtranclp r_into_rtranclp)
  then have "(fstep False False)\<^sup>*\<^sup>* (fstart ex_journal) ?s6" using s(1) s1(1) s2(1) by (meson rtranclp_trans)
  moreover have "fs_sys ?s6 = u" "fs_call ?s6 1 = Fl_Parked 2" "\<not> fs_check ?s6" "\<not> fs_present ?s6" "fs_owed ?s6 = 0"
    using s2 q(2) by (simp_all add: flush_clear_def flush_test_def flush_mark_def flush_enter_def)
  ultimately show thesis using that [of ?s6] J u by simp
qed

lemma ex_forgotten: "\<exists>s. (fstep False False)\<^sup>*\<^sup>* (fstart ex_journal) s \<and> forgotten 1 2 s"
proof -
  obtain s where s: "(fstep False False)\<^sup>*\<^sup>* (fstart ex_journal) s" "jinv (jn_file ex_journal) (fs_sys s)" "fs_call s 1 = Fl_Parked 2"
    "\<not> fs_check s" "\<not> fs_present s" "fs_owed s = 0" "js_prod (fs_sys s) = P_Idle" "js_writer (fs_sys s) = W_Wait"
    "jn_healthy (fs_journal s)" "jn_running (fs_journal s)" "length (js_accepted (fs_sys s)) = 2" by (rule ex_flag_lowered)
  obtain u where u: "writer_step\<^sup>*\<^sup>* (fs_sys s) u" "jn_healthy (js_journal u)" "js_writer u = W_Wait" "jr_contents (jn_ring (js_journal u)) = []"
    using writer_drains [OF s(2,9)] s(8) by auto
  note S = writer_steps [OF u(1)]
  have J: "jinv (jn_file ex_journal) u" using S jsteps_inv s(2) by blast
  have run: "jn_running (js_journal u)" using writer_keeps [OF u(1) s(2) u(2)] s(10) by simp
  have "jn_written (js_journal u) = 2" using drained_counts(1) [OF J _ u(3,4,2)] S s(7,11) by simp
  then have w: "waitUntilWritten 2 (js_journal u) = Some True" using u(2) by (simp add: waitUntilWritten_def)
  obtain s' where s': "(fstep False False)\<^sup>*\<^sup>* s s'" "fs_sys s' = u" "fs_call s' = fs_call s" "\<not> fs_check s'" "fs_owed s' = fs_owed s"
    using lift_unseen [OF u(1) s(2,4,5) u(2), of False False] u(3) by auto
  have "forgotten 1 2 s'" using s s' u S run w by (simp add: forgotten_def jr_empty_contents)
  then show ?thesis using s(1) s'(1) by (meson rtranclp_trans)
qed

text \<open>
  C39. Two overlapping calls of \<open>flush\<close> can lose a wake-up. The flag \<open>flush_waiter_present_\<close> is one for all callers: the
  first one lowers it as it returns, and the writer, which has just written the record the second is parked on, finds it down and
  notifies nobody. The second caller stays parked with its condition true, for as long as no further event, failure or
  shutdown occurs; only a spurious wake-up could help it.
\<close>

theorem flush_lost_wakeup:
  "\<exists>s. (fstep False False)\<^sup>*\<^sup>* (fstart ex_journal) s \<and> fs_call s 1 = Fl_Parked 2 \<and>
     waitUntilWritten 2 (fs_journal s) = Some True \<and> {s'. idle_step\<^sup>*\<^sup>* s s'} \<subseteq> {s'. fs_call s' 1 = Fl_Parked 2}"
proof -
  obtain s where s: "(fstep False False)\<^sup>*\<^sup>* (fstart ex_journal) s" "forgotten 1 2 s" using ex_forgotten by blast
  then show ?thesis using forgotten_for_good [OF s(2)] by (intro exI [of _ s]) (simp add: forgotten_def)
qed

end
