(* ===== verification/Journal_Queue.thy ===== *)
theory Journal_Queue
  imports Journal_Threads
begin

text \<open>
  The writer's wait for work (\<open>writerThread\<close>, \<open>enqueueSerialized\<close>, \<open>failStop\<close>, \<open>notifyQueue\<close> and the destructor in \<open>src/Journal.cpp\<close>). The
  condition variable \<open>queue_cv_\<close> is added to the threads of \<open>Journal_Threads\<close>: a writer that finds nothing to do parks and stays
  parked until \<open>queue_cv_\<close> is notified (or wakes it spuriously), however full the ring has become meanwhile. The notification of
  \<open>enqueueSerialized\<close> comes after the push, that of the destructor after \<open>running_\<close> was lowered.
\<close>

section \<open>Definitions\<close>

text \<open>\<open>qs_owed\<close> counts the calls of \<open>notifyQueue\<close> that a thread has come to and not yet made.\<close>

record qsys =
  qs_sys :: jsys
  qs_parked :: bool
  qs_owed :: nat

abbreviation qs_journal :: "qsys \<Rightarrow> journal" where
  "qs_journal s \<equiv> js_journal (qs_sys s)"

definition qstart :: "journal \<Rightarrow> qsys" where
  "qstart j = \<lparr>qs_sys = jstart j, qs_parked = False, qs_owed = 0\<rparr>"

text \<open>
  \<open>enqueueSerialized\<close> ends with a notification made under the lock: after the count of a record that was pushed, or in \<open>failStop\<close>. Lowering
  \<open>running_\<close> in the destructor is followed by \<open>notifyQueue\<close>.
\<close>

definition enqueue_ends :: "jsys \<Rightarrow> jsys \<Rightarrow> bool" where
  "enqueue_ends u u' \<longleftrightarrow> js_prod u \<noteq> P_Idle \<and> js_prod u' = P_Idle"

definition stop_begins :: "jsys \<Rightarrow> jsys \<Rightarrow> bool" where
  "stop_begins u u' \<longleftrightarrow> jn_running (js_journal u) \<and> \<not> jn_running (js_journal u') \<and> js_prod u' = js_prod u \<and> js_writer u' = js_writer u"

definition queue_moves :: "jsys \<Rightarrow> qsys \<Rightarrow> qsys" where
  "queue_moves u s = s\<lparr>qs_sys := u, qs_parked := (qs_parked s \<and> \<not> enqueue_ends (qs_sys s) u),
     qs_owed := qs_owed s + (if stop_begins (qs_sys s) u then 1 else 0)\<rparr>"

definition notifyQueue :: "qsys \<Rightarrow> qsys" where
  "notifyQueue s = s\<lparr>qs_parked := False, qs_owed := qs_owed s - 1\<rparr>"

definition writer_park :: "qsys \<Rightarrow> qsys option" where
  "writer_park s = (if writer_wake (qs_journal s) = None then Some (s\<lparr>qs_parked := True\<rparr>) else None)"

inductive qstep :: "qsys \<Rightarrow> qsys \<Rightarrow> bool" where
  journal: "jstep (qs_sys s) u \<Longrightarrow> (qs_parked s \<longrightarrow> js_writer u = js_writer (qs_sys s)) \<Longrightarrow> qstep s (queue_moves u s)"
| park: "js_writer (qs_sys s) = W_Wait \<Longrightarrow> writer_park s = Some s' \<Longrightarrow> qstep s s'"
| notify: "0 < qs_owed s \<Longrightarrow> qstep s (notifyQueue s)"
| spurious: "qs_parked s \<Longrightarrow> qstep s (s\<lparr>qs_parked := False\<rparr>)"

text \<open>The writer at work, its writes and syncs succeeding.\<close>

inductive writes_well :: "jsys \<Rightarrow> jsys \<Rightarrow> bool" where
  wake: "js_writer u = W_Wait \<Longrightarrow> writer_wake (js_journal u) = Some W_Pop \<Longrightarrow> writes_well u (u\<lparr>js_writer := W_Pop\<rparr>)"
| pop: "js_writer u = W_Pop \<Longrightarrow> writer_pop (js_journal u) = (pc, j) \<Longrightarrow> writes_well u (u\<lparr>js_journal := j, js_writer := pc\<rparr>)"
| put: "js_writer u = W_Popped bytes \<Longrightarrow> writer_write ios sync_ok bytes (js_journal u) = Some (W_Written seq, j) \<Longrightarrow>
    writes_well u (u\<lparr>js_journal := j, js_writer := W_Written seq, js_done := js_done u @ [bytes]\<rparr>)"
| count: "js_writer u = W_Written seq \<Longrightarrow> writes_well u (u\<lparr>js_journal := writer_count seq (js_journal u), js_writer := W_Wait\<rparr>)"

definition writer_good :: "qsys \<Rightarrow> qsys \<Rightarrow> bool" where
  "writer_good s s' \<longleftrightarrow> \<not> qs_parked s \<and> (\<exists>u. writes_well (qs_sys s) u \<and> s' = queue_moves u s)"

section \<open>Lemmas\<close>

subsection \<open>No lost wake-up\<close>

text \<open>A parked writer has nothing to do, or a notification is on its way.\<close>

definition qinv :: "u8 list \<Rightarrow> qsys \<Rightarrow> bool" where
  "qinv base s \<longleftrightarrow> jinv base (qs_sys s) \<and>
     (qs_parked s \<longrightarrow> js_writer (qs_sys s) = W_Wait \<and> (jr_empty (jn_ring (qs_journal s)) \<or> js_prod (qs_sys s) = P_Pushed) \<and>
       (jn_running (qs_journal s) \<or> 0 < qs_owed s))"

text \<open>What a step of another thread than the writer does to a writer's wait.\<close>

lemma jstep_wait:
  assumes "jstep u u'" "js_writer u = W_Wait" "js_writer u' = W_Wait" "jr_empty (jn_ring (js_journal u)) \<or> js_prod u = P_Pushed"
  shows "enqueue_ends u u' \<or> (jr_empty (jn_ring (js_journal u')) \<or> js_prod u' = P_Pushed) \<and>
    (jn_running (js_journal u) \<longrightarrow> jn_running (js_journal u') \<or> stop_begins u u')"
  using assms
  by (cases rule: jstep.cases)
    (auto simp: enqueue_ends_def stop_begins_def setSyncPolicy_def stop_writer_def sync_end_def doFdatasync_def close_file_def
      writer_wake_def split: if_splits)

lemma qstep_inv: "qstep s s' \<Longrightarrow> qinv base s \<Longrightarrow> qinv base s'"
proof (induction rule: qstep.induct)
  case (journal s u)
  have "jinv base u" using jstep_inv [OF journal(1)] journal(3) by (simp add: qinv_def)
  moreover have "js_writer u = W_Wait \<and> (jr_empty (jn_ring (js_journal u)) \<or> js_prod u = P_Pushed) \<and>
      (jn_running (js_journal u) \<or> 0 < qs_owed (queue_moves u s))" if p: "qs_parked s" "\<not> enqueue_ends (qs_sys s) u"
  proof -
    have w: "js_writer (qs_sys s) = W_Wait" "jr_empty (jn_ring (qs_journal s)) \<or> js_prod (qs_sys s) = P_Pushed"
      "jn_running (qs_journal s) \<or> 0 < qs_owed s"
      using journal(3) p(1) by (auto simp: qinv_def)
    show ?thesis using jstep_wait [OF journal(1) w(1) _ w(2)] journal(2) w p by (auto simp: queue_moves_def)
  qed
  ultimately show ?case by (simp add: qinv_def queue_moves_def)
next
  case (park s s')
  then show ?case by (auto simp: qinv_def writer_park_def writer_wake_def split: if_splits)
qed (simp_all add: qinv_def notifyQueue_def)

lemma reachable_qinv:
  assumes "Journal v fl cap = Some (Inr j)" "qstep\<^sup>*\<^sup>* (qstart j) s"
  shows "qinv (jn_file j) s"
proof -
  have "qinv (jn_file j) (qstart j)" using Journal_start(3) [OF assms(1)] by (simp add: qinv_def qstart_def)
  then show ?thesis using rtranclp_invariant [OF assms(2), of "qinv (jn_file j)"] qstep_inv by blast
qed

subsection \<open>The writer makes progress\<close>

lemma writes_well_jstep: "writes_well u u' \<Longrightarrow> jstep u u'"
  by (induction rule: writes_well.induct) (auto intro: jstep.wake jstep.pop jstep.write_ok jstep.written)

lemma writes_well_step:
  assumes "writes_well u u'" "jinv base u" "jn_healthy (js_journal u)" "js_writer u \<noteq> W_Exit"
  shows "jn_healthy (js_journal u') \<and> js_writer u' \<noteq> W_Exit \<and> js_prod u' = js_prod u \<and> js_accepted u' = js_accepted u \<and> rank u' < rank u"
  using assms
proof (induction rule: writes_well.induct)
  case (pop u pc j)
  obtain x xs where c: "jr_contents (jn_ring (js_journal u)) = x # xs"
    using pop(1,3) by (auto simp: jinv_def neq_Nil_conv)
  obtain ring where r: "tryPop (jn_ring (js_journal u)) = (Some x, ring)" "jr_contents ring = xs"
    using tryPop_ok [OF _ c] pop(3) by (auto simp: jinv_def)
  then have "pc = W_Popped x" "j = (js_journal u)\<lparr>jn_ring := ring\<rparr>" using pop(2) by (auto simp: writer_pop_def)
  then show ?case using pop c r by (simp add: rank_def)
next
  case (put u bytes ios sync_ok seq j)
  have "validateSerialized bytes" using put(1,3) by (intro journaled_valid) (auto simp: jinv_def accounted_def)
  note E = writer_write_effect [OF put(2) this]
  show ?case using put E(1,4) by (simp add: rank_def)
qed (simp_all add: rank_def writer_count_def)

lemma writes_well_enabled:
  assumes "jinv base u" "js_writer u \<noteq> W_Exit" "js_writer u \<noteq> W_Wait \<or> jr_contents (jn_ring (js_journal u)) \<noteq> []"
  shows "\<exists>u'. writes_well u u'"
proof (cases "js_writer u")
  case W_Wait
  then have "writer_wake (js_journal u) = Some W_Pop" using assms(3) by (simp add: writer_wake_def jr_empty_contents)
  then show ?thesis using W_Wait by (blast intro: writes_well.wake)
next
  case W_Pop
  then show ?thesis using writes_well.pop [OF W_Pop prod.collapse [symmetric]] by blast
next
  case (W_Popped b)
  have "validateSerialized b" using assms(1) W_Popped by (intro journaled_valid) (auto simp: jinv_def accounted_def)
  moreover have "jn_open (js_journal u)" using assms(1,2) by (simp add: jinv_def)
  ultimately obtain j where "writer_write [Moved (length b)] True b (js_journal u) = Some (W_Written (record_sequence b), j)"
    using writer_write_good by blast
  then show ?thesis using W_Popped by (blast intro: writes_well.put)
next
  case (W_Written q)
  then show ?thesis by (blast intro: writes_well.count)
qed (use assms(2) in simp)

text \<open>A writer that is waited for: every reachable state between two enqueues.\<close>

definition at_work :: "u8 list \<Rightarrow> jsys \<Rightarrow> qsys \<Rightarrow> bool" where
  "at_work base u0 s \<longleftrightarrow> qinv base s \<and> jn_healthy (qs_journal s) \<and> js_writer (qs_sys s) \<noteq> W_Exit \<and>
     js_prod (qs_sys s) = js_prod u0 \<and> js_accepted (qs_sys s) = js_accepted u0 \<and> js_prod u0 \<noteq> P_Pushed"

definition all_written :: "qsys \<Rightarrow> bool" where
  "all_written s \<longleftrightarrow> js_writer (qs_sys s) = W_Wait \<and> jr_contents (jn_ring (qs_journal s)) = []"

lemma writer_good_qstep: "writer_good s s' \<Longrightarrow> qstep s s'"
  unfolding writer_good_def by (auto intro: qstep.journal writes_well_jstep)

lemma writer_good_at_work:
  assumes "at_work base u0 s" "writer_good s s'"
  shows "at_work base u0 s'" "rank (qs_sys s') < rank (qs_sys s)"
proof -
  obtain u where u: "writes_well (qs_sys s) u" "s' = queue_moves u s" using assms(2) by (auto simp: writer_good_def)
  note W = writes_well_step [OF u(1)]
  have "qinv base s'" using qstep_inv [OF writer_good_qstep [OF assms(2)]] assms(1) by (simp add: at_work_def)
  then show "at_work base u0 s'" using W assms(1) by (auto simp: at_work_def qinv_def u(2) queue_moves_def)
  show "rank (qs_sys s') < rank (qs_sys s)" using W assms(1) by (auto simp: at_work_def qinv_def u(2) queue_moves_def)
qed

lemma writer_good_enabled:
  assumes "at_work base u0 s" "\<not> all_written s"
  shows "\<exists>s'. writer_good s s'"
proof -
  have "\<not> qs_parked s" using assms by (auto simp: at_work_def all_written_def qinv_def jr_empty_contents)
  moreover obtain u where "writes_well (qs_sys s) u"
    using writes_well_enabled [of base "qs_sys s"] assms by (auto simp: at_work_def all_written_def qinv_def)
  ultimately show ?thesis by (auto simp: writer_good_def)
qed

interpretation jq: terminating writer_good "at_work base u0" all_written "\<lambda>s. rank (qs_sys s)" for base u0
  by unfold_locales (use writer_good_at_work writer_good_enabled in blast)+

lemma all_written_file:
  assumes "at_work base u0 s" "all_written s"
  shows "js_done (qs_sys s) = js_accepted u0 \<and> jn_file (qs_journal s) = base @ concat (js_accepted u0) \<and>
    (js_prod u0 = P_Idle \<longrightarrow> flush_begin (qs_journal s) = Inl True)"
proof -
  have I: "jinv base (qs_sys s)" using assms(1) by (simp add: at_work_def qinv_def)
  then obtain lost torn where a: "accounted base lost torn (qs_sys s)" by (rule jinvD)
  have "js_done (qs_sys s) = js_accepted (qs_sys s)" "torn = []" using a assms by (auto simp: accounted_def all_written_def at_work_def)
  then show ?thesis using a I assms by (auto simp: accounted_def jinv_def at_work_def all_written_def flush_begin_def Let_def)
qed

text \<open>
  C27. The writer empties the ring and never oversleeps: from every reachable state of a healthy journal whose writer has not stopped, outside of the
  instant between a push and its notification, every run of the writer whose writes succeed takes at most \<open>4 * n + 3\<close> steps for \<open>n\<close> records in the ring; as long as a
  record is unwritten it has a next step, in particular it is not parked on \<open>queue_cv_\<close>; and when it has none, every accepted record
  is in the file, in order, and a flush returns true at once.
\<close>

theorem journal_drains:
  assumes "Journal v fl cap = Some (Inr j)" "qstep\<^sup>*\<^sup>* (qstart j) s" "jn_healthy (qs_journal s)" "js_writer (qs_sys s) \<noteq> W_Exit"
    "js_prod (qs_sys s) \<noteq> P_Pushed"
  shows "(\<forall>n s'. (writer_good ^^ n) s s' \<longrightarrow> n \<le> 4 * length (jr_contents (jn_ring (qs_journal s))) + 3) \<and>
    (\<forall>s'. writer_good\<^sup>*\<^sup>* s s' \<longrightarrow> (\<exists>s''. writer_good s' s'') \<or>
      js_done (qs_sys s') = js_accepted (qs_sys s) \<and> jn_file (qs_journal s') = jn_file j @ concat (js_accepted (qs_sys s)) \<and>
      (js_prod (qs_sys s) = P_Idle \<longrightarrow> flush_begin (qs_journal s') = Inl True)) \<and>
    (\<exists>s'. writer_good\<^sup>*\<^sup>* s s' \<and> js_done (qs_sys s') = js_accepted (qs_sys s))"
proof -
  have A: "at_work (jn_file j) (qs_sys s) s" using reachable_qinv [OF assms(1,2)] assms(3-5) by (simp add: at_work_def)
  have "rank (qs_sys s) \<le> 4 * length (jr_contents (jn_ring (qs_journal s))) + 3"
    by (cases "js_writer (qs_sys s)") (simp_all add: rank_def)
  then have "n \<le> 4 * length (jr_contents (jn_ring (qs_journal s))) + 3" if "(writer_good ^^ n) s s'" for n s'
    using jq.bounded_run [OF A that] by linarith
  moreover have "(\<exists>s''. writer_good s' s'') \<or>
      js_done (qs_sys s') = js_accepted (qs_sys s) \<and> jn_file (qs_journal s') = jn_file j @ concat (js_accepted (qs_sys s)) \<and>
      (js_prod (qs_sys s) = P_Idle \<longrightarrow> flush_begin (qs_journal s') = Inl True)" if "writer_good\<^sup>*\<^sup>* s s'" for s'
    using jq.never_stuck [OF A that] all_written_file by blast
  moreover have "\<exists>s'. writer_good\<^sup>*\<^sup>* s s' \<and> js_done (qs_sys s') = js_accepted (qs_sys s)"
    using jq.finishes [OF A] all_written_file by blast
  ultimately show ?thesis by blast
qed

text \<open>A record is enqueued while the writer is parked; its notification brings the writer back.\<close>

definition ex_woken :: qsys where
  "ex_woken = \<lparr>qs_sys = ex_queued, qs_parked = False, qs_owed = 0\<rparr>"

lemma ex_woken_reach: "qstep\<^sup>*\<^sup>* (qstart ex_journal) ex_woken"
proof -
  obtain u where u: "jstep (jstart ex_journal) u" "jstep u ex_pushed" "js_writer u = W_Wait" "js_prod u \<noteq> P_Idle" using ex_pushed_steps by blast
  let ?q = "\<lambda>u p. \<lparr>qs_sys = u, qs_parked = p, qs_owed = 0\<rparr>"
  have x: "js_prod (jstart ex_journal) = P_Idle" "js_writer (jstart ex_journal) = W_Wait" "js_writer ex_pushed = W_Wait" "js_prod ex_pushed = P_Pushed"
    "jn_running (js_journal ex_pushed)" "jn_running (js_journal ex_queued)" "js_prod ex_queued = P_Idle" "js_writer ex_queued = W_Wait"
    by (simp_all add: ex_queued_def ex_pushed_def ex_journal_def jstart_def count_queued_def Let_def)
  have "qstep (qstart ex_journal) (?q (jstart ex_journal) True)"
    by (rule qstep.park) (simp_all add: qstart_def jstart_def writer_park_def writer_wake_def ex_journal_def jr_empty_def)
  moreover have "qstep (?q (jstart ex_journal) True) (?q u True)"
    using qstep.journal [of "?q (jstart ex_journal) True" u] u x by (simp add: queue_moves_def enqueue_ends_def stop_begins_def)
  moreover have "qstep (?q u True) (?q ex_pushed True)"
    using qstep.journal [of "?q u True" ex_pushed] u x by (simp add: queue_moves_def enqueue_ends_def stop_begins_def)
  moreover have "qstep (?q ex_pushed True) ex_woken"
    using qstep.journal [of "?q ex_pushed True" ex_queued] ex_queued_step x by (simp add: queue_moves_def enqueue_ends_def stop_begins_def ex_woken_def)
  ultimately show ?thesis by (meson converse_rtranclp_into_rtranclp rtranclp.rtrancl_refl)
qed

theorem journal_drains_witness:
  "\<exists>s'. writer_good\<^sup>*\<^sup>* ex_woken s' \<and> js_done (qs_sys s') = js_accepted ex_queued \<and> length (js_accepted ex_queued) = 1"
proof -
  have q: "jn_healthy (js_journal ex_queued)" "js_writer ex_queued \<noteq> W_Exit" "js_prod ex_queued = P_Idle" "length (js_accepted ex_queued) = 1"
    by (simp_all add: ex_queued_def ex_pushed_def ex_journal_def jstart_def count_queued_def Let_def)
  then show ?thesis using journal_drains [OF ex_journal_new ex_woken_reach] by (simp add: ex_woken_def)
qed

end
