(* ===== verification/Journal_Recovery.thy ===== *)
theory Journal_Recovery
  imports Journal_File Matching_Engine
begin

text \<open>
  Replay of the journal (\<open>include/Recovery.h\<close>, \<open>src/Recovery.cpp\<close>): the header, the framed and checksummed records,
  the two sequence checks, and the application of each record to the engine. Recovery has its own copy of the
  checksum and of \<open>readU32BE\<close>, translated here and shown to be the journal's (theory \<open>Byte_Codec\<close>).

  The input stream is the list of bytes still to be read; a broken stream ends with an error of the
  device instead of the end of file.
\<close>

unbundle bit_operations_syntax

definition rec_crc_table :: "u32 list" where
  "rec_crc_table =
     map (\<lambda>i. fold (\<lambda>bit crc. if crc AND 1 \<noteq> 0 then drop_bit 1 crc XOR 0xEDB88320 else drop_bit 1 crc) [0..<8] (of_nat i)) [0..<256]"

definition rec_crc32 :: "u8 list \<Rightarrow> u32" where
  "rec_crc32 bs =
     fold (\<lambda>b crc. let index = ucast ((crc XOR ucast b) AND 0xFF) :: u8 in drop_bit 8 crc XOR rec_crc_table ! unat index) bs 0xFFFFFFFF
       XOR 0xFFFFFFFF"

definition rec_readU32BE :: "u8 list \<Rightarrow> u32" where
  "rec_readU32BE p = push_bit 24 (ucast (p ! 0)) OR push_bit 16 (ucast (p ! 1)) OR push_bit 8 (ucast (p ! 2)) OR ucast (p ! 3)"

lemma rec_crc_table: "rec_crc_table = crc_table"
proof -
  have "fold (\<lambda>bit. crc_bit) [0..<8] x = (crc_bit ^^ 8) x" for x by (simp add: eval_nat_numeral upt_rec)
  moreover have "(\<lambda>bit :: nat. \<lambda>crc. if crc AND 1 \<noteq> 0 then drop_bit 1 crc XOR 0xEDB88320 else drop_bit 1 crc) = (\<lambda>bit. crc_bit)"
    by (simp add: crc_bit_def fun_eq_iff)
  ultimately show ?thesis by (simp add: rec_crc_table_def crc_table_def)
qed

text \<open>The writer's and the reader's checksum are one function.\<close>

lemma rec_codec [simp]: "rec_crc32 = crc32" "rec_readU32BE = readU32BE"
proof
  show "rec_crc32 bs = crc32 bs" for bs
    by (simp add: rec_crc32_def crc32_def foldl_conv_fold crc_step_def [abs_def] rec_crc_table)
  show "rec_readU32BE = readU32BE" by (simp add: rec_readU32BE_def readU32BE_def fun_eq_iff)
qed

record ifs =
  ifs_data :: "u8 list"
  ifs_broken :: bool

text \<open>\<open>file.read(p, n)\<close>: the bytes, or whether \<open>eof\<close> is set on failure.\<close>

definition ifs_read :: "nat \<Rightarrow> ifs \<Rightarrow> bool + (u8 list \<times> ifs)" where
  "ifs_read n f =
     (if n \<le> length (ifs_data f) then Inr (take n (ifs_data f), f\<lparr>ifs_data := drop n (ifs_data f)\<rparr>)
      else Inl (\<not> ifs_broken f))"

record recovery =
  rv_records_replayed :: u64
  rv_new_orders_replayed :: u64
  rv_last_sequence :: u64
  rv_first_record :: bool
  rv_truncated_tail :: bool
  rv_max_priority :: u64

record rrecord =
  rr_sequence :: u64
  rr_command :: u8
  rr_payload :: "u8 list"

definition Recovery :: recovery where
  "Recovery = \<lparr>rv_records_replayed = 0, rv_new_orders_replayed = 0, rv_last_sequence = 0,
     rv_first_record = True, rv_truncated_tail = False, rv_max_priority = 0\<rparr>"

definition readHeader :: "ifs \<Rightarrow> ifs option" where
  "readHeader f =
     (case ifs_read 4 f of
        Inl _ \<Rightarrow> None
      | Inr (magic, f1) \<Rightarrow>
          if magic ! 0 \<noteq> 74 \<or> magic ! 1 \<noteq> 78 \<or> magic ! 2 \<noteq> 76 \<or> magic ! 3 \<noteq> 50 then None
          else
            (case ifs_read 1 f1 of
               Inl _ \<Rightarrow> None
             | Inr (version, f2) \<Rightarrow> if version ! 0 \<noteq> kVersion then None else Some f2))"

definition validateSequence :: "u64 \<Rightarrow> recovery \<Rightarrow> bool \<times> recovery" where
  "validateSequence sequence rv =
     (if rv_first_record rv then (True, rv\<lparr>rv_first_record := False, rv_last_sequence := sequence\<rparr>)
      else if rv_last_sequence rv = UINT64_MAX then (False, rv)
      else if sequence \<noteq> rv_last_sequence rv + 1 then (False, rv)
      else (True, rv\<lparr>rv_last_sequence := sequence\<rparr>))"

definition validatePrioritySequence :: "u64 \<Rightarrow> recovery \<Rightarrow> bool \<times> recovery" where
  "validatePrioritySequence prio rv =
     (if rv_new_orders_replayed rv = 0 then (True, rv\<lparr>rv_max_priority := prio\<rparr>)
      else if prio \<le> rv_max_priority rv then (False, rv)
      else (True, rv\<lparr>rv_max_priority := prio\<rparr>))"

definition getNextPrioritySequence :: "recovery \<Rightarrow> u64 option" where
  "getNextPrioritySequence rv =
     (if rv_new_orders_replayed rv = 0 then Some 0
      else if rv_max_priority rv = UINT64_MAX then None
      else Some (rv_max_priority rv + 1))"

definition nextPrioritySequence :: "recovery \<Rightarrow> u64" where
  "nextPrioritySequence rv = (case getNextPrioritySequence rv of None \<Rightarrow> UINT64_MAX | Some n \<Rightarrow> n)"

text \<open>The results of \<open>readRecord\<close> with its two flags.\<close>

datatype read_result = Got rrecord ifs | Clean_Eof | Truncated | Corrupt

definition readRecord :: "ifs \<Rightarrow> read_result" where
  "readRecord f =
     (case ifs_read 4 f of
        Inl eof \<Rightarrow> if eof then Clean_Eof else Truncated
      | Inr (len_bytes, f1) \<Rightarrow>
          let payload_length = unat (rec_readU32BE len_bytes) in
          if kMaxPayloadSize < payload_length then Corrupt
          else
            (case ifs_read (9 + payload_length) f1 of
               Inl _ \<Rightarrow> Truncated
             | Inr (rest, f2) \<Rightarrow>
                 let bdy = len_bytes @ rest in
                 (case ifs_read 4 f2 of
                    Inl _ \<Rightarrow> Truncated
                  | Inr (crc_bytes, f3) \<Rightarrow>
                      if rec_readU32BE crc_bytes \<noteq> rec_crc32 bdy then Corrupt
                      else Got \<lparr>rr_sequence = readU64BE (drop 4 bdy), rr_command = bdy ! 12,
                                rr_payload = drop 13 bdy\<rparr> f3)))"

text \<open>\<open>Inl\<close> is an exception that leaves \<open>replay\<close>; \<open>now\<close> is the clock the order's constructor reads.\<close>

definition process_new :: "i64 \<Rightarrow> u8 list \<Rightarrow> recovery \<Rightarrow> engine \<Rightarrow> (exn + bool) \<times> recovery \<times> engine" where
  "process_new now p rv e =
     (if length p \<noteq> 50 then (Inr False, rv, e)
      else
        let tstamp = readU64BE p; oid = readU64BE (drop 8 p); sy = rec_readU32BE (drop 16 p);
            tid = rec_readU32BE (drop 20 p); sd = p ! 24; price_ticks = readI64BE (drop 25 p);
            qty = rec_readU32BE (drop 33 p); rem = rec_readU32BE (drop 37 p); ty = p ! 41;
            prio = readU64BE (drop 42 p)
        in if 1 < sd \<or> qty = 0 \<or> rem = 0 \<or> qty < rem then (Inr False, rv, e)
           else if 3 < ty then (Inr False, rv, e)
           else if ty \<noteq> 1 then (Inr False, rv, e)
           else
             (case validatePrioritySequence prio rv of
                (False, rv1) \<Rightarrow> (Inr False, rv1, e)
              | (True, rv1) \<Rightarrow>
                  (case Order now oid (ucast tid) (if sd = 1 then BUY else SELL) LIMIT
                          (ticksToDouble price_ticks) qty sy of
                     Inl ex \<Rightarrow> (Inl ex, rv1, e)
                   | Inr ord \<Rightarrow>
                       (case restoreOrder ((setTimestamp (sint tstamp) ord)\<lparr>priority_seq := prio\<rparr>) rem e of
                          (False, e1) \<Rightarrow> (Inr False, rv1, e1)
                        | (True, e1) \<Rightarrow>
                            (Inr True, rv1\<lparr>rv_new_orders_replayed := rv_new_orders_replayed rv1 + 1,
                                           rv_records_replayed := rv_records_replayed rv1 + 1\<rparr>, e1)))))"

definition counted :: "bool \<times> engine \<Rightarrow> recovery \<Rightarrow> (exn + bool) \<times> recovery \<times> engine" where
  "counted res rv =
     (case res of
        (False, e) \<Rightarrow> (Inr False, rv, e)
      | (True, e) \<Rightarrow> (Inr True, rv\<lparr>rv_records_replayed := rv_records_replayed rv + 1\<rparr>, e))"

definition processRecord :: "i64 \<Rightarrow> rrecord \<Rightarrow> recovery \<Rightarrow> engine \<Rightarrow> (exn + bool) \<times> recovery \<times> engine" where
  "processRecord now rec rv e =
     (let p = rr_payload rec in
      if rr_command rec = NEW_ORDER then process_new now p rv e
      else if rr_command rec = CANCEL_ORDER then
        if length p \<noteq> 16 then (Inr False, rv, e)
        else counted (restoreCancel (readU64BE (drop 8 p)) e) rv
      else if rr_command rec = FILL then
        if length p \<noteq> 45 then (Inr False, rv, e)
        else counted (eng_applyFill (readU64BE (drop 8 p)) (rec_readU32BE (drop 32 p)) e) rv
      else (Inr False, rv, e))"

lemma readRecord_shorter: "readRecord f = Got rec f' \<Longrightarrow> length (ifs_data f') < length (ifs_data f)"
  by (auto simp: readRecord_def ifs_read_def Let_def split: if_splits sum.splits)

text \<open>
  The loop: \<open>Inr True\<close> at the end of the records, \<open>Inr False\<close> when the engine has to be halted.
\<close>

function replay_loop :: "(nat \<Rightarrow> i64) \<Rightarrow> ifs \<Rightarrow> recovery \<Rightarrow> engine \<Rightarrow> (exn + bool) \<times> recovery \<times> engine" where
  "replay_loop clock f rv e =
     (case readRecord f of
        Clean_Eof \<Rightarrow> (Inr True, rv, e)
      | Truncated \<Rightarrow> (Inr True, rv\<lparr>rv_truncated_tail := True\<rparr>, e)
      | Corrupt \<Rightarrow> (Inr False, rv, e)
      | Got rec f' \<Rightarrow>
          (case validateSequence (rr_sequence rec) rv of
             (False, rv1) \<Rightarrow> (Inr False, rv1, e)
           | (True, rv1) \<Rightarrow>
               (case processRecord (clock (length (ifs_data f))) rec rv1 e of
                  (Inl ex, rv2, e2) \<Rightarrow> (Inl ex, rv2, e2)
                | (Inr False, rv2, e2) \<Rightarrow> (Inr False, rv2, e2)
                | (Inr True, rv2, e2) \<Rightarrow> replay_loop clock f' rv2 e2)))"

  by pat_completeness auto
termination
  by (relation "measure (\<lambda>(_, f, _, _). length (ifs_data f))") (auto dest!: sym [of "readRecord _"] readRecord_shorter)

declare replay_loop.simps [simp del]

text \<open>\<open>None\<close> for \<open>file\<close> is a file that cannot be opened.\<close>

definition replay :: "(nat \<Rightarrow> i64) \<Rightarrow> ifs option \<Rightarrow> engine \<Rightarrow> (exn + bool) \<times> recovery \<times> engine" where
  "replay clock fl e =
     (case fl of
        None \<Rightarrow> (Inr False, Recovery, halt e)
      | Some f \<Rightarrow>
          let e1 = beginRecovery e in
          (case readHeader f of
             None \<Rightarrow> (Inr False, Recovery, halt e1)
           | Some f1 \<Rightarrow>
               (case replay_loop clock f1 Recovery e1 of
                  (Inl ex, rv, e2) \<Rightarrow> (Inl ex, rv, e2)
                | (Inr False, rv, e2) \<Rightarrow> (Inr False, rv, halt e2)
                | (Inr True, rv, e2) \<Rightarrow>
                    (case getNextPrioritySequence rv of
                       None \<Rightarrow> (Inr False, rv, halt e2)
                     | Some next_priority \<Rightarrow>
                         (case seedPrioritySequence next_priority e2 of
                            (False, e3) \<Rightarrow> (Inr False, rv, halt e3)
                          | (True, e3) \<Rightarrow>
                              (case markReady e3 of
                                 (False, e4) \<Rightarrow> (Inr False, rv, halt e4)
                               | (True, e4) \<Rightarrow> (Inr True, rv, e4)))))))"

end
