(* ===== verification/Recovery_Records.thy ===== *)
theory Recovery_Records
  imports Journal_Recovery Journal_Threads
begin

text \<open>
  What recovery makes of the bytes the journal writes: every record is read back as the event it was
  made from, damage is refused, and a torn last record ends the replay without an error.
\<close>

subsection \<open>Reading a record back\<close>

lemma readU32BE_take: "readU32BE (take 4 (u32_bytes v @ bs)) = v"
  using readU32BE_bytes [of v "[]"] by simp

lemma crc_field: "readU32BE (u32_bytes v) = v"
  using readU32BE_bytes [of v "[]"] by simp

lemma readRecord_frame:
  assumes "length payload \<le> kMaxPayloadSize"
  shows "readRecord \<lparr>ifs_data = frame seq cmd payload @ rest, ifs_broken = bk\<rparr> =
    Got \<lparr>rr_sequence = seq, rr_command = cmd, rr_payload = payload\<rparr> \<lparr>ifs_data = rest, ifs_broken = bk\<rparr>"
proof -
  let ?n = "length payload"
  have u: "unat (of_nat ?n :: u32) = ?n" using assms by (simp add: unat_of_nat)
  have f: "frame seq cmd payload @ rest = u32_bytes (of_nat ?n) @ (u64_bytes seq @ cmd # payload) @ u32_bytes (crc32 (body seq cmd payload)) @ rest"
    by (simp add: frame_def body_def)
  have b: "u32_bytes (of_nat ?n) @ u64_bytes seq @ cmd # payload = body seq cmd payload"
    by (simp add: body_def)
  have t: "take (9 + ?n) ((u64_bytes seq @ cmd # payload) @ ys) = u64_bytes seq @ cmd # payload"
    "drop (9 + ?n) ((u64_bytes seq @ cmd # payload) @ ys) = ys" for ys
    by simp_all
  have r: "readU64BE (drop 4 (body seq cmd payload)) = seq" "body seq cmd payload ! 12 = cmd" "drop 13 (body seq cmd payload) = payload"
    using readU64BE_bytes [of seq "cmd # payload"] by (simp_all add: body_def nth_append)
  show ?thesis
    unfolding readRecord_def f ifs_read_def using assms u t b r
    by (simp add: crc_field Let_def del: append_assoc)
qed

text \<open>Applying an event to the engine directly.\<close>

primrec apply_event :: "i64 \<Rightarrow> market_event \<Rightarrow> recovery \<Rightarrow> engine \<Rightarrow> (exn + bool) \<times> recovery \<times> engine" where
  "apply_event now (OrderAcceptedEvent a) rv e =
     (if oa_quantity a = 0 \<or> oa_remainingQuantity a = 0 \<or> oa_quantity a < oa_remainingQuantity a \<or> oa_orderType a \<noteq> LIMIT
      then (Inr False, rv, e)
      else case validatePrioritySequence (oa_prioritySeq a) rv of
        (False, rv1) \<Rightarrow> (Inr False, rv1, e)
      | (True, rv1) \<Rightarrow>
          (case Order now (oa_orderId a) (ucast (oa_traderId a)) (if oa_isBuy a then BUY else SELL) LIMIT
                  (ticksToDouble (oa_priceTicks a)) (oa_quantity a) (oa_symbolId a) of
             Inl ex \<Rightarrow> (Inl ex, rv1, e)
           | Inr ord \<Rightarrow>
               (case restoreOrder ((setTimestamp (sint (oa_timestamp a)) ord)\<lparr>priority_seq := oa_prioritySeq a\<rparr>)
                       (oa_remainingQuantity a) e of
                  (False, e1) \<Rightarrow> (Inr False, rv1, e1)
                | (True, e1) \<Rightarrow> (Inr True, rv1\<lparr>rv_new_orders_replayed := rv_new_orders_replayed rv1 + 1,
                                  rv_records_replayed := rv_records_replayed rv1 + 1\<rparr>, e1))))"
| "apply_event now (TradeEvent t) rv e = counted (eng_applyFill (te_restingOrderId t) (te_tradeQuantity t) e) rv"
| "apply_event now (OrderCancelledEvent c) rv e = counted (restoreCancel (oc_orderId c) e) rv"
| "apply_event now (OrderRejectedEvent r) rv e = (Inr False, rv, e)"

primrec ev_command :: "market_event \<Rightarrow> u8" where
  "ev_command (OrderAcceptedEvent e) = NEW_ORDER"
| "ev_command (TradeEvent e) = FILL"
| "ev_command (OrderCancelledEvent e) = CANCEL_ORDER"
| "ev_command (OrderRejectedEvent e) = 0"

primrec ev_payload :: "market_event \<Rightarrow> u8 list" where
  "ev_payload (OrderAcceptedEvent e) = accepted_payload e"
| "ev_payload (TradeEvent e) = trade_payload e"
| "ev_payload (OrderCancelledEvent e) = cancelled_payload e"
| "ev_payload (OrderRejectedEvent e) = []"

primrec ticks_fit :: "market_event \<Rightarrow> bool" where
  "ticks_fit (OrderAcceptedEvent e) = in_i64 (oa_priceTicks e)"
| "ticks_fit (TradeEvent e) = in_i64 (te_tradePriceTicks e)"
| "ticks_fit (OrderCancelledEvent e) = True"
| "ticks_fit (OrderRejectedEvent e) = True"

definition ev_record :: "market_event \<Rightarrow> rrecord" where
  "ev_record ev = \<lparr>rr_sequence = ev_sequence ev, rr_command = ev_command ev, rr_payload = ev_payload ev\<rparr>"

lemma serialize_frame: "serialize ev = Some bytes \<Longrightarrow> bytes = frame (ev_sequence ev) (ev_command ev) (ev_payload ev) \<and> length (ev_payload ev) \<le> 50"
  by (cases ev) auto

lemma accepted_fields:
  assumes "in_i64 (oa_priceTicks a)"
  shows "readU64BE (accepted_payload a) = oa_timestamp a" "readU64BE (drop 8 (accepted_payload a)) = oa_orderId a"
    "readU32BE (drop 16 (accepted_payload a)) = oa_symbolId a" "readU32BE (drop 20 (accepted_payload a)) = oa_traderId a"
    "accepted_payload a ! 24 = bool_byte (oa_isBuy a)" "readI64BE (drop 25 (accepted_payload a)) = oa_priceTicks a"
    "readU32BE (drop 33 (accepted_payload a)) = oa_quantity a" "readU32BE (drop 37 (accepted_payload a)) = oa_remainingQuantity a"
    "accepted_payload a ! 41 = type_byte (oa_orderType a)" "readU64BE (drop 42 (accepted_payload a)) = oa_prioritySeq a"
  using readI64BE_bytes [OF assms] readU64BE_bytes [of "oa_prioritySeq a" "[]"]
  by (simp_all add: accepted_payload_def nth_append)

lemma trade_fields:
  "readU64BE (drop 8 (trade_payload t)) = te_restingOrderId t" "readU32BE (drop 32 (trade_payload t)) = te_tradeQuantity t"
  by (simp_all add: trade_payload_def)

lemma cancelled_fields: "readU64BE (drop 8 (cancelled_payload c)) = oc_orderId c"
  using readU64BE_bytes [of "oc_orderId c" "[]"] by (simp add: cancelled_payload_def)

lemma type_byte_simps: "\<not> 3 < type_byte t" "type_byte t = 1 \<longleftrightarrow> t = LIMIT" "\<not> 1 < bool_byte b" "bool_byte b = 1 \<longleftrightarrow> b"
  by (cases t; simp add: bool_byte_def)+

lemma processRecord_event: "ticks_fit ev \<Longrightarrow> processRecord now (ev_record ev) rv e = apply_event now ev rv e"
proof (cases ev)
  case (OrderAcceptedEvent a)
  assume "ticks_fit ev"
  then have f: "in_i64 (oa_priceTicks a)" using OrderAcceptedEvent by simp
  show ?thesis
    by (simp add: OrderAcceptedEvent processRecord_def ev_record_def process_new_def accepted_fields [OF f] type_byte_simps Let_def)
qed (simp_all add: processRecord_def ev_record_def trade_fields cancelled_fields)

text \<open>What \<open>onEvent\<close> puts into the ring is the serialised event.\<close>

lemma onEvent_pushes:
  assumes wf: "jr_wf (jn_ring j)" and new: "jr_contents (jn_ring (onEvent ev j)) = jr_contents (jn_ring j) @ [bytes]"
  shows "serialize ev = Some bytes"
proof (cases "serialize ev")
  case None
  then show ?thesis using new by (simp add: onEvent_serialize)
next
  case (Some b)
  obtain ok j' where e: "enqueueSerialized b j = (ok, j')" by (cases "enqueueSerialized b j")
  then have j': "onEvent ev j = j'" using Some by (simp add: onEvent_serialize)
  obtain res ring where p: "tryPush (Some b) (jn_ring j) = (res, ring)" by (cases "tryPush (Some b) (jn_ring j)")
  have r: "jn_ring j' = jn_ring j \<or> res = Ok \<and> jn_ring j' = ring"
    using e p tryPush_not_Ok [OF p] by (cases res) (auto simp: enqueueSerialized_def failStop_def count_queued_def split: if_splits)
  then have "res = Ok" "jn_ring j' = ring" using new j' by auto
  then have "jr_contents (jn_ring j') = jr_contents (jn_ring j) @ [b]"
    using tryPush_Ok [of b "jn_ring j" ring] p wf serialize_valid [OF Some] by simp
  then show ?thesis using new j' Some by simp
qed

text \<open>
  C19. Round trip of the journal: the bytes the journal puts into its ring for an event, with anything behind them in the
  file, are read back as a record with the event's sequence number, and processing that record applies exactly the
  event: its order, side, price in ticks, quantities and priority, its fill or its cancellation.
\<close>

theorem record_roundtrip:
  assumes "jr_wf (jn_ring j)" "jr_contents (jn_ring (onEvent ev j)) = jr_contents (jn_ring j) @ [bytes]" "ticks_fit ev"
  shows "\<exists>rec. readRecord \<lparr>ifs_data = bytes @ rest, ifs_broken = bk\<rparr> = Got rec \<lparr>ifs_data = rest, ifs_broken = bk\<rparr> \<and>
    rr_sequence rec = ev_sequence ev \<and> (\<forall>now rv e. processRecord now rec rv e = apply_event now ev rv e)"
proof -
  have b: "bytes = frame (ev_sequence ev) (ev_command ev) (ev_payload ev)" "length (ev_payload ev) \<le> kMaxPayloadSize"
    using serialize_frame [OF onEvent_pushes [OF assms(1,2)]] by auto
  show ?thesis
    using readRecord_frame [OF b(2)] processRecord_event [OF assms(3)]
    by (intro exI [of _ "ev_record ev"]) (simp add: b(1) ev_record_def)
qed

theorem record_roundtrip_witness:
  "\<exists>bytes rec. jr_contents (jn_ring (onEvent (OrderCancelledEvent \<lparr>oc_timestamp = 5, oc_sequence = 1, oc_orderId = 7, oc_symbolId = 1,
     oc_traderId = 3, oc_cancelledQuantity = 2\<rparr>) ex_journal)) = [bytes] \<and>
   readRecord \<lparr>ifs_data = bytes @ [1, 2], ifs_broken = False\<rparr> = Got rec \<lparr>ifs_data = [1, 2], ifs_broken = False\<rparr> \<and> rr_sequence rec = 1"
proof -
  let ?ev = "OrderCancelledEvent \<lparr>oc_timestamp = 5, oc_sequence = 1, oc_orderId = 7, oc_symbolId = 1, oc_traderId = 3, oc_cancelledQuantity = 2\<rparr>"
  obtain bytes where b: "serialize ?ev = Some bytes" by simp
  have wf: "jr_wf (jn_ring ex_journal)" "jr_contents (jn_ring ex_journal) = []"
    using Journal_start(3) [OF ex_journal_new] by (simp_all add: jinv_def jstart_def accounted_def)
  have len: "bytes \<noteq> []" "length bytes \<le> kMaxRecordSize" using valid_length [OF serialize_valid [OF b]] by auto
  obtain ring where p: "tryPush (Some bytes) (jn_ring ex_journal) = (Ok, ring)" "jr_contents ring = [bytes]"
  proof (rule tryPush_ok [OF wf(1) len])
    show "\<not> jr_capacity (jn_ring ex_journal) \<le> jr_head (jn_ring ex_journal) - jr_tail (jn_ring ex_journal)" by (simp add: ex_journal_def)
  qed (use wf(2) that in simp)
  have "jr_contents (jn_ring (onEvent ?ev ex_journal)) = [bytes]"
    using b p len by (simp add: onEvent_serialize enqueueSerialized_def count_queued_def ex_journal_def del: serialize.simps)
  then show ?thesis using record_roundtrip [OF wf(1), of ?ev bytes "[1, 2]" False] wf(2) by auto
qed

subsection \<open>Damage\<close>

text \<open>
  A stream that starts with the length field of a record and has that record's number of bytes, whatever they are.
\<close>

lemma readRecord_sized:
  assumes "length rest = 9 + n" "n \<le> kMaxPayloadSize" "length crc = 4"
  shows "readRecord \<lparr>ifs_data = u32_bytes (of_nat n) @ rest @ crc @ after, ifs_broken = bk\<rparr> =
    (if readU32BE crc \<noteq> crc32 (u32_bytes (of_nat n) @ rest) then Corrupt
     else Got \<lparr>rr_sequence = readU64BE (drop 4 (u32_bytes (of_nat n) @ rest)), rr_command = (u32_bytes (of_nat n) @ rest) ! 12,
            rr_payload = drop 13 (u32_bytes (of_nat n) @ rest)\<rparr> \<lparr>ifs_data = after, ifs_broken = bk\<rparr>)"
proof -
  have u: "unat (of_nat n :: u32) = n" using assms by (simp add: unat_of_nat)
  show ?thesis using assms u by (simp add: readRecord_def ifs_read_def crc_field Let_def)
qed

lemma u32_bytes_inj: "length crc = 4 \<Longrightarrow> readU32BE crc = v \<Longrightarrow> crc = u32_bytes v"
proof -
  assume l: "length crc = 4" and r: "readU32BE crc = v"
  obtain a b c d where c: "crc = [a, b, c, d]"
    using l by (auto simp: length_Suc_conv numeral_eq_Suc)
  have "ucast (drop_bit 24 v) = a" "ucast (drop_bit 16 v) = b" "ucast (drop_bit 8 v) = c" "ucast v = d"
    unfolding r [symmetric] c readU32BE_def
    by (rule bit_word_eqI; auto simp: bit_simps dest: bit_imp_le_length)+
  then show ?thesis by (simp add: c u32_bytes_def)
qed

text \<open>
  C21. Damage is refused: when up to four consecutive bytes of a record's body behind its length field are changed, or any of the four bytes of the
  stored checksum, the record is reported corrupt. It is neither applied nor taken for
  the end of the journal. (A change that reaches from the body into the checksum is another matter: \<open>straddling_damage_unnoticed\<close>.)
\<close>

theorem damaged_record_refused:
  assumes s: "serialize ev = Some (pre @ m @ post)" and m: "length m' = length m" "length m \<le> 4" "m' \<noteq> m"
    and place: "4 \<le> length pre" "4 \<le> length post \<or> post = [] \<and> length m = 4"
  shows "readRecord \<lparr>ifs_data = (pre @ m' @ post) @ rest, ifs_broken = bk\<rparr> = Corrupt"
proof -
  let ?p = "ev_payload ev" and ?b = "body (ev_sequence ev) (ev_command ev) (ev_payload ev)"
  let ?len = "u32_bytes (of_nat (length ?p))"
  have b: "pre @ m @ post = ?b @ u32_bytes (crc32 ?b)" and n: "length ?p \<le> kMaxPayloadSize"
    using serialize_frame [OF s] by (auto simp: frame_def)
  obtain x where bx: "?b = ?len @ x" and x: "length x = 9 + length ?p" by (simp add: body_def)
  show ?thesis
  proof (cases "4 \<le> length post")
    case True
    define p1 where "p1 = take (length post - 4) post"
    define crc where "crc = drop (length post - 4) post"
    have post: "post = p1 @ crc" "length crc = 4" using True by (simp_all add: p1_def crc_def)
    have "(pre @ m @ p1) @ crc = ?b @ u32_bytes (crc32 ?b)" using b post by simp
    then have e: "pre @ m @ p1 = ?b" "crc = u32_bytes (crc32 ?b)"
      using post(2) by (metis append_eq_append_conv length_u32_bytes)+
    obtain q where pre: "pre = ?len @ q"
    proof
      have "take 4 (pre @ m @ p1) = ?len" using e(1) bx by simp
      then have "take 4 pre = ?len" using place(1) by simp
      then show "pre = ?len @ drop 4 pre" by (metis append_take_drop_id)
    qed
    have "?len @ q @ m @ p1 = ?len @ x" using e(1) by (simp add: pre bx)
    then have lx: "length (q @ m' @ p1) = 9 + length ?p" using x m(1) by auto
    have "crc32 (pre @ m' @ p1) \<noteq> crc32 (pre @ m @ p1)"
      by (rule crc_bursts) (use m in simp_all)
    then show ?thesis
      using readRecord_sized [OF lx n post(2), of rest bk] e by (simp add: pre post(1) crc_field)
  next
    case False
    then have p: "post = []" "length m = 4" using place by auto
    then have e: "pre = ?b" "m = u32_bytes (crc32 ?b)" using b by (simp_all add: append_eq_append_conv)
    have "readU32BE m' \<noteq> crc32 ?b" using u32_bytes_inj [of m' "crc32 ?b"] e m p by auto
    then show ?thesis
      using readRecord_sized [OF x n, of m' rest bk] m p by (simp add: e(1) bx)
  qed
qed

theorem damaged_record_refused_witness:
  "\<exists>pre post. serialize (OrderCancelledEvent \<lparr>oc_timestamp = 5, oc_sequence = 1, oc_orderId = 7, oc_symbolId = 1,
     oc_traderId = 3, oc_cancelledQuantity = 2\<rparr>) = Some (pre @ [7] @ post) \<and>
   readRecord \<lparr>ifs_data = (pre @ [9] @ post) @ [], ifs_broken = False\<rparr> = Corrupt"
proof -
  let ?ev = "OrderCancelledEvent \<lparr>oc_timestamp = 5, oc_sequence = 1, oc_orderId = 7, oc_symbolId = 1, oc_traderId = 3, oc_cancelledQuantity = 2\<rparr>"
  let ?pre = "u32_bytes 16 @ u64_bytes 1 @ CANCEL_ORDER # u64_bytes 5 @ [0, 0, 0, 0, 0, 0, 0]"
  let ?post = "u32_bytes (crc32 (body 1 CANCEL_ORDER (u64_bytes 5 @ u64_bytes 7)))"
  have "u64_bytes 7 = [0, 0, 0, 0, 0, 0, 0, 7]" by (simp add: u64_bytes_def)
  then have s: "serialize ?ev = Some (?pre @ [7] @ ?post)"
    by (simp add: frame_def cancelled_payload_def) (simp add: body_def)
  have "readRecord \<lparr>ifs_data = (?pre @ [9] @ ?post) @ [], ifs_broken = False\<rparr> = Corrupt"
    by (rule damaged_record_refused [OF s]) simp_all
  with s show ?thesis by blast
qed

text \<open>
  The checksum is stored with its highest byte first, while the algorithm works from the lowest bit: a burst of four bytes across the boundary is not
  covered by the guarantee of the code. This one, two bytes of the body and two of the checksum, passes in every record.
\<close>

lemma le_word_xor: "le_word [a XOR u, b XOR v] = le_word [a, b] XOR le_word [u, v]"
  by (rule bit_word_eqI) (auto simp: bit_simps)

lemma crc_bits_straddle: "(crc_bit ^^ 16) 0xD861 = 0xF4EE0000"
proof -
  have steps: "crc_bit 55393 = 3988320016" "crc_bit 3988320016 = 1994160008" "crc_bit 1994160008 = 997080004" "crc_bit 997080004 = 498540002"
    "crc_bit 498540002 = 249270001" "crc_bit 249270001 = 3939845208" "crc_bit 3939845208 = 1969922604" "crc_bit 1969922604 = 984961302"
    "crc_bit 984961302 = 492480651" "crc_bit 492480651 = 3809859429" "crc_bit 3809859429 = 2620549266" "crc_bit 2620549266 = 1310274633"
    "crc_bit 1310274633 = 3400800516" "crc_bit 3400800516 = 1700400258" "crc_bit 1700400258 = 850200129" "crc_bit 850200129 = 4109238272"
    by (simp_all add: crc_bit_def)
  show ?thesis
    by (simp only: steps funpow.simps o_apply id_apply eval_nat_numeral BitM.simps One_nat_def)
qed

lemma crc_straddle: "crc32 (xs @ [a XOR 0x61, b XOR 0xD8]) = crc32 (xs @ [a, b]) XOR 0xF4EE0000"
proof -
  let ?c = "foldl crc_step 0xFFFFFFFF xs"
  have "le_word [0x61, 0xD8] = 0xD861" by simp
  then have "(crc_bit ^^ 16) (?c XOR le_word [a XOR 0x61, b XOR 0xD8]) = (crc_bit ^^ 16) (?c XOR le_word [a, b]) XOR 0xF4EE0000"
    using crc_bits_straddle by (simp only: le_word_xor crc_bits_xor xor.assoc)
  then have "foldl crc_step ?c [a XOR 0x61, b XOR 0xD8] = foldl crc_step ?c [a, b] XOR 0xF4EE0000"
    using crc_fold_burst [of "[a XOR 0x61, b XOR 0xD8]" ?c] crc_fold_burst [of "[a, b]" ?c] by (simp only: length_Cons list.size) simp
  then show ?thesis unfolding crc32_def foldl_append by (simp only: xor.assoc xor.commute [of "0xF4EE0000"])
qed

lemma u32_bytes_straddle:
  assumes "u32_bytes v = [c, d] @ post"
  shows "u32_bytes (v XOR 0xF4EE0000) = [c XOR 0xF4, d XOR 0xEE] @ post"
proof -
  have wrap: "(62702 :: u8) = 238" "(16051712 :: u8) = 0" "(4109238272 :: u8) = 0" by simp_all
  show ?thesis using assms by (auto simp: u32_bytes_def drop_bit_xor unsigned_xor_eq) (simp_all only: wrap xor.right_neutral)
qed

theorem straddling_damage_unnoticed:
  assumes "serialize ev = Some (pre @ [a, b] @ [c, d] @ post)" "length post = 2"
  shows "\<exists>rec. readRecord \<lparr>ifs_data = pre @ [a XOR 0x61, b XOR 0xD8] @ [c XOR 0xF4, d XOR 0xEE] @ post @ rest, ifs_broken = bk\<rparr> =
    Got rec \<lparr>ifs_data = rest, ifs_broken = bk\<rparr>"
proof -
  let ?p = "ev_payload ev" and ?b = "body (ev_sequence ev) (ev_command ev) (ev_payload ev)"
  let ?len = "u32_bytes (of_nat (length ?p))"
  have f: "(pre @ [a, b]) @ [c, d] @ post = ?b @ u32_bytes (crc32 ?b)" and n: "length ?p \<le> kMaxPayloadSize"
    using serialize_frame [OF assms(1)] by (auto simp: frame_def)
  have "length (pre @ [a, b]) = length ?b" using arg_cong [OF f, of length] assms(2) by simp
  then have e: "pre @ [a, b] = ?b" "[c, d] @ post = u32_bytes (crc32 ?b)" using f append_eq_append_conv by blast+
  obtain x where bx: "?b = ?len @ x" and x: "length x = 9 + length ?p" by (simp add: body_def)
  have "take 4 (pre @ [a, b]) = ?len" using e(1) bx by simp
  moreover have "4 \<le> length pre" using arg_cong [OF e(1), of length] bx x by simp
  ultimately have "take 4 pre = ?len" by simp
  then obtain q where pre: "pre = ?len @ q" by (metis append_take_drop_id)
  have q: "length (q @ [a XOR 0x61, b XOR 0xD8]) = 9 + length ?p" using arg_cong [OF e(1), of length] bx x pre by simp
  let ?crc = "[c XOR 0xF4, d XOR 0xEE] @ post"
  have "?crc = u32_bytes (crc32 (pre @ [a XOR 0x61, b XOR 0xD8]))" using u32_bytes_straddle [OF e(2) [symmetric]] e(1) crc_straddle [of pre a b] by simp
  then have "readU32BE ?crc = crc32 (?len @ q @ [a XOR 0x61, b XOR 0xD8])" by (simp add: crc_field pre)
  moreover have "pre @ [a XOR 0x61, b XOR 0xD8] @ [c XOR 0xF4, d XOR 0xEE] @ post @ rest = ?len @ (q @ [a XOR 0x61, b XOR 0xD8]) @ ?crc @ rest"
    by (simp add: pre)
  moreover have "length ?crc = 4" using assms(2) by simp
  ultimately show ?thesis using readRecord_sized [OF q n, of ?crc rest bk] by (simp only:) simp
qed

subsection \<open>The torn tail\<close>

lemma ifs_read_short: "length xs < n \<Longrightarrow> ifs_read n \<lparr>ifs_data = xs, ifs_broken = bk\<rparr> = Inl (\<not> bk)"
  by (simp add: ifs_read_def)

lemma torn_ends:
  assumes "serialize ev = Some (torn @ missing)" "missing \<noteq> []"
  shows "readRecord \<lparr>ifs_data = torn, ifs_broken = False\<rparr> = (if length torn < 4 then Clean_Eof else Truncated)"
proof (cases "length torn < 4")
  case True
  then show ?thesis by (simp add: readRecord_def ifs_read_short)
next
  case False
  let ?p = "ev_payload ev" and ?b = "body (ev_sequence ev) (ev_command ev) (ev_payload ev)"
  let ?len = "u32_bytes (of_nat (length ?p))"
  have b: "torn @ missing = ?b @ u32_bytes (crc32 ?b)" and n: "length ?p \<le> kMaxPayloadSize"
    using serialize_frame [OF assms(1)] by (auto simp: frame_def)
  have t: "length torn < 17 + length ?p"
    using arg_cong [OF b, of length] assms(2) by (cases missing) simp_all
  have "take 4 (torn @ missing) = ?len" unfolding b by (simp add: body_def)
  then have len: "take 4 torn = ?len" using False by simp
  have u: "unat (of_nat (length ?p) :: u32) = length ?p" using n by (simp add: unat_of_nat)
  show ?thesis using False len n u t by (simp add: readRecord_def ifs_read_def crc_field Let_def)
qed

text \<open>
  A torn last record never fails the recovery: for every proper prefix of a record at the end of the file,
  \<open>readRecord\<close> reports the end of the journal, as a truncated tail when at least the length field is there, and as a clean
  end of file when fewer than four bytes are left.
\<close>

theorem torn_record_ends_replay:
  assumes "serialize ev = Some (torn @ missing)" "missing \<noteq> []"
  shows "readRecord \<lparr>ifs_data = torn, ifs_broken = False\<rparr> = (if length torn < 4 then Clean_Eof else Truncated)"
  using torn_ends [OF assms] .

theorem torn_record_ends_replay_witness:
  "\<exists>torn missing. serialize (OrderCancelledEvent \<lparr>oc_timestamp = 5, oc_sequence = 1, oc_orderId = 7, oc_symbolId = 1,
     oc_traderId = 3, oc_cancelledQuantity = 2\<rparr>) = Some (torn @ missing) \<and> length torn = 20 \<and>
   readRecord \<lparr>ifs_data = torn, ifs_broken = False\<rparr> = Truncated"
proof -
  let ?ev = "OrderCancelledEvent \<lparr>oc_timestamp = 5, oc_sequence = 1, oc_orderId = 7, oc_symbolId = 1, oc_traderId = 3, oc_cancelledQuantity = 2\<rparr>"
  obtain bytes where b: "serialize ?ev = Some bytes" "length bytes = 33" by simp
  then have s: "serialize ?ev = Some (take 20 bytes @ drop 20 bytes)" by simp
  moreover have "length (take 20 bytes) = 20" "drop 20 bytes \<noteq> []" using b(2) by simp_all
  ultimately show ?thesis using torn_record_ends_replay [OF s] by (intro exI [of _ "take 20 bytes"] exI [of _ "drop 20 bytes"]) auto
qed

end
