(* ===== verification/Event_Sourcing.thy ===== *)
theory Event_Sourcing
  imports Engine_Properties Recovery_Records
begin

text \<open>
  The engine, its journal and recovery together: what each published event does to a replica of the book
  (theory \<open>Event_Replay\<close> puts them together). Orders are compared without their two time stamps, which the journal replaces by the time of the event.
\<close>

definition core :: "order \<Rightarrow> order" where
  "core x = x\<lparr>timestamp := 0, received_time := 0\<rparr>"

definition view :: "book \<Rightarrow> order_side \<Rightarrow> order list" where
  "view b sd = map core (flat sd b)"

lemma core_simps [simp]:
  "order_id (core x) = order_id x" "trader_id (core x) = trader_id x" "symbol_id (core x) = symbol_id x"
  "side (core x) = side x" "otype (core x) = otype x" "price (core x) = price x" "quantity (core x) = quantity x"
  "remaining_quantity (core x) = remaining_quantity x" "priority_seq (core x) = priority_seq x"
  "core (core x) = core x" "core (x\<lparr>remaining_quantity := q\<rparr>) = (core x)\<lparr>remaining_quantity := q\<rparr>"
  by (simp_all add: core_def)

lemma ids_core [simp]: "ids (map core os) = ids os"
  by (simp add: comp_def)

lemma ids_view [simp]: "ids (view b sd) = ids (flat sd b)"
  by (simp add: view_def comp_def)

lemma length_view [simp]: "length (view b sd) = length (flat sd b)"
  by (simp add: view_def)

lemma fill_orders_core: "fill_orders oid q (map core os) = map core (fill_orders oid q os)"
  by (simp add: fill_orders_def filter_map comp_def)

lemma filter_core: "filter (\<lambda>y. order_id y \<noteq> oid) (map core os) = map core (filter (\<lambda>y. order_id y \<noteq> oid) os)"
  by (simp add: filter_map comp_def)

lemma insert_prio_core: "insert_prio (core x) (map core os) = map core (insert_prio x os)"
  by (simp add: insert_prio_def takeWhile_map dropWhile_map comp_def)

subsection \<open>A sweep is a sequence of fills\<close>

definition run_fills :: "(order \<times> u32) list \<Rightarrow> order list \<Rightarrow> order list" where
  "run_fills fs os = fold (\<lambda>f. fill_orders (order_id (fst f)) (snd f)) fs os"

primrec fills_ok :: "(order \<times> u32) list \<Rightarrow> order list \<Rightarrow> bool" where
  "fills_ok [] os \<longleftrightarrow> True"
| "fills_ok (f # fs) os \<longleftrightarrow> snd f \<noteq> 0 \<and> (\<exists>x \<in> set os. order_id x = order_id (fst f) \<and> snd f \<le> remaining_quantity x) \<and>
     fills_ok fs (fill_orders (order_id (fst f)) (snd f) os)"

lemma run_fills_simps [simp]: "run_fills [] os = os" "run_fills (f # fs) os = run_fills fs (fill_orders (order_id (fst f)) (snd f) os)"
  by (simp_all add: run_fills_def)

lemma fill_head_full: "order_id x \<notin> set (ids xs) \<Longrightarrow> fill_orders (order_id x) (remaining_quantity x) (x # xs) = xs"
  using fill_orders_notin [of "order_id x" xs] by (simp add: fill_orders_def)

lemma fill_head_part:
  "order_id x \<notin> set (ids xs) \<Longrightarrow> q < remaining_quantity x \<Longrightarrow> fill_orders (order_id x) q (x # xs) = reduce x q # xs"
  using fill_orders_notin [of "order_id x" xs q] by (auto simp: fill_orders_def)

lemma sweep_as_fills:
  "distinct (ids os) \<Longrightarrow> \<forall>x \<in> set os. remaining_quantity x \<noteq> 0 \<Longrightarrow>
   fills_ok (swept_fills inc os) os \<and> run_fills (swept_fills inc os) os = swept_rest inc os"
proof (induction inc os rule: sweep_cases)
  case (Empty inc x xs)
  then show ?case by simp
next
  case (Full inc x xs)
  have i: "order_id x \<notin> set (ids xs)" "distinct (ids xs)" "\<forall>x \<in> set xs. remaining_quantity x \<noteq> 0" using Full(6,7) by auto
  show ?case
    unfolding swept_full(1,3) [OF Full(1-4)] run_fills_simps fills_ok.simps fst_conv snd_conv fill_head_full [OF i(1)]
    using Full(3) Full(5) [OF i(2,3)] by simp
next
  case (Partial inc x xs)
  then show ?case using swept_partial [OF Partial(1-3), of xs] fill_head_part [of x xs] by auto
qed simp_all

lemma swept_rest_subset: "x \<in> set (swept_rest inc os) \<Longrightarrow> \<exists>y \<in> set os. core x = (core y)\<lparr>remaining_quantity := remaining_quantity x\<rparr>"
proof (induction inc os rule: sweep_cases)
  case (Stop inc y ys)
  then show ?case by (intro bexI [of _ x]) (auto simp: core_def)
next
  case (Empty inc y ys)
  then show ?case using swept_empty [OF Empty(1-3), of ys] by auto
next
  case (Full inc y ys)
  then show ?case using swept_full [OF Full(1-4), of ys] by auto
next
  case (Partial inc y ys)
  then consider "x = reduce y (remaining_quantity inc)" | "x \<in> set ys" using swept_partial [OF Partial(1-3), of ys] by auto
  then show ?case by cases (auto simp: core_def intro!: bexI [of _ x])
qed simp

lemma swept_rest_live:
  "\<forall>x \<in> set os. remaining_quantity x \<noteq> 0 \<Longrightarrow> x \<in> set (swept_rest inc os) \<Longrightarrow> remaining_quantity x \<noteq> 0"
proof (induction inc os rule: sweep_cases)
  case (Empty inc y ys)
  then show ?case by simp
next
  case (Full inc y ys)
  then show ?case using swept_full [OF Full(1-4), of ys] by auto
next
  case (Partial inc y ys)
  have "remaining_quantity y - remaining_quantity inc \<noteq> 0" using Partial(3) by auto
  moreover have "x = reduce y (remaining_quantity inc) \<or> x \<in> set ys" using Partial(5) unfolding swept_partial(3) [OF Partial(1-3)] by simp
  ultimately show ?case using Partial(4) by (elim disjE) simp_all
qed auto

subsection \<open>Applying a sequence of events\<close>

text \<open>What the loop of \<open>replay\<close> does to the events of the records it reads.\<close>

primrec apply_all :: "market_event list \<Rightarrow> recovery \<Rightarrow> engine \<Rightarrow> (exn + bool) \<times> recovery \<times> engine" where
  "apply_all [] rv r = (Inr True, rv, r)"
| "apply_all (ev # evs) rv r =
     (case validateSequence (ev_sequence ev) rv of
        (False, rv1) \<Rightarrow> (Inr False, rv1, r)
      | (True, rv1) \<Rightarrow>
          (case apply_event 0 ev rv1 r of
             (Inl ex, rv2, r2) \<Rightarrow> (Inl ex, rv2, r2)
           | (Inr False, rv2, r2) \<Rightarrow> (Inr False, rv2, r2)
           | (Inr True, rv2, r2) \<Rightarrow> apply_all evs rv2 r2))"

text \<open>The clock the constructor of an order reads is overwritten by the time in the record.\<close>

lemma Order_now: "Order now oid tid sd t p q sy = map_sum id (\<lambda>x. x\<lparr>timestamp := now, received_time := now\<rparr>) (Order 0 oid tid sd t p q sy)"
  by (simp add: Order_def Let_def)

lemma apply_event_now: "apply_event now ev rv r = apply_event 0 ev rv r"
proof (cases ev)
  case (OrderAcceptedEvent a)
  let ?o = "Order 0 (oa_orderId a) (ucast (oa_traderId a)) (if oa_isBuy a then BUY else SELL) LIMIT
      (ticksToDouble (oa_priceTicks a)) (oa_quantity a) (oa_symbolId a)"
  have t: "setTimestamp ts (x\<lparr>timestamp := now, received_time := now\<rparr>) = setTimestamp ts x" for ts x
    by (simp add: setTimestamp_def)
  show ?thesis
    unfolding OrderAcceptedEvent apply_event.simps Order_now [of now]
    by (cases ?o) (simp_all only: map_sum.simps sum.case t id_apply)
qed simp_all

lemma apply_all_Cons:
  "apply_all (ev # evs) rv r = (Inr True, rv', r') \<longleftrightarrow>
   (\<exists>rv1 rv2 r2. validateSequence (ev_sequence ev) rv = (True, rv1) \<and> apply_event 0 ev rv1 r = (Inr True, rv2, r2) \<and>
     apply_all evs rv2 r2 = (Inr True, rv', r'))"
proof -
  obtain ok rv1 where s: "validateSequence (ev_sequence ev) rv = (ok, rv1)" by fastforce
  obtain x rv2 r2 where a: "apply_event 0 ev rv1 r = (x, rv2, r2)" by (cases "apply_event 0 ev rv1 r") auto
  show ?thesis using s a by (cases ok; cases x; auto split: bool.splits)
qed

lemma apply_all_append:
  "apply_all xs rv r = (Inr True, rv1, r1) \<Longrightarrow> apply_all (xs @ ys) rv r = apply_all ys rv1 r1"
proof (induction xs arbitrary: rv r)
  case (Cons ev xs)
  then obtain a b c where "validateSequence (ev_sequence ev) rv = (True, a)" "apply_event 0 ev a r = (Inr True, b, c)"
    "apply_all xs b c = (Inr True, rv1, r1)" unfolding apply_all_Cons by blast
  then show ?case using Cons.IH by simp
qed simp

lemma apply_all_prefix:
  "apply_all (xs @ ys) rv r = (Inr True, rv2, r2) \<Longrightarrow> \<exists>rv1 r1. apply_all xs rv r = (Inr True, rv1, r1)"
  by (induction xs arbitrary: rv r) (auto simp only: apply_all_Cons append_Cons append_Nil, simp, blast)

text \<open>Reading the records of the events, with anything behind them, applies the events.\<close>

lemma replay_loop_apply:
  assumes "list_all2 (\<lambda>ev bytes. serialize ev = Some bytes) evs bss" "\<forall>ev \<in> set evs. ticks_fit ev"
  shows "replay_loop clock \<lparr>ifs_data = concat bss @ rest, ifs_broken = bk\<rparr> rv r =
    (case apply_all evs rv r of
       (Inl ex, rv', r') \<Rightarrow> (Inl ex, rv', r')
     | (Inr False, rv', r') \<Rightarrow> (Inr False, rv', r')
     | (Inr True, rv', r') \<Rightarrow> replay_loop clock \<lparr>ifs_data = rest, ifs_broken = bk\<rparr> rv' r')"
  using assms
proof (induction arbitrary: rv r rule: list_all2_induct)
  case (Cons ev evs bytes bss)
  have b: "bytes = frame (ev_sequence ev) (ev_command ev) (ev_payload ev)" "length (ev_payload ev) \<le> kMaxPayloadSize"
    using serialize_frame [OF Cons(1)] by auto
  have rd: "readRecord \<lparr>ifs_data = bytes @ concat bss @ rest, ifs_broken = bk\<rparr> = Got (ev_record ev) \<lparr>ifs_data = concat bss @ rest, ifs_broken = bk\<rparr>"
    using readRecord_frame [OF b(2)] by (simp add: b(1) ev_record_def)
  have q: "rr_sequence (ev_record ev) = ev_sequence ev" by (simp add: ev_record_def)
  have p: "processRecord now (ev_record ev) rv1 r = apply_event 0 ev rv1 r" for now rv1
    using Cons.prems by (simp add: processRecord_event apply_event_now [of now])
  obtain ok rv1 where s: "validateSequence (ev_sequence ev) rv = (ok, rv1)" by fastforce
  obtain x rv2 r2 where a: "apply_event 0 ev rv1 r = (x, rv2, r2)" by (cases "apply_event 0 ev rv1 r") auto
  have l: "replay_loop clock \<lparr>ifs_data = concat (bytes # bss) @ rest, ifs_broken = bk\<rparr> rv r =
    (if \<not> ok then (Inr False, rv1, r) else case (x, rv2, r2) of
       (Inl ex, rv2, e2) \<Rightarrow> (Inl ex, rv2, e2)
     | (Inr False, rv2, e2) \<Rightarrow> (Inr False, rv2, e2)
     | (Inr True, rv2, e2) \<Rightarrow> replay_loop clock \<lparr>ifs_data = concat bss @ rest, ifs_broken = bk\<rparr> rv2 e2)"
    by (cases ok) (simp_all add: replay_loop.simps [of _ "\<lparr>ifs_data = bytes @ concat bss @ rest, ifs_broken = bk\<rparr>"] rd s p q a)
  show ?case
    unfolding l using Cons.IH [of rv2 r2] Cons.prems s a
    by (cases ok; cases x; auto split: bool.splits)
qed simp

subsection \<open>One event on the replica\<close>

text \<open>What a record can carry: the trader's identifier in 32 bits, the price in whole ticks.\<close>

definition journalable :: "order \<Rightarrow> bool" where
  "journalable x \<longleftrightarrow> order_id x \<noteq> 0 \<and> trader_id x \<noteq> 0 \<and> trader_id x < 2 ^ 32 \<and>
     (\<exists>k. 0 < k \<and> k \<le> 10 ^ 15 \<and> price x = ticksToDouble k)"

lemma journalable_core [simp]: "journalable (core x) = journalable x"
  by (simp add: journalable_def)

lemma journalable_reduce [simp]: "journalable (x\<lparr>remaining_quantity := q\<rparr>) = journalable x" "journalable (x\<lparr>priority_seq := n\<rparr>) = journalable x"
  by (simp_all add: journalable_def)

lemma journalable_price:
  assumes "journalable x"
  shows "ticksToDouble (doubleToTicks ub (price x)) = price x" "pos_finite (price x)" "in_i64 (doubleToTicks ub (price x))"
proof -
  obtain k where k: "0 < k" "k \<le> 10 ^ 15" "price x = ticksToDouble k" using assms by (auto simp: journalable_def)
  obtain p where p: "ticksToDouble k = Fin p" "0 < p" "doubleToTicks ub (Fin p) = k" using ticks_roundtrip [OF k(1,2)] by blast
  show "ticksToDouble (doubleToTicks ub (price x)) = price x" "pos_finite (price x)" "in_i64 (doubleToTicks ub (price x))"
    using k p by (simp_all add: in_i64_def)
qed

lemma journalable_trader: "journalable x \<Longrightarrow> (ucast (ucast (trader_id x) :: u32) :: u64) = trader_id x"
proof -
  assume "journalable x"
  then have "unat (trader_id x) < 4294967296" by (simp add: journalable_def word_less_nat_alt)
  then show ?thesis by (simp add: word_unat_eq_iff unsigned_ucast_eq unsigned_take_bit_eq take_bit_nat_eq_self)
qed

lemma book_ids: "set (ids (book_orders b)) = (\<Union>sd. set (ids (view b sd)))"
proof -
  have "(\<Union>sd. f sd) = f BUY \<union> f SELL" for f :: "order_side \<Rightarrow> u64 set"
  proof -
    have "(UNIV :: order_side set) = {BUY, SELL}" by (auto, metis order_side.exhaust)
    show ?thesis unfolding \<open>UNIV = {BUY, SELL}\<close> by simp
  qed
  then show ?thesis using set_book_orders [of b BUY] by (simp add: image_Un)
qed

lemma restored_order:
  assumes "journalable x" "restable x"
  shows "\<exists>y. Order now (order_id x) (ucast (ucast (trader_id x) :: u32)) (if side x = BUY then BUY else SELL) LIMIT
      (ticksToDouble (doubleToTicks ub (price x))) (quantity x) (symbol_id x) = Inr y \<and>
    core ((setTimestamp ts y)\<lparr>priority_seq := priority_seq x, remaining_quantity := remaining_quantity x\<rparr>) = core x"
proof -
  have q: "quantity x \<noteq> 0" using assms(2) by (auto simp: restable_def)
  have n: "\<not> (d_le (price x) (Fin 0) \<or> isnan (price x) \<or> isinf (price x))"
    using journalable_price(2) [OF assms(1)] not_pos_finite_iff by blast
  have i: "order_id x \<noteq> 0" "trader_id x \<noteq> 0" using assms(1) by (simp_all add: journalable_def)
  have s: "(if side x = BUY then BUY else SELL) = side x" by (cases "side x") simp_all
  show ?thesis
    unfolding journalable_price(1) [OF assms(1)] journalable_trader [OF assms(1)] s Order_def Let_def
    using q n i assms(2) by (simp add: setTimestamp_def core_def restable_def)
qed

lemma apply_accepted:
  assumes wf: "book_wf capacity (eng_book r)" and x: "journalable x" "restable x"
    and fresh: "order_id x \<notin> set (ids (book_orders (eng_book r)))" and room: "0 < pool_free (eng_book r)"
    and prio: "rv_new_orders_replayed rv = 0 \<or> rv_max_priority rv < priority_seq x"
  obtains b' where "apply_event 0 (accepted_ev v x (price x) (quantity x) (remaining_quantity x) (priority_seq x) n) rv r =
      (Inr True, rv\<lparr>rv_max_priority := priority_seq x, rv_new_orders_replayed := rv_new_orders_replayed rv + 1,
        rv_records_replayed := rv_records_replayed rv + 1\<rparr>, r\<lparr>eng_book := b'\<rparr>)"
    "book_wf capacity b'" "\<And>sd. view b' sd = (if sd = side x then insert_prio (core x) (view (eng_book r) sd) else view (eng_book r) sd)"
proof -
  obtain y where y: "Order 0 (order_id x) (ucast (ucast (trader_id x) :: u32)) (if side x = BUY then BUY else SELL) LIMIT
      (ticksToDouble (doubleToTicks (env_ub v) (price x))) (quantity x) (symbol_id x) = Inr y"
    "core ((setTimestamp (sint (env_epoch v)) y)\<lparr>priority_seq := priority_seq x, remaining_quantity := remaining_quantity x\<rparr>) = core x"
    using restored_order [OF x, of 0 "env_ub v" "sint (env_epoch v)"] by blast
  let ?y = "(setTimestamp (sint (env_epoch v)) y)\<lparr>priority_seq := priority_seq x\<rparr>"
  let ?z = "?y\<lparr>remaining_quantity := remaining_quantity x\<rparr>"
  have c: "core ?z = core x" using y(2) .
  have z: "order_id ?z = order_id x" "side ?z = side x" "otype ?z = otype x" "price ?z = price x" "quantity ?z = quantity x"
    using c by (metis core_simps(1), metis core_simps(4), metis core_simps(5), metis core_simps(6), metis core_simps(7))
  have yz: "order_id ?y = order_id x" "otype ?y = otype x" "price ?y = price x" "quantity ?y = quantity x" using z by simp_all
  have rz: "restable ?z" using x(2) z by (simp add: restable_def)
  obtain b' where b': "addOrder ?z (eng_book r) = (True, b')" "book_wf capacity b'"
    "flat (side ?z) b' = insert_prio ?z (flat (side ?z) (eng_book r))"
    "side_levels (other (side ?z)) b' = side_levels (other (side ?z)) (eng_book r)"
    using addOrder_ok [OF wf rz _ room] fresh z(1) by metis
  have p: "validatePrioritySequence (priority_seq x) rv = (True, rv\<lparr>rv_max_priority := priority_seq x\<rparr>)"
    using prio by (auto simp: validatePrioritySequence_def)
  have g: "getOrderById (order_id x) (eng_book r) = None" using fresh by (simp add: getOrderById_None)
  have pf: "\<not> (\<not> isfinite (price x) \<or> d_le (price x) (Fin 0))" using x(2) by (simp add: restable_def pos_finite_def)
  have rq: "quantity x \<noteq> 0" "remaining_quantity x \<noteq> 0" "\<not> quantity x < remaining_quantity x" "otype x = LIMIT"
    using x(2) by (auto simp: restable_def)
  have "restoreOrder ?y (remaining_quantity x) r = (True, r\<lparr>eng_book := b'\<rparr>)"
    unfolding restoreOrder_def yz using rq pf g b'(1) by simp
  then have "apply_event 0 (accepted_ev v x (price x) (quantity x) (remaining_quantity x) (priority_seq x) n) rv r =
      (Inr True, rv\<lparr>rv_max_priority := priority_seq x, rv_new_orders_replayed := rv_new_orders_replayed rv + 1,
        rv_records_replayed := rv_records_replayed rv + 1\<rparr>, r\<lparr>eng_book := b'\<rparr>)"
    using rq p y(1) by (simp add: accepted_ev_def)
  moreover have "view b' sd = (if sd = side x then insert_prio (core x) (view (eng_book r) sd) else view (eng_book r) sd)" for sd
    using side_cases [of sd "side x"] b'(3,4) z(2) insert_prio_core [of ?z "flat (side x) (eng_book r)"]
    unfolding view_def c by (auto simp: flat_def)
  ultimately show thesis using that b'(2) by blast
qed

lemma view_split:
  assumes "book_wf capacity b" "x \<in> set (view b sd)"
  shows "order_id x \<notin> set (ids (view b (other sd)))"
proof -
  have "distinct (ids (flat sd b @ flat (other sd) b))" using assms(1) by (simp add: book_wf_alt [of _ _ sd])
  moreover have "order_id x \<in> set (ids (flat sd b))" using assms(2) by (auto simp: view_def)
  ultimately show ?thesis by auto
qed

lemma apply_fill:
  assumes wf: "book_wf capacity (eng_book r)" and q: "q \<noteq> 0" and x: "x \<in> set (view (eng_book r) sd)" "q \<le> remaining_quantity x"
  obtains b' where "eng_applyFill (order_id x) q r = (True, r\<lparr>eng_book := b'\<rparr>)" "book_wf capacity b'"
    "view b' sd = fill_orders (order_id x) q (view (eng_book r) sd)" "view b' (other sd) = view (eng_book r) (other sd)"
proof -
  obtain y where y: "y \<in> set (flat sd (eng_book r))" "x = core y" using x(1) by (auto simp: view_def)
  have g: "getOrderById (order_id x) (eng_book r) = Some y"
    using getOrderById_Some [OF wf] y set_book_orders [of "eng_book r" sd] by simp
  show thesis
  proof (rule applyFill_effect [OF wf, of "order_id x" q])
    fix b' assume a: "applyFill (order_id x) q (eng_book r) =
        (0 < q \<and> (\<exists>z. getOrderById (order_id x) (eng_book r) = Some z \<and> q \<le> remaining_quantity z), b')"
      and w: "book_wf capacity b'"
      and f: "fst (applyFill (order_id x) q (eng_book r)) \<Longrightarrow> \<forall>sd. flat sd b' = fill_orders (order_id x) q (flat sd (eng_book r))"
    have ok: "applyFill (order_id x) q (eng_book r) = (True, b')" using a g q x(2) y(2) by (simp add: word_neq_0_conv)
    then have v: "view b' s = fill_orders (order_id x) q (view (eng_book r) s)" for s
      using f by (simp add: view_def fill_orders_core)
    then show thesis
      using that [OF _ w] ok fill_orders_notin [OF view_split [OF wf x(1)]] by (simp add: eng_applyFill_def)
  qed
qed

lemma apply_cancelled:
  assumes wf: "book_wf capacity (eng_book r)" and x: "oid \<in> set (ids (book_orders (eng_book r)))"
  obtains b' where "restoreCancel oid r = (True, r\<lparr>eng_book := b'\<rparr>)" "book_wf capacity b'"
    "\<And>sd. view b' sd = filter (\<lambda>y. order_id y \<noteq> oid) (view (eng_book r) sd)"
  by (rule cancelOrder_effect [OF wf, of oid]) (use x that in \<open>auto simp: restoreCancel_def view_def filter_core\<close>)

subsection \<open>Sequence numbers\<close>

definition in_sequence :: "u64 \<Rightarrow> recovery \<Rightarrow> bool" where
  "in_sequence n rv \<longleftrightarrow> rv_first_record rv \<or> (rv_last_sequence rv \<noteq> UINT64_MAX \<and> n = rv_last_sequence rv + 1)"

abbreviation heard :: "u64 \<Rightarrow> recovery \<Rightarrow> recovery" where
  "heard n rv \<equiv> rv\<lparr>rv_first_record := False, rv_last_sequence := n\<rparr>"

lemma validateSequence_ok: "in_sequence n rv \<Longrightarrow> validateSequence n rv = (True, heard n rv)"
  by (cases rv) (auto simp: in_sequence_def validateSequence_def)

lemma in_sequence_heard: "unat n + 1 < 2 ^ 64 \<Longrightarrow> rv_first_record rv = False \<Longrightarrow> rv_last_sequence rv = n \<Longrightarrow> in_sequence (n + 1) rv"
  by (auto simp: in_sequence_def)

lemma numbered_Cons [simp]: "numbered n (ev # evs) \<longleftrightarrow> ev_sequence ev = n \<and> numbered (n + 1) evs"
  unfolding numbered_def by (simp add: upt_conv_Cons map_Suc_upt [symmetric] comp_def add.assoc del: upt_Suc)

lemma numbered_append: "numbered n (xs @ ys) \<longleftrightarrow> numbered n xs \<and> numbered (n + of_nat (length xs)) ys"
  by (induction xs arbitrary: n) (auto simp: numbered_def [of _ "[]"] add.assoc)

lemma unat_Suc_seq: "unat n + Suc k < 2 ^ 64 \<Longrightarrow> unat (n + 1) = unat n + 1" for n :: u64
  by (simp add: unat_plus_if')

text \<open>The trades of one order, applied to the replica.\<close>

lemma apply_trades:
  assumes "trade_events v (side inc) sy (trades_of now k inc fs) tes" "numbered n tes" "unat n + length tes < 2 ^ 64"
    "book_wf capacity (eng_book r)" "fills_ok fs (view (eng_book r) (other (side inc)))" "in_sequence n rv"
  shows "\<exists>rv' b'. apply_all tes rv r = (Inr True, rv', r\<lparr>eng_book := b'\<rparr>) \<and> book_wf capacity b' \<and>
    view b' (other (side inc)) = run_fills fs (view (eng_book r) (other (side inc))) \<and>
    view b' (side inc) = view (eng_book r) (side inc) \<and> in_sequence (n + of_nat (length tes)) rv' \<and>
    rv_new_orders_replayed rv' = rv_new_orders_replayed rv \<and> rv_max_priority rv' = rv_max_priority rv"
  using assms
proof (induction fs arbitrary: k tes n rv r)
  case Nil
  then show ?case by (intro exI [of _ rv] exI [of _ "eng_book r"]) (simp add: trade_events_def)
next
  case (Cons f fs)
  let ?sd = "side inc"
  obtain ev evs m where tes: "tes = ev # evs" "ev = trade_ev v ?sd sy (trade_of now k inc (fst f) (snd f)) m"
    "trade_events v ?sd sy (trades_of now (k + 1) inc fs) evs"
    using Cons.prems(1) by (auto simp: trade_events_def list_all2_Cons1)
  have n: "ev_sequence ev = n" "numbered (n + 1) evs" "unat (n + 1) + length evs < 2 ^ 64" "unat n + 1 < 2 ^ 64"
    using Cons.prems(2,3) unat_Suc_seq [of n "length evs"] by (auto simp: tes(1))
  obtain x where x: "x \<in> set (view (eng_book r) (other ?sd))" "order_id x = order_id (fst f)" "snd f \<le> remaining_quantity x" "snd f \<noteq> 0"
    and ok: "fills_ok fs (fill_orders (order_id (fst f)) (snd f) (view (eng_book r) (other ?sd)))"
    using Cons.prems(5) by auto
  obtain b1 where b1: "eng_applyFill (order_id x) (snd f) r = (True, r\<lparr>eng_book := b1\<rparr>)" "book_wf capacity b1"
    "view b1 (other ?sd) = fill_orders (order_id x) (snd f) (view (eng_book r) (other ?sd))" "view b1 ?sd = view (eng_book r) ?sd"
    using apply_fill [OF Cons.prems(4) x(4,1,3)] by (metis other_other)
  let ?rv1 = "heard n rv" and ?r1 = "r\<lparr>eng_book := b1\<rparr>"
  let ?rv2 = "?rv1\<lparr>rv_records_replayed := rv_records_replayed ?rv1 + 1\<rparr>"
  have a: "apply_event 0 ev ?rv1 r = (Inr True, ?rv2, ?r1)"
    using b1(1) x(2) by (simp add: tes(2) trade_ev_def trade_of_def counted_def)
  have "in_sequence (n + 1) ?rv2" using n(4) by (rule in_sequence_heard) simp_all
  then obtain rv' b' where "apply_all evs ?rv2 ?r1 = (Inr True, rv', ?r1\<lparr>eng_book := b'\<rparr>)" "book_wf capacity b'"
    "view b' (other ?sd) = run_fills fs (view b1 (other ?sd))" "view b' ?sd = view b1 ?sd"
    "in_sequence (n + 1 + of_nat (length evs)) rv'"
    "rv_new_orders_replayed rv' = rv_new_orders_replayed ?rv2" "rv_max_priority rv' = rv_max_priority ?rv2"
    using Cons.IH [OF tes(3) n(2,3), of ?r1 ?rv2] b1 ok x(2) by auto
  then show ?case
    using a validateSequence_ok [OF Cons.prems(6)] b1 x(2)
    by (intro exI [of _ rv'] exI [of _ b']) (simp add: tes(1) n(1) add.assoc)
qed

subsection \<open>One order on both sides\<close>

lemma run_fills_core: "run_fills fs (map core os) = map core (run_fills fs os)"
  by (induction fs arbitrary: os) (simp_all add: fill_orders_core)

lemma fills_ok_core: "fills_ok fs (map core os) = fills_ok fs os"
  by (induction fs arbitrary: os) (simp_all add: fill_orders_core)

text \<open>Every resting order has something left and fits in a record.\<close>

definition book_live :: "book \<Rightarrow> bool" where
  "book_live b \<longleftrightarrow> (\<forall>sd. \<forall>x \<in> set (flat sd b). remaining_quantity x \<noteq> 0 \<and> journalable x)"

lemma swept_rest_journalable: "\<forall>x \<in> set os. journalable x \<Longrightarrow> x \<in> set (swept_rest inc os) \<Longrightarrow> journalable x"
proof -
  assume a: "\<forall>x \<in> set os. journalable x" "x \<in> set (swept_rest inc os)"
  obtain y where "y \<in> set os" "core x = (core y)\<lparr>remaining_quantity := remaining_quantity x\<rparr>" using swept_rest_subset [OF a(2)] by blast
  then show "journalable x" using a(1) by (metis journalable_core journalable_reduce(1))
qed

lemma swept_rest_ids: "set (ids (swept_rest inc os)) \<subseteq> set (ids os)"
proof
  fix i assume "i \<in> set (ids (swept_rest inc os))"
  then obtain x where x: "x \<in> set (swept_rest inc os)" "i = order_id x" by auto
  obtain y where "y \<in> set os" "core x = (core y)\<lparr>remaining_quantity := remaining_quantity x\<rparr>" using swept_rest_subset [OF x(1)] by blast
  moreover from this have "order_id x = order_id y" by (metis core_simps(1) order.select_convs(1) order.surjective order.update_convs(8))
  ultimately show "i \<in> set (ids os)" using x(2) by auto
qed

lemma swept_in_same:
  "side (swept_in inc os) = side inc" "symbol_id (swept_in inc os) = symbol_id inc" "otype (swept_in inc os) = otype inc"
  "order_id (swept_in inc os) = order_id inc" "priority_seq (swept_in inc os) = priority_seq inc"
  "quantity (swept_in inc os) = quantity inc" "price (swept_in inc os) = price inc" "journalable (swept_in inc os) = journalable inc"
  by (subst swept_in_eq; simp)+

lemma may_rest_iff: "may_rest t \<longleftrightarrow> t = LIMIT"
  by (cases t) (simp_all add: may_rest_def)

lemma matched_live:
  assumes "book_live b0" "matched now inc b0 ts inc' b'" "otype inc = LIMIT \<Longrightarrow> journalable inc"
  shows "book_live b'"
proof -
  let ?sd = "side inc" and ?os = "flat (other (side inc)) b0"
  have o: "\<forall>x \<in> set (flat s b0). remaining_quantity x \<noteq> 0 \<and> journalable x" for s using assms(1) by (simp add: book_live_def)
  have f: "flat (other ?sd) b' = swept_rest inc ?os"
    "set (flat ?sd b') \<subseteq> set (flat ?sd b0) \<union> (if otype inc = LIMIT \<and> 0 < remaining_quantity inc' then {inc'} else {})"
    and i: "inc' = swept_in inc ?os"
    using assms(2) by (auto simp: matched_def Let_def split: if_splits)
  have "remaining_quantity x \<noteq> 0 \<and> journalable x" if x: "x \<in> set (flat s b')" for s x
  proof (cases "s = ?sd")
    case True
    then have "x \<in> set (flat ?sd b0) \<or> otype inc = LIMIT \<and> 0 < remaining_quantity inc' \<and> x = inc'" using x f(2) by (auto split: if_splits)
    then show ?thesis using o [of ?sd] assms(3) swept_in_same(8) [of inc ?os] i by auto
  next
    case False
    then have "x \<in> set (swept_rest inc ?os)" using x f(1) side_cases [of s ?sd] by auto
    then show ?thesis using swept_rest_live [of ?os x inc] swept_rest_journalable [of ?os x inc] o [of "other ?sd"] by blast
  qed
  then show ?thesis by (simp add: book_live_def)
qed

end
