(* ===== verification/Event_Replay.thy ===== *)
theory Event_Replay
  imports Event_Sourcing
begin

text \<open>
  Event sourcing: replaying the journal of an engine rebuilds its book. The live engine and the replica run side by
  side; after every operation the events it published bring the replica to the same orders, in the
  same priority, as in the live book.
\<close>

definition replica :: "nat \<Rightarrow> book \<Rightarrow> book \<Rightarrow> bool" where
  "replica capacity b rb \<longleftrightarrow> book_wf capacity rb \<and> (\<forall>sd. view rb sd = view b sd)"

lemma replica_wf: "replica capacity b rb \<Longrightarrow> book_wf capacity rb"
  by (simp add: replica_def)

lemma replica_view: "replica capacity b rb \<Longrightarrow> view rb sd = view b sd"
  by (simp add: replica_def)

lemma replica_ids:
  assumes "replica capacity b rb"
  shows "set (ids (book_orders rb)) = set (ids (book_orders b))"
  unfolding book_ids using assms by (simp add: replica_def)

lemma view_room:
  assumes "book_wf capacity b" "book_wf capacity rb" "length (view rb sd) + length (view rb (other sd)) \<le> length (view b sd) + length (view b (other sd))"
  shows "pool_free b \<le> pool_free rb"
  using assms by (simp add: book_wf_alt [of _ _ sd])

text \<open>The acceptance that ends the events of a limit order with a remainder.\<close>

definition rest_events :: "env \<Rightarrow> order \<Rightarrow> u64 \<Rightarrow> market_event list" where
  "rest_events v inc' m =
     (if 0 < remaining_quantity inc' \<and> may_rest (otype inc')
      then [accepted_ev v inc' (price inc') (quantity inc') (remaining_quantity inc') (priority_seq inc') m] else [])"

lemma view_ids:
  assumes "\<And>sd. set (ids (view b1 sd)) \<subseteq> set (ids (view b0 sd))"
  shows "set (ids (book_orders b1)) \<subseteq> set (ids (book_orders b0))"
  unfolding book_ids using assms by (rule UN_mono [OF subset_refl])

text \<open>The trade events take the replica to the swept book.\<close>

lemma apply_sweep:
  assumes wf: "book_wf capacity b0" and live: "book_live b0"
    and ev: "trade_events v (side inc) sy (trades_of now k inc (swept_fills inc (flat (other (side inc)) b0))) tes" "numbered n tes"
      "unat n + length tes < 2 ^ 64"
    and rep: "replica capacity b0 (eng_book r)" and rv: "in_sequence n rv"
  obtains rv' b1 where "apply_all tes rv r = (Inr True, rv', r\<lparr>eng_book := b1\<rparr>)" "book_wf capacity b1"
    "view b1 (other (side inc)) = map core (swept_rest inc (flat (other (side inc)) b0))" "view b1 (side inc) = view b0 (side inc)"
    "set (ids (book_orders b1)) \<subseteq> set (ids (book_orders b0))" "pool_free b0 \<le> pool_free b1"
    "in_sequence (n + of_nat (length tes)) rv'" "rv_new_orders_replayed rv' = rv_new_orders_replayed rv" "rv_max_priority rv' = rv_max_priority rv"
proof -
  let ?sd = "side inc" and ?os = "flat (other (side inc)) b0"
  let ?fs = "swept_fills inc ?os"
  have d: "distinct (ids ?os)" using wf by (simp add: book_wf_alt [of _ _ ?sd])
  have "\<forall>x \<in> set ?os. remaining_quantity x \<noteq> 0" using live by (simp add: book_live_def)
  then have F: "fills_ok ?fs (map core ?os)" "run_fills ?fs (map core ?os) = map core (swept_rest inc ?os)"
    using sweep_as_fills [OF d, of inc] by (simp_all add: fills_ok_core run_fills_core)
  have vo: "view (eng_book r) (other ?sd) = map core ?os" using replica_view [OF rep] by (simp add: view_def)
  obtain rv1 b1 where b1: "apply_all tes rv r = (Inr True, rv1, r\<lparr>eng_book := b1\<rparr>)" "book_wf capacity b1"
    "view b1 (other ?sd) = map core (swept_rest inc ?os)" "view b1 ?sd = view b0 ?sd" "in_sequence (n + of_nat (length tes)) rv1"
    "rv_new_orders_replayed rv1 = rv_new_orders_replayed rv" "rv_max_priority rv1 = rv_max_priority rv"
    using apply_trades [OF ev replica_wf [OF rep] _ rv] vo F replica_view [OF rep] by auto
  have "set (ids (view b1 sd)) \<subseteq> set (ids (view b0 sd))" for sd
    using side_cases [of sd ?sd] swept_rest_ids [of inc ?os] b1(3,4) by (elim disjE) (simp_all del: ids_view add: view_def)
  then have "set (ids (book_orders b1)) \<subseteq> set (ids (book_orders b0))" by (rule view_ids)
  moreover have "pool_free b0 \<le> pool_free b1"
    using view_room [OF wf b1(2), of ?sd] b1(3,4) length_swept_rest [of inc ?os] by simp
  ultimately show thesis using that b1 by blast
qed

text \<open>The acceptance event of a resting remainder takes the replica to the book with it inserted.\<close>

lemma apply_rested:
  assumes wf: "book_wf capacity b" and j: "journalable ord" "restable ord"
    and fresh: "order_id ord \<notin> set (ids (book_orders b))" and room: "0 < pool_free b"
    and prio: "rv_new_orders_replayed rv = 0 \<or> rv_max_priority rv < priority_seq ord"
    and rv: "in_sequence n rv"
    and n: "ev_sequence (accepted_ev v ord (price ord) (quantity ord) (remaining_quantity ord) (priority_seq ord) k) = n"
      "unat n + 1 < 2 ^ 64"
  obtains rv' b' where
    "apply_all [accepted_ev v ord (price ord) (quantity ord) (remaining_quantity ord) (priority_seq ord) k] rv
       (r\<lparr>eng_book := b\<rparr>) = (Inr True, rv', r\<lparr>eng_book := b'\<rparr>)" "book_wf capacity b'"
    "\<And>sd. view b' sd = (if sd = side ord then insert_prio (core ord) (view b sd) else view b sd)"
    "in_sequence (n + 1) rv'" "rv_new_orders_replayed rv' = rv_new_orders_replayed rv + 1"
    "rv_max_priority rv' = priority_seq ord"
proof -
  let ?a = "accepted_ev v ord (price ord) (quantity ord) (remaining_quantity ord) (priority_seq ord) k"
  let ?rv1 = "heard n rv" and ?r = "r\<lparr>eng_book := b\<rparr>"
  let ?rv2 = "?rv1\<lparr>rv_max_priority := priority_seq ord, rv_new_orders_replayed := rv_new_orders_replayed ?rv1 + 1,
      rv_records_replayed := rv_records_replayed ?rv1 + 1\<rparr>"
  have w: "book_wf capacity (eng_book ?r)" "order_id ord \<notin> set (ids (book_orders (eng_book ?r)))" "0 < pool_free (eng_book ?r)"
    and p: "rv_new_orders_replayed ?rv1 = 0 \<or> rv_max_priority ?rv1 < priority_seq ord"
    using wf fresh room prio by simp_all
  obtain b2 where b2: "apply_event 0 ?a ?rv1 ?r = (Inr True, ?rv2, ?r\<lparr>eng_book := b2\<rparr>)" "book_wf capacity b2"
    "\<And>sd. view b2 sd = (if sd = side ord then insert_prio (core ord) (view (eng_book ?r) sd) else view (eng_book ?r) sd)"
    using apply_accepted [OF w(1) j w(2,3) p] by blast
  have "in_sequence (n + 1) ?rv2" using n(2) by (rule in_sequence_heard) simp_all
  then show thesis
    using b2 validateSequence_ok [OF rv] n(1) by (intro that [of ?rv2 b2]) simp_all
qed

lemma apply_matched:
  assumes wf: "book_wf capacity b0" and live: "book_live b0" and inc: "incoming_ok inc b0" and room: "0 < pool_free b0"
    and jn: "otype inc = LIMIT \<Longrightarrow> journalable inc" and m: "matched now inc b0 ts inc' b'"
    and ev: "trade_events v (side inc') (symbol_id inc') ts tes" "numbered n (tes @ rest_events v inc' m')"
      "unat n + length (tes @ rest_events v inc' m') < 2 ^ 64"
    and rep: "replica capacity b0 (eng_book r)" and rv: "in_sequence n rv"
      "rv_new_orders_replayed rv = 0 \<or> rv_max_priority rv < priority_seq inc"
  shows "\<exists>rv' rb. apply_all (tes @ rest_events v inc' m') rv r = (Inr True, rv', r\<lparr>eng_book := rb\<rparr>) \<and> replica capacity b' rb \<and>
    in_sequence (n + of_nat (length (tes @ rest_events v inc' m'))) rv' \<and>
    (if otype inc = LIMIT \<and> 0 < remaining_quantity inc'
     then rv_new_orders_replayed rv' = rv_new_orders_replayed rv + 1 \<and> rv_max_priority rv' = priority_seq inc
     else rv_new_orders_replayed rv' = rv_new_orders_replayed rv \<and> rv_max_priority rv' = rv_max_priority rv)"
proof -
  let ?sd = "side inc" and ?os = "flat (other (side inc)) b0"
  let ?fs = "swept_fills inc ?os"
  have i': "inc' = swept_in inc ?os" and ts: "ts = trades_of now (next_trade_id b0) inc ?fs"
    and fo: "flat (other ?sd) b' = swept_rest inc ?os"
    and fs: "flat ?sd b' = (if otype inc = LIMIT \<and> 0 < remaining_quantity inc' then insert_prio inc' (flat ?sd b0) else flat ?sd b0)"
    using m room length_swept_rest [of inc ?os] by (auto simp: matched_def Let_def)
  note same = swept_in_same [of inc ?os, folded i']
  have nt: "numbered n tes" "unat n + length tes < 2 ^ 64" using ev(2,3) by (auto simp: numbered_append)
  obtain rv1 b1 where b1: "apply_all tes rv r = (Inr True, rv1, r\<lparr>eng_book := b1\<rparr>)" "book_wf capacity b1"
    "view b1 (other ?sd) = map core (swept_rest inc ?os)" "view b1 ?sd = view b0 ?sd"
    "set (ids (book_orders b1)) \<subseteq> set (ids (book_orders b0))" "pool_free b0 \<le> pool_free b1" "in_sequence (n + of_nat (length tes)) rv1"
    "rv_new_orders_replayed rv1 = rv_new_orders_replayed rv" "rv_max_priority rv1 = rv_max_priority rv"
    using apply_sweep [OF wf live ev(1) [unfolded same ts] nt rep rv(1)] .
  show ?thesis
  proof (cases "otype inc = LIMIT \<and> 0 < remaining_quantity inc'")
    case False
    have "view b1 sd = view b' sd" for sd
      using side_cases [of sd ?sd] b1(3,4) False by (auto simp: view_def fo fs)
    moreover have "rest_events v inc' m' = []" using False same(3) by (auto simp: rest_events_def may_rest_iff)
    ultimately show ?thesis
      using b1 False by (intro exI [of _ rv1] exI [of _ b1]) (simp add: replica_def)
  next
    case True
    let ?a = "accepted_ev v inc' (price inc') (quantity inc') (remaining_quantity inc') (priority_seq inc') m'"
    let ?n = "n + of_nat (length tes)"
    have e: "rest_events v inc' m' = [?a]" using True same(3) by (simp add: rest_events_def may_rest_iff)
    have j: "journalable inc'" using jn True same(8) by simp
    have r': "restable inc'"
      using True inc journalable_price(2) [OF j] swept_in_le [of inc ?os] same by (auto simp: restable_def incoming_ok_def i')
    have fresh: "order_id inc' \<notin> set (ids (book_orders b1))" using inc b1(5) same(4) by (auto simp: incoming_ok_def)
    have p: "rv_new_orders_replayed rv1 = 0 \<or> rv_max_priority rv1 < priority_seq inc'" using rv(2) b1(8,9) same(5) by simp
    have sq: "ev_sequence ?a = ?n" "unat n + length tes + 1 < 2 ^ 64"
      using ev(2,3) unfolding e by (simp_all add: numbered_append)
    then have un: "unat ?n + 1 < 2 ^ 64" by (simp add: unat_word_ariths unat_of_nat)
    have "0 < pool_free b1" using b1(6) room by simp
    from apply_rested [OF b1(2) j r' fresh this p b1(7) sq(1) un]
    obtain rv2 b2 where b2: "apply_all [?a] rv1 (r\<lparr>eng_book := b1\<rparr>) = (Inr True, rv2, r\<lparr>eng_book := b2\<rparr>)" "book_wf capacity b2"
      "\<And>sd. view b2 sd = (if sd = side inc' then insert_prio (core inc') (view b1 sd) else view b1 sd)"
      "in_sequence (?n + 1) rv2" "rv_new_orders_replayed rv2 = rv_new_orders_replayed rv1 + 1" "rv_max_priority rv2 = priority_seq inc'"
      by metis
    have "view b2 sd = view b' sd" for sd
      unfolding b2(3) using side_cases [of sd ?sd] b1(3,4) True same(1) by (auto simp: view_def fo fs insert_prio_core)
    then have "replica capacity b' b2" using b2(2) by (simp add: replica_def)
    then show ?thesis
      unfolding e apply_all_append [OF b1(1)] using b2 same(5) b1(8) True
      by (intro exI [of _ rv2] exI [of _ b2]) (simp add: ac_simps)
  qed
qed

subsection \<open>The events of an operation\<close>

text \<open>What the journal writes and recovery can read back.\<close>

definition recordable :: "market_event \<Rightarrow> bool" where
  "recordable ev \<longleftrightarrow> ticks_fit ev \<and> serialize ev \<noteq> None \<and> (\<forall>a. ev = OrderAcceptedEvent a \<longrightarrow> oa_prioritySeq a \<noteq> UINT64_MAX)"

lemma recordable_accepted:
  "journalable x \<Longrightarrow> prio \<noteq> UINT64_MAX \<Longrightarrow> recordable (accepted_ev v x (price x) q rem prio n)"
  using journalable_price(3) [of x "env_ub v"] by (simp add: recordable_def accepted_ev_def)

lemma recordable_cancelled: "recordable (cancelled_ev v oid old n)"
  by (simp add: recordable_def cancelled_ev_def)

lemma recordable_trade:
  assumes "journalable x"
  shows "recordable (trade_ev v sd sy (trade_of now k inc x q) n)"
proof -
  have "trade_price (trade_of now k inc x q) = price x" by (simp add: trade_of_def)
  then show ?thesis using journalable_price(3) [OF assms, of "env_ub v"] by (simp add: recordable_def trade_ev_def)
qed

lemma recordable_trades:
  "trade_events v sd sy (trades_of now k inc fs) tes \<Longrightarrow> \<forall>f \<in> set fs. journalable (fst f) \<Longrightarrow> \<forall>ev \<in> set tes. recordable ev"
proof (induction fs arbitrary: k tes)
  case Nil
  then show ?case by (simp add: trade_events_def)
next
  case (Cons f fs)
  obtain ev evs n where "tes = ev # evs" "ev = trade_ev v sd sy (trade_of now k inc (fst f) (snd f)) n"
    "trade_events v sd sy (trades_of now (k + 1) inc fs) evs"
    using Cons.prems(1) by (auto simp: trade_events_def list_all2_Cons1)
  then show ?case using Cons.IH [of "k + 1" evs] Cons.prems(2) recordable_trade by auto
qed

lemma matched_recordable:
  assumes "book_live b0" "matched now inc b0 ts inc' b'" "otype inc = LIMIT \<Longrightarrow> journalable inc" "priority_seq inc \<noteq> UINT64_MAX"
    "trade_events v (side inc') (symbol_id inc') ts tes"
  shows "\<forall>ev \<in> set (tes @ rest_events v inc' m). recordable ev"
proof -
  let ?os = "flat (other (side inc)) b0"
  have i: "inc' = swept_in inc ?os" and ts: "ts = trades_of now (next_trade_id b0) inc (swept_fills inc ?os)"
    using assms(2) by (auto simp: matched_def Let_def)
  have "\<forall>f \<in> set (swept_fills inc ?os). journalable (fst f)"
  proof
    fix f assume "f \<in> set (swept_fills inc ?os)"
    then have "fst f \<in> set ?os" using swept_fill_ok [of "fst f" "snd f" inc ?os] by simp
    then show "journalable (fst f)" using assms(1) by (simp add: book_live_def)
  qed
  then have "\<forall>ev \<in> set tes. recordable ev" using recordable_trades assms(5) unfolding ts by blast
  moreover have "\<forall>ev \<in> set (rest_events v inc' m). recordable ev"
    using assms(3,4) swept_in_same [of inc ?os, folded i] recordable_accepted [of inc' "priority_seq inc'" v]
    by (auto simp: rest_events_def may_rest_iff)
  ultimately show ?thesis by auto
qed

subsection \<open>The live engine and the replica in step\<close>

text \<open>
  Recovery has seen a priority as high as any in the book, below the counter; it counts at most one
  order per priority, so its count does not wrap.
\<close>

definition prio_known :: "engine \<Rightarrow> recovery \<Rightarrow> bool" where
  "prio_known e rv \<longleftrightarrow> (rv_new_orders_replayed rv = 0 \<or> rv_max_priority rv < eng_priority e) \<and>
     unat (rv_new_orders_replayed rv) \<le> unat (eng_priority e) \<and>
     (\<forall>sd. \<forall>x \<in> set (flat sd (eng_book e)). rv_new_orders_replayed rv \<noteq> 0 \<and> priority_seq x \<le> rv_max_priority rv)"

lemma prio_known_thin:
  assumes "prio_known e rv" "\<And>sd x. x \<in> set (flat sd (eng_book e')) \<Longrightarrow> \<exists>y \<in> set (flat sd (eng_book e)). priority_seq y = priority_seq x"
    "eng_priority e \<le> eng_priority e'" "rv_new_orders_replayed rv' = rv_new_orders_replayed rv" "rv_max_priority rv' = rv_max_priority rv"
  shows "prio_known e' rv'"
proof -
  have "unat (eng_priority e) \<le> unat (eng_priority e')" using assms(3) by (simp add: word_le_nat_alt)
  moreover have "priority_seq x \<le> rv_max_priority rv \<and> rv_new_orders_replayed rv \<noteq> 0" if "x \<in> set (flat sd (eng_book e'))" for sd x
    using assms(1) assms(2) [OF that] by (force simp: prio_known_def)
  ultimately show ?thesis using assms(1,3-5) by (auto simp: prio_known_def)
qed

lemma prio_known_new:
  assumes "prio_known e rv" "\<And>sd x. x \<in> set (flat sd (eng_book e')) \<Longrightarrow>
      (\<exists>y \<in> set (flat sd (eng_book e)). priority_seq y = priority_seq x) \<or> priority_seq x = eng_priority e"
    "eng_priority e \<noteq> UINT64_MAX" "eng_priority e' = eng_priority e + 1"
    "rv_new_orders_replayed rv' = rv_new_orders_replayed rv + 1" "rv_max_priority rv' = eng_priority e"
  shows "prio_known e' rv'"
proof -
  have up: "eng_priority e < eng_priority e'" using priority_step [OF assms(3)] assms(4) by simp
  have "unat (eng_priority e) \<noteq> 18446744073709551615" using assms(3) by (simp add: word_unat_eq_iff)
  then have "unat (eng_priority e) < 18446744073709551615" using unat_u64_less [of "eng_priority e"] by linarith
  then have u: "unat (eng_priority e') = unat (eng_priority e) + 1" by (simp add: assms(4) unat_plus_if')
  have "unat (eng_priority e') < 2 ^ 64" using unat_u64_less [of "eng_priority e'"] by simp
  then have c: "unat (rv_new_orders_replayed rv + 1) = unat (rv_new_orders_replayed rv) + 1"
    using assms(1) u by (simp add: prio_known_def unat_plus_if')
  have "rv_new_orders_replayed rv' \<noteq> 0" using c assms(5) by auto
  moreover have "priority_seq x \<le> rv_max_priority rv'" if x: "x \<in> set (flat sd (eng_book e'))" for sd x
  proof (cases "priority_seq x = eng_priority e")
    case False
    then obtain y where "y \<in> set (flat sd (eng_book e))" "priority_seq y = priority_seq x" using assms(2) [OF x] by auto
    then have "priority_seq x \<le> rv_max_priority rv" "rv_max_priority rv < eng_priority e" using assms(1) by (force simp: prio_known_def)+
    then show ?thesis using assms(6) by simp
  qed (simp add: assms(6))
  ultimately show ?thesis using up u c assms(1,5,6) by (auto simp: prio_known_def)
qed

lemma matched_prios:
  assumes "matched now inc b0 ts inc' b'" "x \<in> set (flat sd b')"
  shows "(\<exists>y \<in> set (flat sd b0). priority_seq y = priority_seq x) \<or>
    otype inc = LIMIT \<and> 0 < remaining_quantity inc' \<and> priority_seq x = priority_seq inc"
proof (cases "sd = side inc")
  case True
  then show ?thesis
    using assms swept_in_same(5) [of inc "flat (other (side inc)) b0"] by (auto simp: matched_def Let_def split: if_splits)
next
  case False
  then have "x \<in> set (swept_rest inc (flat sd b0))" using assms side_cases [of sd "side inc"] by (auto simp: matched_def Let_def)
  then obtain y where y: "y \<in> set (flat sd b0)" "core x = (core y)\<lparr>remaining_quantity := remaining_quantity x\<rparr>"
    using swept_rest_subset by blast
  have "priority_seq y = priority_seq x" using arg_cong [OF y(2), of priority_seq] by simp
  then show ?thesis using y(1) by blast
qed

definition follows :: "nat \<Rightarrow> engine \<Rightarrow> recovery \<Rightarrow> engine \<Rightarrow> bool" where
  "follows capacity e rv r \<longleftrightarrow> engine_wf capacity e \<and> book_live (eng_book e) \<and> eng_publisher e \<and>
     replica capacity (eng_book e) (eng_book r) \<and> (\<exists>n. eng_sequence e = Some n \<and> in_sequence n rv) \<and> prio_known e rv"

text \<open>The events of an operation, applied to the replica.\<close>

definition advances :: "nat \<Rightarrow> engine \<Rightarrow> recovery \<Rightarrow> engine \<Rightarrow> engine \<Rightarrow> bool" where
  "advances capacity e rv r e' \<longleftrightarrow> (\<exists>evs rv' rb. eng_published e' = eng_published e @ evs \<and> (\<forall>ev \<in> set evs. recordable ev) \<and>
     apply_all evs rv r = (Inr True, rv', r\<lparr>eng_book := rb\<rparr>) \<and> follows capacity e' rv' (r\<lparr>eng_book := rb\<rparr>))"

text \<open>Enough event numbers are left for one more operation.\<close>

definition event_room :: "engine \<Rightarrow> bool" where
  "event_room e \<longleftrightarrow> (\<forall>n. eng_sequence e = Some n \<longrightarrow> unat n + length (book_orders (eng_book e)) + 2 < 2 ^ 64)"

lemma trade_count:
  assumes "trade_events v sd sy (trades_of now k inc (swept_fills inc (flat s b))) tes"
  shows "length tes \<le> length (book_orders b)"
proof -
  have "length (trades_of now k inc fs) = length fs" for k fs by (induction fs arbitrary: k) simp_all
  then have "length tes = length (swept_fills inc (flat s b))" using assms by (metis trade_events_def list_all2_lengthD)
  then show ?thesis using length_swept_fills [of inc "flat s b"] length_book_orders [of b s] by simp
qed

lemma advances_still:
  assumes F: "follows capacity e rv r" and e': "eng_book e' = eng_book e" "eng_published e' = eng_published e"
    "eng_sequence e' = eng_sequence e" "eng_publisher e' = eng_publisher e" "eng_priority e \<le> eng_priority e'"
  shows "advances capacity e rv r e'"
proof -
  have "engine_wf capacity e'" using F e' engine_inv_priority [of True capacity e e'] by (simp add: follows_def)
  moreover have "prio_known e rv" using F by (simp add: follows_def)
  then have "prio_known e' rv" by (rule prio_known_thin) (use e' in auto)
  ultimately have "follows capacity e' rv (r\<lparr>eng_book := eng_book r\<rparr>)" using F e' by (simp add: follows_def)
  then show ?thesis
    unfolding advances_def using e'(2) by (intro exI [of _ "[]"] exI [of _ rv] exI [of _ "eng_book r"]) simp
qed

lemma advances_policy:
  assumes F: "follows capacity e rv r"
  shows "advances capacity e rv r (eng_setSTPPolicy pol e)"
proof -
  let ?e = "eng_setSTPPolicy pol e"
  have fl: "flat sd (eng_book ?e) = flat sd (eng_book e)" for sd by (simp add: eng_setSTPPolicy_def setSTPPolicy_def)
  have "engine_wf capacity ?e"
    using F engine_step_wf [OF engine_step.policy, of True capacity e pol] by (simp add: follows_def)
  moreover have "prio_known e rv" using F by (simp add: follows_def)
  then have "prio_known ?e rv" by (rule prio_known_thin) (auto simp: fl, simp add: eng_setSTPPolicy_def)
  moreover have "book_live (eng_book ?e)" "replica capacity (eng_book ?e) (eng_book r)"
    using F by (simp_all add: follows_def book_live_def replica_def view_def fl)
  ultimately have "follows capacity ?e rv (r\<lparr>eng_book := eng_book r\<rparr>)" using F by (simp add: follows_def) (simp add: eng_setSTPPolicy_def)
  then show ?thesis
    unfolding advances_def by (intro exI [of _ "[]"] exI [of _ rv] exI [of _ "eng_book r"]) (simp add: eng_setSTPPolicy_def)
qed

lemma advances_trans:
  assumes "advances capacity e rv r e1" "\<And>rv1 r1. follows capacity e1 rv1 r1 \<Longrightarrow> advances capacity e1 rv1 r1 e2"
  shows "advances capacity e rv r e2"
proof -
  obtain evs rv1 b1 where 1: "eng_published e1 = eng_published e @ evs" "\<forall>ev \<in> set evs. recordable ev"
    "apply_all evs rv r = (Inr True, rv1, r\<lparr>eng_book := b1\<rparr>)" "follows capacity e1 rv1 (r\<lparr>eng_book := b1\<rparr>)"
    using assms(1) unfolding advances_def by blast
  obtain evs' rv2 b2 where 2: "eng_published e2 = eng_published e1 @ evs'" "\<forall>ev \<in> set evs'. recordable ev"
    "apply_all evs' rv1 (r\<lparr>eng_book := b1\<rparr>) = (Inr True, rv2, r\<lparr>eng_book := b1, eng_book := b2\<rparr>)"
    "follows capacity e2 rv2 (r\<lparr>eng_book := b1, eng_book := b2\<rparr>)"
    using assms(2) [OF 1(4)] unfolding advances_def by blast
  show ?thesis
    unfolding advances_def
  proof (intro exI conjI)
    show "eng_published e2 = eng_published e @ (evs @ evs')" using 1(1) 2(1) by simp
    show "\<forall>ev \<in> set (evs @ evs'). recordable ev" using 1(2) 2(2) by auto
    show "apply_all (evs @ evs') rv r = (Inr True, rv2, r\<lparr>eng_book := b2\<rparr>)" using apply_all_append [OF 1(3), of evs'] 2(3) by simp
    show "follows capacity e2 rv2 (r\<lparr>eng_book := b2\<rparr>)" using 2(4) by simp
  qed
qed

text \<open>An order matched against the live book, and its events.\<close>

lemma matched_advances:
  assumes F: "follows capacity e rv r" and inc: "incoming_ok inc (eng_book e)" and room: "0 < pool_free (eng_book e)"
    and jn: "otype inc = LIMIT \<Longrightarrow> journalable inc" and m: "matched now inc (eng_book e) ts inc' (eng_book e')"
    and ev: "trade_events v (side inc') (symbol_id inc') ts tes" "published_by e e' (tes @ rest_events v inc' m')"
    and len: "\<And>n. eng_sequence e = Some n \<Longrightarrow> unat n + length tes + 1 < 2 ^ 64"
    and prio: "priority_seq inc = eng_priority e" "eng_priority e \<noteq> UINT64_MAX" "eng_priority e' = eng_priority e + 1"
    and e': "engine_wf capacity e'" "eng_publisher e'"
  shows "advances capacity e rv r e'"
proof -
  let ?evs = "tes @ rest_events v inc' m'"
  have wf: "book_wf capacity (eng_book e)" and live: "book_live (eng_book e)"
    and rep: "replica capacity (eng_book e) (eng_book r)" and rp: "prio_known e rv"
    using F by (auto simp: follows_def engine_wf_def)
  obtain n where n: "eng_sequence e = Some n" "in_sequence n rv" using F by (auto simp: follows_def)
  have pub: "eng_published e' = eng_published e @ ?evs" "numbered n ?evs" "eng_sequence e' = Some (n + of_nat (length ?evs))"
    using ev(2) n(1) by (auto simp: published_by_def)
  have "length (rest_events v inc' m') \<le> 1" by (simp add: rest_events_def)
  then have len': "unat n + length ?evs < 2 ^ 64" using len [OF n(1)] by simp
  have rp': "rv_new_orders_replayed rv = 0 \<or> rv_max_priority rv < priority_seq inc" using rp prio(1) by (auto simp: prio_known_def)
  obtain rv' rb where A: "apply_all ?evs rv r = (Inr True, rv', r\<lparr>eng_book := rb\<rparr>)"
    "replica capacity (eng_book e') rb" "in_sequence (n + of_nat (length ?evs)) rv'"
    and R: "if otype inc = LIMIT \<and> 0 < remaining_quantity inc'
     then rv_new_orders_replayed rv' = rv_new_orders_replayed rv + 1 \<and> rv_max_priority rv' = priority_seq inc
     else rv_new_orders_replayed rv' = rv_new_orders_replayed rv \<and> rv_max_priority rv' = rv_max_priority rv"
    using apply_matched [OF wf live inc room jn m ev(1) pub(2) len' rep n(2) rp'] by blast
  have up: "eng_priority e \<le> eng_priority e'" using priority_step [OF prio(2)] prio(3) by simp
  have "prio_known e' rv'"
  proof (cases "otype inc = LIMIT \<and> 0 < remaining_quantity inc'")
    case True
    then show ?thesis using R matched_prios [OF m] prio by (intro prio_known_new [OF rp]) auto
  next
    case False
    then show ?thesis using R matched_prios [OF m] up by (intro prio_known_thin [OF rp]) auto
  qed
  moreover have "book_live (eng_book e')" using matched_live [OF live m jn] .
  moreover have "\<forall>x \<in> set ?evs. recordable x" using matched_recordable [OF live m jn _ ev(1)] prio by simp
  ultimately show ?thesis
    unfolding advances_def follows_def using A pub(1,3) e'
    by (intro exI [of _ ?evs] exI [of _ rv'] exI [of _ rb]) auto
qed

text \<open>
  Self-trade prevention does not act on an order: the policy is off, or the order would not meet an order of its own
  trader. Such an order is matched, unless it is a fill-or-kill order that cannot be filled.
\<close>

abbreviation meets_others :: "order \<Rightarrow> book \<Rightarrow> bool" where
  "meets_others inc b \<equiv> book_stp b = STP_NONE \<or> \<not> wouldSelfTrade inc b"

lemma wouldSelfTrade_priority [simp]: "wouldSelfTrade (inc\<lparr>priority_seq := n\<rparr>) b = wouldSelfTrade inc b"
proof -
  have "blocked (inc\<lparr>priority_seq := n\<rparr>) = blocked inc" by (simp add: blocked_def fun_eq_iff)
  then show ?thesis by (simp add: wouldSelfTrade_def opposite_def)
qed

lemma match_outcome:
  assumes "book_wf capacity b" "incoming_ok inc b" "id_room (next_trade_id b) (length (flat (other (side inc)) b))"
    "matchOrder now inc b = (r, inc', b')" "meets_others inc b"
  obtains (Killed) "r = Inr []" "inc' = inc" "b' = b" "otype inc = FOK"
  | (Matched) ts where "r = Inr ts" "matched now inc b ts inc' b'"
  using assms(1-4) by (cases rule: matchOrder_cases) (use assms(5) that in auto)

lemma process_advances:
  assumes F: "follows capacity e rv r" and inc: "incoming_ok ord (eng_book e)"
    and room: "id_room (next_trade_id (eng_book e)) (length (flat (other (side ord)) (eng_book e)))" "event_room e" "0 < pool_free (eng_book e)"
    and jn: "otype ord = LIMIT \<Longrightarrow> journalable ord" and stp: "meets_others ord (eng_book e)" and p: "processOrder v ord e = (res, ord', e')"
  shows "advances capacity e rv r e'"
proof (cases "isHealthy e \<and> eng_priority e \<noteq> UINT64_MAX")
  case False
  then have "e' = e \<or> e' = halt e" using p by (auto simp: processOrder_def tryNextPriority_def split: if_splits)
  then show ?thesis by (intro advances_still [OF F]) (auto simp: halt_def)
next
  case True
  let ?inc = "ord\<lparr>priority_seq := eng_priority e\<rparr>" and ?b = "eng_book e"
  have wf: "engine_wf capacity e" "book_wf capacity ?b" and live: "meets_others ?inc ?b" "eng_publisher e"
    using F stp by (auto simp: follows_def engine_wf_def)
  obtain ts where ts: "res = Inr ts" using processOrder_wf(2) [OF wf(1) inc room(1) p] by blast
  have wf': "engine_wf capacity e'" using processOrder_wf(1) [OF wf(1) inc room(1) p] .
  obtain tes m where ev: "trade_events v (side ord') (symbol_id ord') ts tes" "published_by e e' (tes @ rest_events v ord' m)"
    using process_events [of e v ord ts ord' e'] True live(2) p ts by (auto simp: rest_events_def)
  have e': "matchOrder (env_now v) ?inc ?b = (Inr ts, ord', eng_book e')" "eng_priority e' = eng_priority e + 1" "eng_publisher e'"
    using p True ts live(2) by (auto simp: processOrder_def tryNextPriority_def Let_def split: prod.splits sum.splits if_splits)
  have inc': "incoming_ok ?inc ?b" and room': "id_room (next_trade_id ?b) (length (flat (other (side ?inc)) ?b))"
    using inc room(1) by simp_all
  from wf(2) inc' room' e'(1) live(1) show ?thesis
  proof (cases rule: match_outcome)
    case Killed
    then have "tes @ rest_events v ord' m = []" using ev(1) by (auto simp: trade_events_def rest_events_def may_rest_iff)
    then have "eng_published e' = eng_published e" "eng_sequence e' = eng_sequence e"
      using ev(2) by (cases "eng_sequence e"; simp add: published_by_def)+
    then show ?thesis using Killed e' live(2) priority_step [of e] True by (intro advances_still [OF F]) simp_all
  next
    case (Matched ts')
    then have m: "matched (env_now v) ?inc ?b ts ord' (eng_book e')" by simp
    have jn': "otype ?inc = LIMIT \<Longrightarrow> journalable ?inc" using jn by simp
    have "ts = trades_of (env_now v) (next_trade_id ?b) ?inc (swept_fills ?inc (flat (other (side ?inc)) ?b))"
      using m by (simp add: matched_def Let_def)
    then have "unat n + length tes + 1 < 2 ^ 64" if "eng_sequence e = Some n" for n
      using trade_count [of v "side ord'" "symbol_id ord'"] ev(1) room(2) that by (fastforce simp: event_room_def)
    then show ?thesis
      using matched_advances [OF F inc' room(3) jn' m ev _ _ _ _ wf' e'(3)] e'(2) True by simp
  qed
qed

text \<open>The cancellation of a resting order, and its event.\<close>

lemma cancelled_advances:
  assumes F: "follows capacity e rv r" and room: "event_room e" and old: "getOrderById oid (eng_book e) = Some old"
  shows "advances capacity e rv r (publish_next (cancelled_ev v oid old) (e\<lparr>eng_book := snd (cancelOrder oid (eng_book e))\<rparr>))"
    (is "advances capacity e rv r ?e'")
proof -
  let ?b = "eng_book e" and ?b' = "snd (cancelOrder oid (eng_book e))"
  have wf: "book_wf capacity ?b" and live: "book_live ?b" "eng_publisher e" and rep: "replica capacity ?b (eng_book r)"
    using F by (auto simp: follows_def engine_wf_def)
  obtain n where n: "eng_sequence e = Some n" "in_sequence n rv" using F by (auto simp: follows_def)
  let ?ev = "cancelled_ev v oid old n"
  have pub: "eng_published ?e' = eng_published e @ [?ev]" "eng_sequence ?e' = Some (n + 1)"
    using n(1) by (simp_all add: nextSequence_def)
  have fl: "flat sd ?b' = filter (\<lambda>y. order_id y \<noteq> oid) (flat sd ?b)" for sd
    by (rule cancelOrder_effect [OF wf, of oid]) simp
  have "oid \<in> set (ids (book_orders (eng_book r)))"
    using getOrderById_Some [OF wf, of oid old] old unfolding replica_ids [OF rep] by auto
  then obtain rb where rb: "restoreCancel oid r = (True, r\<lparr>eng_book := rb\<rparr>)" "book_wf capacity rb"
    "\<And>sd. view rb sd = filter (\<lambda>y. order_id y \<noteq> oid) (view (eng_book r) sd)"
    using apply_cancelled [OF replica_wf [OF rep]] by blast
  let ?rv = "(heard n rv)\<lparr>rv_records_replayed := rv_records_replayed rv + 1\<rparr>"
  have A: "apply_all [?ev] rv r = (Inr True, ?rv, r\<lparr>eng_book := rb\<rparr>)"
    using validateSequence_ok [OF n(2)] rb(1) by (simp add: cancelled_ev_def counted_def)
  have "unat n + 1 < 2 ^ 64" using room n(1) by (simp add: event_room_def)
  then have s: "in_sequence (n + 1) ?rv" by (rule in_sequence_heard) simp_all
  have "view ?b' sd = filter (\<lambda>y. order_id y \<noteq> oid) (view ?b sd)" for sd by (simp add: view_def fl filter_core)
  then have "replica capacity ?b' rb" using rb(2,3) replica_view [OF rep] by (simp add: replica_def)
  moreover have "book_live ?b'" using live(1) fl by (auto simp: book_live_def)
  moreover have "engine_wf capacity ?e'" using engine_inv_cancelled(1) [of True capacity e ?e' oid] F by (simp add: follows_def)
  moreover have "prio_known ?e' ?rv"
    by (rule prio_known_thin [of e rv]) (use F fl in \<open>auto simp: follows_def\<close>)
  ultimately have "follows capacity ?e' ?rv (r\<lparr>eng_book := rb\<rparr>)"
    using F s pub(2) unfolding follows_def by simp
  then show ?thesis
    unfolding advances_def using pub(1) A recordable_cancelled [of v oid old n]
    by (intro exI [of _ "[?ev]"] exI [of _ ?rv] exI [of _ rb]) simp
qed

lemma cancel_advances:
  assumes F: "follows capacity e rv r" and room: "event_room e" and c: "eng_cancelOrder v oid e = (ok, e')"
  shows "advances capacity e rv r e'"
proof (cases "ok")
  case False
  then have "e' = e"
    using c cancelOrder_snd [of oid "eng_book e"] by (auto simp: eng_cancelOrder_def Let_def split: if_splits option.splits prod.splits bool.splits)
  then show ?thesis by (intro advances_still [OF F]) auto
next
  case True
  have "eng_publisher e" using F by (simp add: follows_def)
  then obtain old where old: "getOrderById oid (eng_book e) = Some old"
    "e' = publish_next (cancelled_ev v oid old) (e\<lparr>eng_book := snd (cancelOrder oid (eng_book e))\<rparr>)"
    using c True by (auto simp: eng_cancelOrder_def Let_def split: if_splits option.splits prod.splits bool.splits)
  show ?thesis unfolding old(2) by (rule cancelled_advances [OF F room old(1)])
qed

subsubsection \<open>Replacement\<close>

lemma cancelOrder_pool: "getOrderById oid b = Some old \<Longrightarrow> 0 < pool_free (snd (cancelOrder oid b))"
  by (auto simp: getOrderById_locate cancelOrder_locate split: option.splits)

lemma swept_in_trader: "trader_id (swept_in inc os) = trader_id inc"
  by (subst swept_in_eq) simp

text \<open>The engine between the cancellation and the match of the replacement.\<close>

abbreviation withdrawn :: "env \<Rightarrow> u64 \<Rightarrow> order \<Rightarrow> engine \<Rightarrow> engine" where
  "withdrawn v oid old e \<equiv> publish_next (cancelled_ev v oid old) (e\<lparr>eng_book := snd (cancelOrder oid (eng_book e))\<rparr>)"

text \<open>What \<open>finish_replace\<close> publishes for a replacement that was matched, seen from there.\<close>

lemma replaced_events:
  assumes r: "replaceOrder (env_now v) (env_system v) oid p q prio (eng_book e1) =
      (Inr \<lparr>rr_success = True, rr_trades = ts, rr_final_remaining = remaining_quantity new'\<rparr>, b2)"
    and f: "finish_replace v oid old p q prio e1 = (rr, e')" and pub: "eng_publisher e1" and q: "q \<noteq> 0"
    and e1: "eng_published e1 = eng_published e" "eng_sequence e1 = eng_sequence e"
    and new': "new' = swept_in (replacement sysnow p q prio old) os" and oid: "order_id old = oid"
  obtains tes m where "trade_events v (side new') (symbol_id new') ts tes"
    "published_by (withdrawn v oid old e) e' (tes @ rest_events v new' m)" "eng_publisher e'"
proof -
  let ?e2 = "e1\<lparr>eng_book := b2\<rparr>"
  let ?e3 = "publish_next (cancelled_ev v oid old) ?e2"
  let ?e4 = "publish_trades v (side old) (symbol_id old) ts ?e3"
  note same = swept_in_same [of "replacement sysnow p q prio old" os, folded new']
    swept_in_trader [of "replacement sysnow p q prio old" os, folded new']
  have s: "side new' = side old" "symbol_id new' = symbol_id old" "otype new' = otype old" using same by simp_all
  let ?acc = "accepted_ev v (old\<lparr>order_id := oid\<rparr>) p q (remaining_quantity new') prio"
  have acc: "?acc = accepted_ev v new' (price new') (quantity new') (remaining_quantity new') (priority_seq new')"
    using same oid by (simp add: accepted_ev_def fun_eq_iff replacement_def)
  have q': "0 < q" using q by (simp add: word_neq_0_conv)
  have e': "e' = (if 0 < remaining_quantity new' \<and> may_rest (otype new') then publish_next ?acc ?e4 else ?e4)"
    using f r pub q' s by (auto simp: finish_replace_def Let_def)
  have "published_by (withdrawn v oid old e) ?e3 []"
    using e1 by (cases "eng_sequence e") (simp_all add: published_by_def numbered_def nextSequence_def)
  then obtain tes where tes: "published_by (withdrawn v oid old e) ?e4 ([] @ tes)" "trade_events v (side old) (symbol_id old) ts tes"
    using publish_trades_events by blast
  have "published_by (withdrawn v oid old e) (publish_next ?acc ?e4) (tes @ [?acc (fst (nextSequence ?e4))])"
    using tes(1) by (intro published_by_next) simp_all
  then have "published_by (withdrawn v oid old e) e' (tes @ rest_events v new' (fst (nextSequence ?e4)))"
    using tes(1) acc unfolding e' rest_events_def by auto
  moreover have "eng_publisher e'" using pub unfolding e' by simp
  ultimately show thesis using that tes(2) s by simp
qed

text \<open>The two outcomes of the book that trade nothing.\<close>

lemma replaceOrder_removes:
  assumes wf: "book_wf capacity b" and old: "getOrderById oid b = Some old"
    and c: "q = 0 \<or> pos_finite p \<and> \<not> q < quantity old - remaining_quantity old \<and> \<not> (p = price old \<and> q < quantity old) \<and>
      remaining_quantity (replacement sysnow p q seq old) = 0"
  shows "replaceOrder now sysnow oid p q seq b = (Inr (rr_done 0), snd (cancelOrder oid b))"
proof -
  obtain sd i j where loc: "locate oid b = Some (sd, i, j)" using old by (auto simp: getOrderById_locate)
  have p: "q \<noteq> 0 \<Longrightarrow> pos_finite p" using c by auto
  show ?thesis
    unfolding replaceOrder_locate not_pos_finite
    using replaceInLevel_cases [where now = now and sysnow = sysnow and seq = seq and q = q, OF wf loc old p] c loc p by auto
qed

lemma replaceOrder_refuses:
  assumes wf: "book_wf capacity b" and old: "getOrderById oid b = Some old" and q: "q \<noteq> 0" and p: "pos_finite p"
    and c: "q < quantity old - remaining_quantity old"
  shows "replaceOrder now sysnow oid p q seq b = (Inr rr_fail, b)"
proof -
  obtain sd i j where loc: "locate oid b = Some (sd, i, j)" using old by (auto simp: getOrderById_locate)
  have p': "q \<noteq> 0 \<Longrightarrow> pos_finite p" using p by simp
  show ?thesis
    unfolding replaceOrder_locate not_pos_finite
    using replaceInLevel_cases [where now = now and sysnow = sysnow and seq = seq and q = q, OF wf loc old p'] c loc p q
    by (auto simp: word_neq_0_conv)
qed

lemma withdrawn_room:
  assumes "event_room e" "eng_sequence (withdrawn v oid old e) = Some n" "getOrderById oid (eng_book e) = Some old" "book_wf capacity (eng_book e)"
  shows "unat n + length (book_orders (snd (cancelOrder oid (eng_book e)))) + 1 < 2 ^ 64"
proof -
  let ?b = "eng_book e" and ?bc = "snd (cancelOrder oid (eng_book e))"
  obtain k where k: "eng_sequence e = Some k" "n = k + 1" using assms(2) by auto
  have room: "unat k + length (book_orders ?b) + 2 < 2 ^ 64" using assms(1) k(1) by (simp add: event_room_def)
  then have n: "unat n = unat k + 1" using unat_Suc_seq [of k 0] k(2) by simp
  have "getOrderCount ?bc \<le> getOrderCount ?b"
    using assms(3,4) cancelOrder_thinned(1) [OF assms(4), of oid]
    by (auto simp: book_wf_def getOrderById_locate cancelOrder_locate split: option.splits)
  then show ?thesis using room n by (simp add: getOrderCount_eq)
qed

lemma replace_matched:
  assumes F: "follows capacity e rv r" and room: "event_room e" "id_room (next_trade_id (eng_book e)) (length (book_orders (eng_book e)))"
    and old: "getOrderById oid (eng_book e) = Some old" and p: "pos_finite p" and jn: "journalable (old\<lparr>price := p\<rparr>)"
    and q: "q \<noteq> 0" "\<not> q < quantity old - remaining_quantity old" "\<not> (p = price old \<and> q < quantity old)"
      "remaining_quantity (replacement (env_system v) p q (eng_priority e) old) \<noteq> 0"
    and stp: "meets_others (replacement (env_system v) p q (eng_priority e) old) (snd (cancelOrder oid (eng_book e)))"
    and f: "finish_replace v oid old p q (eng_priority e) (e\<lparr>eng_priority := eng_priority e + 1\<rparr>) = (rr, e')"
    and e': "eng_priority e \<noteq> UINT64_MAX" "engine_wf capacity e'"
  shows "advances capacity e rv r e'"
proof -
  let ?b = "eng_book e" and ?bc = "snd (cancelOrder oid (eng_book e))" and ?w = "withdrawn v oid old e"
  let ?new = "replacement (env_system v) p q (eng_priority e) old"
  have wf: "book_wf capacity ?b" and live: "eng_publisher e"
    using F by (auto simp: follows_def engine_wf_def)
  have oid: "order_id old = oid" using old getOrderById_Some [OF wf] by simp
  obtain sd i j where loc: "locate oid ?b = Some (sd, i, j)" using old by (auto simp: getOrderById_locate)
  have lim: "otype old = LIMIT" by (rule locate_split [OF wf loc]) (use old in \<open>simp add: resting_ok_def\<close>)
  note C = cancelOrder_thinned [OF wf, where oid = oid]
  have inc: "incoming_ok ?new ?bc" using replacement_ok [OF wf old p q(2,4)] .
  have rm: "id_room (next_trade_id ?bc) (length (flat (other (side ?new)) ?bc))" using replace_room [OF wf room(2)] .
  obtain r2 new' b2 where m: "matchOrder (env_now v) ?new ?bc = (r2, new', b2)" by (cases "matchOrder (env_now v) ?new ?bc") auto
  from C(1) inc rm m stp show ?thesis
  proof (cases rule: match_outcome)
    case Killed
    then show ?thesis using lim by simp
  next
    case (Matched ts)
    have p0: "q \<noteq> 0 \<Longrightarrow> pos_finite p" using p by simp
    have rep: "replaceOrder (env_now v) (env_system v) oid p q (eng_priority e) ?b =
        (Inr \<lparr>rr_success = True, rr_trades = ts, rr_final_remaining = remaining_quantity new'\<rparr>, b2)"
      unfolding replaceOrder_locate not_pos_finite
      using loc p replaceInLevel_cases [where now = "env_now v" and sysnow = "env_system v" and seq = "eng_priority e" and q = q, OF wf loc old p0] q m Matched(1)
      by auto
    have b': "eng_book e' = b2" "eng_priority e' = eng_priority e + 1" using finish_replace_book(1,2) [OF f] rep by auto
    have new': "new' = swept_in ?new (flat (other (side ?new)) ?bc)" and ts: "ts = trades_of (env_now v) (next_trade_id ?bc) ?new (swept_fills ?new (flat (other (side ?new)) ?bc))"
      using Matched(2) by (auto simp: matched_def Let_def)
    obtain tes m' where ev: "trade_events v (side new') (symbol_id new') ts tes" "published_by ?w e' (tes @ rest_events v new' m')" "eng_publisher e'"
      by (rule replaced_events [OF _ f _ q(1) _ _ new' oid, where ts = ts and e = e]) (use rep live in auto)
    have W: "advances capacity e rv r ?w" using cancelled_advances [OF F room(1) old] .
    show ?thesis
    proof (rule advances_trans [OF W])
      fix rv1 r1 assume F1: "follows capacity ?w rv1 r1"
      have "unat n + length tes + 1 < 2 ^ 64" if "eng_sequence ?w = Some n" for n
        using withdrawn_room [OF room(1) that old wf] trade_count [of v "side new'" "symbol_id new'"] ev(1) ts by fastforce
      moreover have "journalable ?new" using jn by (simp add: journalable_def replacement_def)
      ultimately show "advances capacity ?w rv1 r1 e'"
        using inc cancelOrder_pool [OF old] Matched(2) b' e'
        by (intro matched_advances [OF F1 _ _ _ _ ev(1,2) _ _ _ _ e'(2) ev(3), where inc = ?new and now = "env_now v"]) simp_all
    qed
  qed
qed

text \<open>
  A replacement that is not a pure quantity reduction either leaves the engine as it was (or
  halts it), cancels, or goes through \<open>finish_replace\<close> with a fresh priority.
\<close>

lemma eng_replaceOrder_split [consumes 2, case_names Fail Cancel Finish]:
  assumes rep: "eng_replaceOrder v oid p q e = (rr, e')"
    and lp: "\<forall>old. getOrderById oid (eng_book e) = Some old \<longrightarrow> q = 0 \<or> p \<noteq> price old \<or> quantity old < q"
  obtains "e' = e \<or> e' = halt e"
  | old where "getOrderById oid (eng_book e) = Some old" "q = 0"
      "finish_replace v oid old p q (priority_seq old) e = (rr, e')"
  | old where "getOrderById oid (eng_book e) = Some old" "q \<noteq> 0" "pos_finite p" "eng_priority e \<noteq> UINT64_MAX"
      "finish_replace v oid old p q (eng_priority e) (e\<lparr>eng_priority := eng_priority e + 1\<rparr>) = (rr, e')"
proof (cases "isHealthy e \<and> getOrderById oid (eng_book e) \<noteq> None")
  case False
  then show thesis using that(1) rep by (auto simp: eng_replaceOrder_def split: if_splits)
next
  case True
  then obtain old where old: "getOrderById oid (eng_book e) = Some old" by auto
  have d: "\<not> d_eq p (price old) \<or> quantity old < q" if "q \<noteq> 0" "pos_finite p"
    using lp old that by (auto simp: d_eq_Fin_iff pos_finite_isfinite)
  note R = rep [unfolded eng_replaceOrder_def not_pos_finite Let_def]
  show thesis
  proof (cases "q = 0")
    case True
    then show thesis using that(2) [OF old] R old \<open>isHealthy e \<and> _\<close> by simp
  next
    case False
    then show thesis
      using that(1) that(3) [OF old] R old \<open>isHealthy e \<and> _\<close> d
      by (auto simp: word_neq_0_conv tryNextPriority_def split: if_splits)
  qed
qed

lemma finished_advances:
  assumes F: "follows capacity e rv r" and room: "event_room e" "id_room (next_trade_id (eng_book e)) (length (book_orders (eng_book e)))"
    and old: "getOrderById oid (eng_book e) = Some old" and q: "q \<noteq> 0" "\<not> (p = price old \<and> q < quantity old)"
    and p: "pos_finite p" and tick: "\<exists>k. 0 < k \<and> k \<le> 10 ^ 15 \<and> p = ticksToDouble k"
    and stp: "meets_others (replacement (env_system v) p q (eng_priority e) old) (snd (cancelOrder oid (eng_book e)))"
    and f: "finish_replace v oid old p q (eng_priority e) (e\<lparr>eng_priority := eng_priority e + 1\<rparr>) = (rr, e')"
    and e': "eng_priority e \<noteq> UINT64_MAX" "engine_wf capacity e'"
  shows "advances capacity e rv r e'"
proof -
  let ?b = "eng_book e" and ?e1 = "e\<lparr>eng_priority := eng_priority e + 1\<rparr>"
  let ?new = "replacement (env_system v) p q (eng_priority e) old"
  have wf: "book_wf capacity ?b" and live: "book_live ?b" "eng_publisher e"
    using F by (auto simp: follows_def engine_wf_def)
  have up: "eng_priority e \<le> eng_priority e + 1" using priority_step [OF e'(1)] by simp
  consider (refuse) "q < quantity old - remaining_quantity old"
    | (empty) "\<not> q < quantity old - remaining_quantity old" "remaining_quantity ?new = 0"
    | (match) "\<not> q < quantity old - remaining_quantity old" "remaining_quantity ?new \<noteq> 0"
    by blast
  then show ?thesis
  proof cases
    case refuse
    then have "e' = ?e1" using f replaceOrder_refuses [OF wf old q(1) p] by (simp add: finish_replace_def)
    then show ?thesis using up by (intro advances_still [OF F]) simp_all
  next
    case empty
    have "replaceOrder (env_now v) (env_system v) oid p q (eng_priority e) ?b = (Inr (rr_done 0), snd (cancelOrder oid ?b))"
      using replaceOrder_removes [OF wf old, of q p] p q empty by blast
    then have "e' = publish_next (cancelled_ev v oid old) (?e1\<lparr>eng_book := snd (cancelOrder oid ?b)\<rparr>)"
      using f live(2) by (simp add: finish_replace_def publish_trades_def Let_def)
    then show ?thesis
      using up by (intro advances_trans [OF cancelled_advances [OF F room(1) old, of v]] advances_still) (auto simp: nextSequence_def split: option.splits)
  next
    case match
    obtain sd where "old \<in> set (flat sd ?b)"
      using old getOrderById_Some [OF wf] set_book_orders [of ?b BUY] by auto
    then have "journalable old" using live(1) by (simp add: book_live_def)
    then have "journalable (old\<lparr>price := p\<rparr>)" using tick by (simp add: journalable_def)
    then show ?thesis by (rule replace_matched [OF F room old p _ q(1) match(1) q(2) match(2) stp f e'])
  qed
qed

lemma replace_advances:
  assumes F: "follows capacity e rv r" and room: "event_room e" "id_room (next_trade_id (eng_book e)) (length (book_orders (eng_book e)))"
    and lp: "\<And>old. getOrderById oid (eng_book e) = Some old \<Longrightarrow> q = 0 \<or> p \<noteq> price old \<or> quantity old < q"
    and jn: "q \<noteq> 0 \<Longrightarrow> \<exists>k. 0 < k \<and> k \<le> 10 ^ 15 \<and> p = ticksToDouble k"
    and stp: "\<And>old. getOrderById oid (eng_book e) = Some old \<Longrightarrow>
      meets_others (replacement (env_system v) p q (eng_priority e) old) (snd (cancelOrder oid (eng_book e)))"
    and rep: "eng_replaceOrder v oid p q e = (rr, e')"
  shows "advances capacity e rv r e'"
proof -
  have "\<forall>old. getOrderById oid (eng_book e) = Some old \<longrightarrow> q = 0 \<or> p \<noteq> price old \<or> quantity old < q"
    using lp by blast
  with rep show ?thesis
  proof (cases rule: eng_replaceOrder_split)
    case Fail
    then show ?thesis by (intro advances_still [OF F]) (auto simp: halt_def)
  next
    case (Cancel old)
    have "book_wf capacity (eng_book e)" "eng_publisher e" using F by (auto simp: follows_def engine_wf_def)
    then have "e' = withdrawn v oid old e"
      using Cancel replaceOrder_removes [OF _ Cancel(1), of _ q p]
      by (simp add: finish_replace_def publish_trades_def Let_def)
    then show ?thesis using cancelled_advances [OF F room(1) Cancel(1)] by simp
  next
    case (Finish old)
    have "engine_wf capacity e" using F by (simp add: follows_def)
    then have "engine_wf capacity e'"
      using eng_replaceOrder_wf [OF _ room(2) _ rep] lp Finish(1,2) by fastforce
    moreover have "\<not> (p = price old \<and> q < quantity old)" using lp [OF Finish(1)] Finish(2) by auto
    ultimately show ?thesis
      using finished_advances [OF F room Finish(1,2) _ Finish(3) jn [OF Finish(2)] stp [OF Finish(1)] Finish(5,4)] by blast
  qed
qed

subsection \<open>Replay\<close>

text \<open>
  Order entry whose journal tells what happened: new orders, cancellations, replacements and changes of the self-trade
  policy, under these conditions. A new order passed validation and has a fresh identifier; a slot of the pool is free for it
  (\<open>accepted_order_lost_when_pool_full\<close> shows what the journal says otherwise). No order meets an
  order of its own trader while a policy is set (\<open>refused_order_announced\<close> shows what is journaled then).
  A replacement changes the price or increases the quantity, or cancels (quantity 0); \<open>amend_breaks_replay\<close>
  shows what a smaller quantity at the same price does to the journal, and \<open>replace_unchanged_loses_place\<close>
  what an unchanged one does to the order's place. Prices are whole ticks of at most \<open>10 ^ 15\<close> and a
  limit order's identifier and trader are not 0, the trader at most 32 bits wide, as the record has it. Event numbers and trade identifiers do not run out. The journal may fail at
  any time.
\<close>

inductive trading :: "engine \<Rightarrow> engine \<Rightarrow> bool" where
  process: "incoming_ok ord (eng_book e) \<Longrightarrow>
     id_room (next_trade_id (eng_book e)) (length (flat (other (side ord)) (eng_book e))) \<Longrightarrow>
     event_room e \<Longrightarrow> 0 < pool_free (eng_book e) \<Longrightarrow> (otype ord = LIMIT \<longrightarrow> journalable ord) \<Longrightarrow>
     meets_others ord (eng_book e) \<Longrightarrow>
     processOrder v ord e = (res, ord', e') \<Longrightarrow> trading e e'"
| cancel: "event_room e \<Longrightarrow> eng_cancelOrder v oid e = (ok, e') \<Longrightarrow> trading e e'"
| replace: "event_room e \<Longrightarrow> id_room (next_trade_id (eng_book e)) (length (book_orders (eng_book e))) \<Longrightarrow>
     (\<And>old. getOrderById oid (eng_book e) = Some old \<Longrightarrow> q = 0 \<or> p \<noteq> price old \<or> quantity old < q) \<Longrightarrow>
     (q \<noteq> 0 \<Longrightarrow> \<exists>k. 0 < k \<and> k \<le> 10 ^ 15 \<and> p = ticksToDouble k) \<Longrightarrow>
     (\<And>old. getOrderById oid (eng_book e) = Some old \<Longrightarrow>
       meets_others (replacement (env_system v) p q (eng_priority e) old) (snd (cancelOrder oid (eng_book e)))) \<Longrightarrow>
     eng_replaceOrder v oid p q e = (rr, e') \<Longrightarrow> trading e e'"
| policy: "trading e (eng_setSTPPolicy pol e)"
| journal: "trading e (e\<lparr>eng_journal := j\<rparr>)"

lemma trading_advances: "trading e e' \<Longrightarrow> follows capacity e rv r \<Longrightarrow> advances capacity e rv r e'"
proof (induction rule: trading.induct)
  case (process ord e v res ord' e')
  then show ?case by (intro process_advances [OF process(8,1,2,3,4) _ process(6,7)]) simp
next
  case (cancel e v oid ok e')
  then show ?case using cancel_advances by blast
next
  case (replace e oid q p v rr e')
  show ?case by (rule replace_advances [OF replace(7,1,2) _ _ _ replace(6)]) (use replace(3,4,5) in auto)
next
  case (policy e pol)
  then show ?case by (rule advances_policy)
next
  case (journal e j)
  then show ?case by (rule advances_still) simp_all
qed

lemma trading_follows:
  assumes "trading\<^sup>*\<^sup>* e e'" "follows capacity e rv r" "eng_published e = []"
  shows "\<exists>rv' rb. (\<forall>ev \<in> set (eng_published e'). recordable ev) \<and>
    apply_all (eng_published e') rv r = (Inr True, rv', r\<lparr>eng_book := rb\<rparr>) \<and> follows capacity e' rv' (r\<lparr>eng_book := rb\<rparr>)"
  using assms
proof (induction rule: rtranclp_induct)
  case base
  then show ?case by (intro exI [of _ rv] exI [of _ "eng_book r"]) simp
next
  case (step e1 e2)
  obtain rv1 b1 where 1: "\<forall>ev \<in> set (eng_published e1). recordable ev"
    "apply_all (eng_published e1) rv r = (Inr True, rv1, r\<lparr>eng_book := b1\<rparr>)" "follows capacity e1 rv1 (r\<lparr>eng_book := b1\<rparr>)"
    using step by blast
  obtain evs rv2 b2 where 2: "eng_published e2 = eng_published e1 @ evs" "\<forall>ev \<in> set evs. recordable ev"
    "apply_all evs rv1 (r\<lparr>eng_book := b1\<rparr>) = (Inr True, rv2, r\<lparr>eng_book := b1, eng_book := b2\<rparr>)"
    "follows capacity e2 rv2 (r\<lparr>eng_book := b1, eng_book := b2\<rparr>)"
    using trading_advances [OF step(2) 1(3)] unfolding advances_def by blast
  then show ?case using 1 apply_all_append [OF 1(2), of evs] by (intro exI [of _ rv2] exI [of _ b2]) auto
qed

text \<open>What replay leaves alone.\<close>

lemma apply_event_frame:
  assumes "apply_event now ev rv r = (Inr True, rv', r')"
  shows "eng_state r' = eng_state r" "eng_priority r' = eng_priority r"
    "rv_max_priority rv' = rv_max_priority rv \<or> (\<exists>a. ev = OrderAcceptedEvent a \<and> rv_max_priority rv' = oa_prioritySeq a)"
  using assms
  by (cases ev; auto simp: validatePrioritySequence_def counted_def restoreOrder_def restoreCancel_def eng_applyFill_def
      split: if_splits prod.splits bool.splits sum.splits option.splits)+

lemma validateSequence_frame: "validateSequence n rv = (ok, rv') \<Longrightarrow> rv_max_priority rv' = rv_max_priority rv"
  by (auto simp: validateSequence_def split: if_splits)

lemma apply_all_frame:
  "apply_all evs rv r = (Inr True, rv', r') \<Longrightarrow> \<forall>ev \<in> set evs. recordable ev \<Longrightarrow> rv_max_priority rv \<noteq> UINT64_MAX \<Longrightarrow>
   eng_state r' = eng_state r \<and> eng_priority r' = eng_priority r \<and> rv_max_priority rv' \<noteq> UINT64_MAX"
proof (induction evs arbitrary: rv r)
  case (Cons ev evs)
  obtain rv1 where 1: "validateSequence (ev_sequence ev) rv = (True, rv1)"
    using Cons.prems(1) by (auto split: prod.splits bool.splits)
  obtain rv2 r2 where 2: "apply_event 0 ev rv1 r = (Inr True, rv2, r2)" "apply_all evs rv2 r2 = (Inr True, rv', r')"
    using Cons.prems(1) 1 by (auto split: prod.splits sum.splits bool.splits)
  have "rv_max_priority rv2 \<noteq> UINT64_MAX"
    using apply_event_frame(3) [OF 2(1)] validateSequence_frame [OF 1] Cons.prems(2,3) by (auto simp: recordable_def)
  then show ?case using Cons.IH [OF 2(2)] Cons.prems(2) apply_event_frame(1,2) [OF 2(1)] by simp
qed simp

lemma word_less_Suc: "a \<le> b \<Longrightarrow> b < c \<Longrightarrow> a < b + 1" for a b c :: u64
proof -
  assume a: "a \<le> b" and "b < c"
  then have "unat b < unat c" by (simp add: word_less_nat_alt)
  then have "unat b < 18446744073709551615" using unat_u64_less [of c] by linarith
  then show "a < b + 1" using a by (simp add: word_less_nat_alt word_le_nat_alt unat_plus_if')
qed

text \<open>After the last whole record the loop ends, and the engine is seeded and made ready.\<close>

lemma replay_ends:
  assumes ev: "list_all2 (\<lambda>ev bytes. serialize ev = Some bytes) evs bss" "\<forall>ev \<in> set evs. recordable ev"
    and a: "apply_all evs Recovery (beginRecovery (MatchingEngine capacity)) = (Inr True, rv, r)"
    and t: "serialize ev = Some (torn @ missing)" "missing \<noteq> []"
  shows "\<exists>rv'. replay clock (Some \<lparr>ifs_data = header @ concat bss @ torn, ifs_broken = False\<rparr>) (MatchingEngine capacity) =
    (Inr True, rv', r\<lparr>eng_priority := (if rv_new_orders_replayed rv = 0 then 0 else rv_max_priority rv + 1), eng_state := READY\<rparr>) \<and>
    rv_last_sequence rv' = rv_last_sequence rv"
proof -
  let ?r0 = "beginRecovery (MatchingEngine capacity)"
  have h: "readHeader \<lparr>ifs_data = header @ concat bss @ torn, ifs_broken = False\<rparr> = Some \<lparr>ifs_data = concat bss @ torn, ifs_broken = False\<rparr>"
    by (simp add: readHeader_def ifs_read_def header_def kMagic_def)
  have f: "eng_state r = RECOVERING" "eng_priority r = 0" "rv_max_priority rv \<noteq> UINT64_MAX"
    using apply_all_frame [OF a ev(2)] by (simp_all add: Recovery_def beginRecovery_def MatchingEngine_def)
  have fit: "\<forall>ev \<in> set evs. ticks_fit ev" using ev(2) by (simp add: recordable_def)
  have "readRecord \<lparr>ifs_data = torn, ifs_broken = False\<rparr> = (if length torn < 4 then Clean_Eof else Truncated)"
    using torn_ends [OF t] .
  then obtain rv' where l: "replay_loop clock \<lparr>ifs_data = concat bss @ torn, ifs_broken = False\<rparr> Recovery ?r0 = (Inr True, rv', r)"
    "rv_new_orders_replayed rv' = rv_new_orders_replayed rv" "rv_max_priority rv' = rv_max_priority rv" "rv_last_sequence rv' = rv_last_sequence rv"
    unfolding replay_loop_apply [OF ev(1) fit] a prod.case sum.case bool.case replay_loop.simps [of clock "\<lparr>ifs_data = torn, ifs_broken = False\<rparr>"]
    by (cases "length torn < 4") auto
  let ?n = "if rv_new_orders_replayed rv = 0 then 0 else rv_max_priority rv + 1"
  have g: "getNextPrioritySequence rv' = Some ?n" using l(2,3) f(3) by (simp add: getNextPrioritySequence_def)
  have sd: "seedPrioritySequence ?n r = (True, r\<lparr>eng_priority := ?n\<rparr>)"
    using f(2) by (cases r) (simp add: seedPrioritySequence_def)
  have "markReady (r\<lparr>eng_priority := ?n\<rparr>) = (True, r\<lparr>eng_priority := ?n, eng_state := READY\<rparr>)" using f(1) by (simp add: markReady_def)
  then show ?thesis
    unfolding replay_def Let_def option.case h l(1) prod.case sum.case bool.case g sd by (intro exI [of _ rv']) (simp add: l(4))
qed

lemma follows_start:
  "follows capacity ((MatchingEngine capacity)\<lparr>eng_publisher := True, eng_sequence := Some n, eng_journal := j\<rparr>) Recovery
     (beginRecovery (MatchingEngine capacity))"
proof -
  let ?e = "(MatchingEngine capacity)\<lparr>eng_publisher := True, eng_sequence := Some n, eng_journal := j\<rparr>"
  have "engine_wf capacity ?e" using engine_wf_new [of capacity] by (simp add: engine_wf_def)
  moreover have "flat sd (OrderBook capacity) = []" for sd by (cases sd) (simp_all add: flat_def side_levels_def OrderBook_def)
  moreover have "eng_book (beginRecovery (MatchingEngine capacity)) = OrderBook capacity" by (simp add: beginRecovery_def MatchingEngine_def)
  ultimately show ?thesis
    by (simp add: follows_def book_live_def replica_def prio_known_def in_sequence_def Recovery_def MatchingEngine_def book_wf_OrderBook)
qed

text \<open>
  C3. Event sourcing. Take any history of order entry, under the conditions of \<open>trading\<close>, on an engine that starts
  empty with its publisher and sequence counter wired: validated orders with fresh identifiers and a free slot for
  each, no order that meets its own trader's while a self-trade policy is set, replacements that change the price, raise the
  quantity or cancel, cancellations, changes of the policy, prices in whole ticks of at most \<open>10 ^ 15\<close>, trader
  identifiers of at most 32 bits, event numbers left. Cut the journal of its events after any number of whole records and leave
  any torn part of a record behind. Replaying that file into a new engine succeeds and makes it ready. When no event is missing,
  the recovered book holds exactly the live book's orders, on both sides, in the same price and time priority, with the
  same quantities, owners and priority numbers (only their time stamps are those of the journal), the book is well-formed,
  and the recovered priority counter is above every resting order.
\<close>

theorem replay_rebuilds_book:
  assumes "trading\<^sup>*\<^sup>* ((MatchingEngine capacity)\<lparr>eng_publisher := True, eng_sequence := Some n, eng_journal := j\<rparr>) e"
    "prefix evs (eng_published e)" "list_all2 (\<lambda>ev bytes. serialize ev = Some bytes) evs bss"
    "serialize ev = Some (torn @ missing)" "missing \<noteq> []"
  shows "\<exists>rv r. replay clock (Some \<lparr>ifs_data = header @ concat bss @ torn, ifs_broken = False\<rparr>) (MatchingEngine capacity) = (Inr True, rv, r) \<and>
    isReady r \<and>
    (evs = eng_published e \<longrightarrow> book_wf capacity (eng_book r) \<and>
      (\<forall>sd. view (eng_book r) sd = view (eng_book e) sd \<and> (\<forall>x \<in> set (view (eng_book r) sd). priority_seq x < eng_priority r)))"
proof -
  let ?r0 = "beginRecovery (MatchingEngine capacity)"
  obtain rv rb where A: "\<forall>ev \<in> set (eng_published e). recordable ev"
    "apply_all (eng_published e) Recovery ?r0 = (Inr True, rv, ?r0\<lparr>eng_book := rb\<rparr>)" "follows capacity e rv (?r0\<lparr>eng_book := rb\<rparr>)"
    using trading_follows [OF assms(1) follows_start] by (auto simp: MatchingEngine_def)
  obtain more_evs where p: "eng_published e = evs @ more_evs" using assms(2) by (auto simp: prefix_def)
  obtain rv1 r1 where B: "apply_all evs Recovery ?r0 = (Inr True, rv1, r1)" using apply_all_prefix A(2) unfolding p by blast
  have R: "\<forall>ev \<in> set evs. recordable ev" using A(1) p by simp
  let ?n = "if rv_new_orders_replayed rv1 = 0 then 0 else rv_max_priority rv1 + 1"
  let ?r = "r1\<lparr>eng_priority := ?n, eng_state := READY\<rparr>"
  obtain rv' where C: "replay clock (Some \<lparr>ifs_data = header @ concat bss @ torn, ifs_broken = False\<rparr>) (MatchingEngine capacity) = (Inr True, rv', ?r)"
    using replay_ends [OF assms(3) R B assms(4,5)] by blast
  have "book_wf capacity (eng_book ?r) \<and>
      (\<forall>sd. view (eng_book ?r) sd = view (eng_book e) sd \<and> (\<forall>x \<in> set (view (eng_book ?r) sd). priority_seq x < eng_priority ?r))"
    if full: "evs = eng_published e"
  proof -
    have same: "rv1 = rv" "eng_book r1 = rb" using A(2) B full by auto
    have rep: "replica capacity (eng_book e) rb" and k: "prio_known e rv" using A(3) by (auto simp: follows_def)
    have "priority_seq x < rv_max_priority rv + 1 \<and> rv_new_orders_replayed rv \<noteq> 0" if x: "x \<in> set (view (eng_book e) sd)" for x sd
    proof -
      obtain y where "y \<in> set (flat sd (eng_book e))" "x = core y" using x by (auto simp: view_def)
      then have "priority_seq x \<le> rv_max_priority rv" "rv_max_priority rv < eng_priority e" "rv_new_orders_replayed rv \<noteq> 0"
        using k by (force simp: prio_known_def)+
      then show ?thesis by (simp add: word_less_Suc)
    qed
    then show ?thesis using rep same by (auto simp: replica_def)
  qed
  then show ?thesis using C by (intro exI [of _ rv'] exI [of _ ?r]) (simp add: isReady_def)
qed

subsection \<open>A concrete run\<close>

definition ex_tick_order :: order where
  "ex_tick_order = ex_order 7 3 BUY LIMIT (ticksToDouble 101250000) 12"

abbreviation ex_start :: engine where
  "ex_start \<equiv> (MatchingEngine 8)\<lparr>eng_publisher := True, eng_sequence := Some 1, eng_journal := None\<rparr>"

definition ex_live :: engine where
  "ex_live = snd (snd (processOrder ex_env ex_tick_order ex_start))"

lemma ex_tick_simps [simp]:
  "otype ex_tick_order = LIMIT" "remaining_quantity ex_tick_order = 12" "quantity ex_tick_order = 12" "side ex_tick_order = BUY"
  "order_id ex_tick_order = 7"
  by (simp_all add: ex_tick_order_def ex_order_def)

lemma ex_tick_journalable: "journalable ex_tick_order"
  unfolding journalable_def by (simp add: ex_tick_order_def ex_order_def) (intro exI [of _ 101250000], simp)

lemma ex_start_ok:
  "incoming_ok ex_tick_order (eng_book ex_start)" "event_room ex_start" "0 < pool_free (eng_book ex_start)"
  "flat sd (eng_book (MatchingEngine 8)) = []" "book_wf 8 (eng_book ex_start)" "book_stp (eng_book ex_start) = STP_NONE"
  "isHealthy ex_start" "eng_priority ex_start = 0"
proof -
  show "incoming_ok ex_tick_order (eng_book ex_start)"
    using journalable_price(2) [OF ex_tick_journalable] by (simp add: incoming_ok_def MatchingEngine_def OrderBook_def book_orders_def)
  show "book_wf 8 (eng_book ex_start)" using book_wf_OrderBook [of 8] by (simp add: MatchingEngine_def)
qed (cases sd; simp add: event_room_def MatchingEngine_def OrderBook_def book_orders_def flat_def side_levels_def isHealthy_def)+

lemma ex_live_trading: "trading ex_start ex_live"
  by (rule trading.process [OF ex_start_ok(1) _ ex_start_ok(2,3), where v = ex_env and
        res = "fst (processOrder ex_env ex_tick_order ex_start)" and ord' = "fst (snd (processOrder ex_env ex_tick_order ex_start))"])
    (use ex_start_ok(6) in \<open>simp_all add: ex_start_ok(4) ex_tick_journalable ex_live_def\<close>)

lemma ex_live_eq:
  obtains b where "ex_live = publish_next (accepted_ev ex_env (ex_tick_order\<lparr>priority_seq := 0\<rparr>) (price ex_tick_order) 12 12 0)
      (ex_start\<lparr>eng_priority := 1, eng_book := b\<rparr>)"
    "book_wf 8 b" "flat BUY b = [ex_tick_order\<lparr>priority_seq := 0\<rparr>]" "flat SELL b = []"
proof -
  let ?inc = "ex_tick_order\<lparr>priority_seq := 0\<rparr>"
  obtain r2 o2 b2 where m: "matchOrder (env_now ex_env) ?inc (eng_book ex_start) = (r2, o2, b2)"
    by (cases "matchOrder (env_now ex_env) ?inc (eng_book ex_start)") auto
  have inc: "incoming_ok ?inc (eng_book ex_start)" using ex_start_ok(1) by simp
  have rm: "id_room (next_trade_id (eng_book ex_start)) (length (flat (other (side ?inc)) (eng_book ex_start)))" by (simp add: ex_start_ok(4))
  from ex_start_ok(5) inc rm m disjI1 [OF ex_start_ok(6)] show thesis
  proof (cases rule: match_outcome)
    case Killed
    then show thesis by simp
  next
    case (Matched ts)
    have p: "0 < pool_free (eng_book (MatchingEngine 8))" using ex_start_ok(3) by simp
    have x: "ts = []" "o2 = ?inc" "flat BUY b2 = [?inc]" "flat SELL b2 = []"
      using Matched(2) p by (auto simp: matched_def Let_def ex_start_ok(4) insert_prio_def)
    have q: "matchOrder (env_now ex_env) (ex_tick_order\<lparr>priority_seq := eng_priority ex_start\<rparr>) (eng_book ex_start) = (Inr [], ?inc, b2)"
      using m Matched(1) x(1,2) ex_start_ok(8) by simp
    have "ex_live = publish_next (accepted_ev ex_env ?inc (price ex_tick_order) 12 12 0) (ex_start\<lparr>eng_priority := 1, eng_book := b2\<rparr>)"
      unfolding ex_live_def using processOrder_quiet [of ex_start ex_env ex_tick_order, OF ex_start_ok(7) _ _ q] ex_start_ok(8)
      by (simp add: may_rest_iff)
    moreover have "book_wf 8 b2" using matchOrder_keys [OF ex_start_ok(5) inc rm m] by (rule conjunct1)
    ultimately show thesis using that x(3,4) by blast
  qed
qed

lemma ex_live_journal:
  obtains bss where "list_all2 (\<lambda>ev bytes. serialize ev = Some bytes) (eng_published ex_live) bss" "eng_published ex_live \<noteq> []"
proof -
  have "trading\<^sup>*\<^sup>* ex_start ex_live" using ex_live_trading by simp
  then have A: "\<forall>ev \<in> set (eng_published ex_live). recordable ev" using trading_follows [OF _ follows_start] by (auto simp: MatchingEngine_def)
  have "list_all2 (\<lambda>ev bytes. serialize ev = Some bytes) (eng_published ex_live) (map (\<lambda>ev. the (serialize ev)) (eng_published ex_live))"
    using A by (auto simp: list_all2_map2 recordable_def intro!: list.rel_refl_strong)
  moreover have "eng_published ex_live \<noteq> []"
  proof (rule ex_live_eq)
    fix b assume e: "ex_live = publish_next (accepted_ev ex_env (ex_tick_order\<lparr>priority_seq := 0\<rparr>) (price ex_tick_order) 12 12 0)
      (ex_start\<lparr>eng_priority := 1, eng_book := b\<rparr>)"
    show ?thesis unfolding e by simp
  qed
  ultimately show thesis using that by blast
qed

theorem replay_rebuilds_book_witness:
  "\<exists>bss rv r. list_all2 (\<lambda>ev bytes. serialize ev = Some bytes) (eng_published ex_live) bss \<and> eng_published ex_live \<noteq> [] \<and>
     replay (\<lambda>_. 0) (Some \<lparr>ifs_data = header @ concat bss @ [], ifs_broken = False\<rparr>) (MatchingEngine 8) = (Inr True, rv, r) \<and>
     isReady r \<and> (\<forall>sd. view (eng_book r) sd = view (eng_book ex_live) sd)"
proof -
  have t: "trading\<^sup>*\<^sup>* ex_start ex_live" using ex_live_trading by simp
  obtain bss where b: "list_all2 (\<lambda>ev bytes. serialize ev = Some bytes) (eng_published ex_live) bss" "eng_published ex_live \<noteq> []"
    by (rule ex_live_journal)
  obtain bytes where c: "serialize (OrderCancelledEvent \<lparr>oc_timestamp = 5, oc_sequence = 1, oc_orderId = 7, oc_symbolId = 1, oc_traderId = 3, oc_cancelledQuantity = 2\<rparr>) = Some ([] @ bytes)"
    "bytes \<noteq> []" by (simp add: frame_def body_def)
  show ?thesis using replay_rebuilds_book [OF t prefix_order.refl b(1) c, of "\<lambda>_. 0"] b by blast
qed

subsection \<open>An amendment in place\<close>







end
