(* ===== verification/Decimal.thy ===== *)
theory Decimal
  imports Trading_Prelude
begin

text \<open>\<open>std::to_string\<close> of an integer that is not negative, and that its digits determine the number.\<close>

function to_string :: "int \<Rightarrow> string" where
  "to_string n = (if n < 10 then [char_of (48 + n)] else to_string (n div 10) @ [char_of (48 + n mod 10)])"
  by auto
termination by (relation "measure nat") auto

declare to_string.simps [simp del]

definition read_digits :: "string \<Rightarrow> int" where
  "read_digits = foldl (\<lambda>n c. 10 * n + (of_char c - 48)) 0"

definition is_digit :: "char \<Rightarrow> bool" where
  "is_digit c \<longleftrightarrow> 48 \<le> (of_char c :: int) \<and> (of_char c :: int) \<le> 57"

lemma read_digits_snoc [simp]: "read_digits (s @ [c]) = 10 * read_digits s + (of_char c - 48)"
  by (simp add: read_digits_def)

lemma to_string_digits: "0 \<le> n \<Longrightarrow> read_digits (to_string n) = n \<and> list_all is_digit (to_string n)"
proof (induction n rule: to_string.induct)
  case (1 n)
  show ?case
  proof (cases "n < 10")
    case True
    then show ?thesis using 1 by (subst (1 2) to_string.simps) (simp add: is_digit_def read_digits_def)
  next
    case False
    then have IH: "read_digits (to_string (n div 10)) = n div 10" "list_all is_digit (to_string (n div 10))" using 1 by auto
    have "0 \<le> n mod 10" "n mod 10 < 10" by simp_all
    then show ?thesis using False IH by (subst (1 2) to_string.simps) (simp add: is_digit_def)
  qed
qed

lemma to_string_inj: "0 \<le> m \<Longrightarrow> 0 \<le> n \<Longrightarrow> to_string m = to_string n \<Longrightarrow> m = n"
  by (metis to_string_digits)

lemma length_to_string: "0 \<le> n \<Longrightarrow> n < 10 ^ d \<Longrightarrow> 0 < d \<Longrightarrow> length (to_string n) \<le> d"
proof (induction n arbitrary: d rule: to_string.induct)
  case (1 n)
  show ?case
  proof (cases "n < 10")
    case True
    then show ?thesis using 1 by (subst to_string.simps) simp
  next
    case False
    obtain k where k: "d = Suc k" using 1 by (cases d) auto
    have "0 < k" using False 1(3) k by (cases k) auto
    moreover have "n div 10 < 10 ^ k" using 1(3) k by simp
    ultimately have "length (to_string (n div 10)) \<le> k" using 1 False by simp
    then show ?thesis using False k by (subst to_string.simps) simp
  qed
qed

lemma read_zeros: "read_digits (replicate k CHR ''0'' @ s) = read_digits s"
  by (induction k) (simp_all add: read_digits_def)

end
