(* ===== verification/Sharded_Journal.thy ===== *)
theory Sharded_Journal
  imports Event_Replay Journal_Threads Decimal
begin

text \<open>
  One journal per shard (\<open>include/ShardedJournalManager.h\<close>, \<open>src/ShardedJournalManager.cpp\<close>): the files, the sequence
  counters the shards' engines draw from, recovery of a shard and the \<open>sync\<close> of all journals.

  An engine attached to a counter shares the cell with the manager; the engine's record holds the value of the cell it is
  attached to, so attaching copies the value. \<open>fs\<close> is what opening a path for reading yields.
\<close>

section \<open>The model\<close>

definition shardJournalPath :: "string \<Rightarrow> u64 \<Rightarrow> string" where
  "shardJournalPath base_path shard_id = base_path @ ''/journal-'' @ to_string (uint shard_id) @ ''.bin''"

record manager =
  sm_base :: string
  sm_num :: u64
  sm_journals :: "journal list"
  sm_counters :: "u64 list"

text \<open>
  The loop of the constructor, shard by shard: \<open>env\<close> answers the system calls on a path, \<open>files\<close> is what the path holds
  before. \<open>dirs\<close> is the outcome of \<open>create_directories\<close>.
\<close>

primrec make_journals :: "(string \<Rightarrow> jenv) \<Rightarrow> (string \<Rightarrow> u8 list) \<Rightarrow> string \<Rightarrow> nat \<Rightarrow> (exn + journal list) option" where
  "make_journals env files base_path 0 = Some (Inr [])"
| "make_journals env files base_path (Suc n) =
     (case make_journals env files base_path n of
        Some (Inr js) \<Rightarrow>
          (let path = shardJournalPath base_path (of_nat n)
           in case Journal (env path) (files path) 16384 of
                Some (Inr j) \<Rightarrow> Some (Inr (js @ [j]))
              | Some (Inl ex) \<Rightarrow> Some (Inl ex)
              | None \<Rightarrow> None)
      | Some (Inl ex) \<Rightarrow> Some (Inl ex)
      | None \<Rightarrow> None)"

definition ShardedJournalManager :: "bool \<Rightarrow> (string \<Rightarrow> jenv) \<Rightarrow> (string \<Rightarrow> u8 list) \<Rightarrow> string \<Rightarrow> u64 \<Rightarrow> (exn + manager) option" where
  "ShardedJournalManager dirs env files base_path num_shards =
     (if num_shards = 0 then Some (Inl (Invalid_argument ''ShardedJournalManager: num_shards must be > 0''))
      else if \<not> dirs then Some (Inl (Runtime_error ''filesystem error: cannot create directories''))
      else
        (case make_journals env files base_path (unat num_shards) of
           Some (Inr js) \<Rightarrow> Some (Inr \<lparr>sm_base = base_path, sm_num = num_shards, sm_journals = js, sm_counters = replicate (unat num_shards) 0\<rparr>)
         | Some (Inl ex) \<Rightarrow> Some (Inl ex)
         | None \<Rightarrow> None))"

definition getJournal :: "u64 \<Rightarrow> manager \<Rightarrow> journal option" where
  "getJournal shard_id m = (if sm_num m \<le> shard_id then None else Some (sm_journals m ! unat shard_id))"

definition getSequenceCounter :: "u64 \<Rightarrow> manager \<Rightarrow> u64 option" where
  "getSequenceCounter shard_id m = (if sm_num m \<le> shard_id then None else Some (sm_counters m ! unat shard_id))"

text \<open>
  How an engine is wired up: to a counter, for a cell that holds \<open>n\<close>, to a publisher, and to a journal, whose health the
  engine's record holds.
\<close>

definition setSequenceCounter :: "u64 \<Rightarrow> engine \<Rightarrow> engine" where
  "setSequenceCounter n e = e\<lparr>eng_sequence := Some n\<rparr>"

definition setMarketDataPublisher :: "bool \<Rightarrow> engine \<Rightarrow> engine" where
  "setMarketDataPublisher publisher e = e\<lparr>eng_publisher := publisher\<rparr>"

definition setJournal :: "bool option \<Rightarrow> engine \<Rightarrow> engine" where
  "setJournal journal e = e\<lparr>eng_journal := journal\<rparr>"

definition recoverShard ::
  "(nat \<Rightarrow> i64) \<Rightarrow> (string \<Rightarrow> ifs option) \<Rightarrow> u64 \<Rightarrow> engine \<Rightarrow> manager \<Rightarrow> (exn + bool) \<times> engine \<times> manager" where
  "recoverShard clock fs shard_id e m =
     (if sm_num m \<le> shard_id then (Inr False, e, m)
      else
        (case replay clock (fs (shardJournalPath (sm_base m) shard_id)) e of
           (Inl ex, rv, e1) \<Rightarrow> (Inl ex, e1, m)
         | (Inr False, rv, e1) \<Rightarrow> (Inr False, e1, m)
         | (Inr True, rv, e1) \<Rightarrow>
             (let n = rv_last_sequence rv + 1
              in (Inr True, seedSequence n (setSequenceCounter n e1), m\<lparr>sm_counters := (sm_counters m)[unat shard_id := n]\<rparr>))))"

text \<open>
  \<open>sync\<close> on a journal while its threads go on: the flush answers at once or after a wait, then the file is
  synchronised. \<open>syncAll\<close> calls it on one journal after the other and ignores the answers, listed here.
\<close>

inductive sync_call :: "jsys \<Rightarrow> bool \<Rightarrow> jsys \<Rightarrow> bool" where
  at_once: "flush_begin (js_journal s) = Inl flushed \<Longrightarrow> jstep\<^sup>*\<^sup>* s s' \<Longrightarrow> sync_end flushed sync_ok (js_journal s') = (ok, j) \<Longrightarrow>
    sync_call s ok (s'\<lparr>js_journal := j\<rparr>)"
| waits: "flush_begin (js_journal s) = Inr target \<Longrightarrow> jstep\<^sup>*\<^sup>* s s1 \<Longrightarrow> waitUntilWritten target (js_journal s1) = Some flushed \<Longrightarrow>
    jstep\<^sup>*\<^sup>* s1 s' \<Longrightarrow> sync_end flushed sync_ok (js_journal s') = (ok, j) \<Longrightarrow> sync_call s ok (s'\<lparr>js_journal := j\<rparr>)"

inductive syncAll :: "jsys list \<Rightarrow> bool list \<Rightarrow> jsys list \<Rightarrow> bool" where
  finished: "syncAll [] [] []"
| sync: "sync_call s ok s1 \<Longrightarrow> list_all2 (\<lambda>s s'. jstep\<^sup>*\<^sup>* s s') ss ss1 \<Longrightarrow> syncAll ss1 oks ss2 \<Longrightarrow> jstep\<^sup>*\<^sup>* s1 s2 \<Longrightarrow>
    syncAll (s # ss) (ok # oks) (s2 # ss2)"

section \<open>Lemmas\<close>

subsection \<open>Every shard has its own file\<close>

lemma shardJournalPath_inj: "shardJournalPath base_path i = shardJournalPath base_path k \<longleftrightarrow> i = k"
proof
  assume "shardJournalPath base_path i = shardJournalPath base_path k"
  then have "to_string (uint i) = to_string (uint k)" by (simp add: shardJournalPath_def)
  then have "uint i = uint k" by (rule to_string_inj [rotated 2]) simp_all
  then show "i = k" by (simp only: word_uint_eq_iff)
qed simp


subsection \<open>What replay counts\<close>

abbreviation fresh :: "nat \<Rightarrow> engine" where
  "fresh capacity \<equiv> beginRecovery (MatchingEngine capacity)"

text \<open>Priorities are strictly increasing, so the number of new orders is at most the last priority plus one.\<close>

definition counts_priorities :: "recovery \<Rightarrow> bool" where
  "counts_priorities rv \<longleftrightarrow> rv_new_orders_replayed rv = 0 \<or> unat (rv_new_orders_replayed rv) \<le> unat (rv_max_priority rv) + 1"

lemma unat_plus_one_le: "unat (x + 1) \<le> unat x + 1" for x :: u64
  by (simp add: unat_plus_if', linarith)

lemma validatePriority_counts:
  assumes "validatePrioritySequence p rv = (True, rv')" "counts_priorities rv"
  shows "counts_priorities (rv'\<lparr>rv_new_orders_replayed := rv_new_orders_replayed rv' + 1, rv_records_replayed := k\<rparr>)"
proof (cases "rv_new_orders_replayed rv = 0")
  case True
  then show ?thesis using assms(1) by (auto simp: counts_priorities_def validatePrioritySequence_def)
next
  case False
  then have rv': "rv' = rv\<lparr>rv_max_priority := p\<rparr>" "rv_max_priority rv < p"
    using assms(1) by (auto simp: validatePrioritySequence_def split: if_splits)
  have "unat (rv_new_orders_replayed rv) \<le> unat (rv_max_priority rv) + 1" using assms(2) False by (simp add: counts_priorities_def)
  moreover have "unat (rv_max_priority rv) + 1 \<le> unat p" using rv'(2) by (simp add: word_less_nat_alt)
  ultimately show ?thesis using unat_plus_one_le [of "rv_new_orders_replayed rv"] unfolding rv'(1) by (simp add: counts_priorities_def)
qed

lemma book_stp_operations:
  "addOrder x b = (ok, b') \<Longrightarrow> book_stp b' = book_stp b" "cancelOrder oid b = (ok, b') \<Longrightarrow> book_stp b' = book_stp b"
  "applyFill oid q b = (ok, b') \<Longrightarrow> book_stp b' = book_stp b"
  by (auto simp: addOrder_def cancelOrder_def applyFill_def split: if_splits option.splits prod.splits)

lemma apply_event_keeps:
  assumes "apply_event now ev rv r = (Inr True, rv', r')"
  shows "counts_priorities rv \<Longrightarrow> counts_priorities rv'" "book_stp (eng_book r') = book_stp (eng_book r)" "rv_first_record rv' = rv_first_record rv"
proof -
  have "(counts_priorities rv \<longrightarrow> counts_priorities rv') \<and> book_stp (eng_book r') = book_stp (eng_book r) \<and> rv_first_record rv' = rv_first_record rv"
  proof (cases ev)
    case (OrderAcceptedEvent a)
    obtain rv1 ord e1 where v: "validatePrioritySequence (oa_prioritySeq a) rv = (True, rv1)"
      and o: "restoreOrder ord (oa_remainingQuantity a) r = (True, r')"
      and rv': "rv' = rv1\<lparr>rv_new_orders_replayed := rv_new_orders_replayed rv1 + 1, rv_records_replayed := rv_records_replayed rv1 + 1\<rparr>"
      using assms OrderAcceptedEvent by (auto split: if_splits prod.splits bool.splits sum.splits)
    have "book_stp (eng_book r') = book_stp (eng_book r)"
      using o book_stp_operations(1) by (auto simp: restoreOrder_def split: if_splits option.splits prod.splits)
    moreover have "rv_first_record rv' = rv_first_record rv" using v rv' by (auto simp: validatePrioritySequence_def split: if_splits)
    ultimately show ?thesis using validatePriority_counts [OF v] rv' by blast
  next
    case (TradeEvent t)
    then show ?thesis
      using assms book_stp_operations(3) by (auto simp: counted_def eng_applyFill_def counts_priorities_def split: prod.splits bool.splits)
  next
    case (OrderCancelledEvent c)
    then show ?thesis
      using assms book_stp_operations(2) by (auto simp: counted_def restoreCancel_def counts_priorities_def split: prod.splits bool.splits)
  qed (use assms in simp)
  then show "counts_priorities rv \<Longrightarrow> counts_priorities rv'" "book_stp (eng_book r') = book_stp (eng_book r)" "rv_first_record rv' = rv_first_record rv"
    by blast+
qed

lemma validateSequence_keeps:
  assumes "validateSequence n rv = (True, rv')"
  shows "counts_priorities rv' = counts_priorities rv" "\<not> rv_first_record rv'"
  using assms by (auto simp: validateSequence_def counts_priorities_def split: if_splits)

lemma apply_all_keeps:
  "apply_all evs rv r = (Inr True, rv', r') \<Longrightarrow> counts_priorities rv \<Longrightarrow>
   counts_priorities rv' \<and> book_stp (eng_book r') = book_stp (eng_book r) \<and> (evs \<noteq> [] \<or> \<not> rv_first_record rv \<longrightarrow> \<not> rv_first_record rv')"
proof (induction evs arbitrary: rv r)
  case (Cons ev evs)
  obtain rv1 where 1: "validateSequence (ev_sequence ev) rv = (True, rv1)" using Cons.prems(1) by (auto split: prod.splits bool.splits)
  obtain rv2 r2 where 2: "apply_event 0 ev rv1 r = (Inr True, rv2, r2)" "apply_all evs rv2 r2 = (Inr True, rv', r')"
    using Cons.prems(1) 1 by (auto split: prod.splits sum.splits bool.splits)
  have "counts_priorities rv2" "\<not> rv_first_record rv2"
    using validateSequence_keeps [OF 1] apply_event_keeps [OF 2(1)] Cons.prems(2) by auto
  then show ?case using Cons.IH [OF 2(2)] apply_event_keeps(2) [OF 2(1)] by simp
qed simp

subsection \<open>A recovered engine goes on where the journal ends\<close>

text \<open>The engine's history \<open>evs\<close> replays to a replica of its book.\<close>

definition replays_to :: "nat \<Rightarrow> market_event list \<Rightarrow> engine \<Rightarrow> recovery \<Rightarrow> book \<Rightarrow> bool" where
  "replays_to capacity evs e rv rb \<longleftrightarrow> (\<forall>ev \<in> set evs. recordable ev) \<and>
     apply_all evs Recovery (fresh capacity) = (Inr True, rv, (fresh capacity)\<lparr>eng_book := rb\<rparr>) \<and>
     follows capacity e rv ((fresh capacity)\<lparr>eng_book := rb\<rparr>)"

abbreviation next_priority :: "recovery \<Rightarrow> u64" where
  "next_priority rv \<equiv> if rv_new_orders_replayed rv = 0 then 0 else rv_max_priority rv + 1"

abbreviation restarted :: "nat \<Rightarrow> recovery \<Rightarrow> book \<Rightarrow> engine" where
  "restarted capacity rv rb \<equiv> (fresh capacity)\<lparr>eng_book := rb, eng_priority := next_priority rv, eng_state := READY,
     eng_sequence := Some (rv_last_sequence rv + 1)\<rparr>"

lemma replays_to_priorities:
  assumes "replays_to capacity evs e rv rb" "x \<in> set (view rb sd)"
  shows "priority_seq x < next_priority rv" "priority_seq x \<le> rv_max_priority rv \<and> rv_new_orders_replayed rv \<noteq> 0"
proof -
  have "x \<in> set (view (eng_book e) sd)" using assms by (simp add: replays_to_def follows_def replica_def)
  then obtain y where "y \<in> set (flat sd (eng_book e))" "x = core y" by (auto simp: view_def)
  then have "priority_seq x \<le> rv_max_priority rv" "rv_max_priority rv < eng_priority e" "rv_new_orders_replayed rv \<noteq> 0"
    using assms(1) by (force simp: replays_to_def follows_def prio_known_def)+
  then show "priority_seq x < next_priority rv" "priority_seq x \<le> rv_max_priority rv \<and> rv_new_orders_replayed rv \<noteq> 0"
    by (simp_all add: word_less_Suc)
qed

lemma view_maps: "view b sd = view b' sd \<Longrightarrow> map price (flat sd b) = map price (flat sd b') \<and> map priority_seq (flat sd b) = map priority_seq (flat sd b')"
proof -
  assume "view b sd = view b' sd"
  then have "map price (view b sd) = map price (view b' sd)" "map priority_seq (view b sd) = map priority_seq (view b' sd)" by simp_all
  then show ?thesis by (simp add: view_def comp_def)
qed

lemma restarted_follows:
  assumes R: "replays_to capacity evs e rv rb"
  shows "replays_to capacity evs (setJournal j (setMarketDataPublisher True (restarted capacity rv rb))) rv rb"
proof -
  let ?e = "(restarted capacity rv rb)\<lparr>eng_publisher := True, eng_journal := j\<rparr>"
  have F: "engine_wf capacity e" "book_live (eng_book e)" "book_wf capacity rb" "\<And>sd. view rb sd = view (eng_book e) sd" "prio_known e rv"
    and A: "apply_all evs Recovery (fresh capacity) = (Inr True, rv, (fresh capacity)\<lparr>eng_book := rb\<rparr>)" "\<forall>ev \<in> set evs. recordable ev"
    and n: "\<exists>n. eng_sequence e = Some n \<and> in_sequence n rv"
    using R by (auto simp: replays_to_def follows_def replica_def)
  have c0: "counts_priorities Recovery" by (simp add: counts_priorities_def Recovery_def)
  note K = apply_all_keeps [OF A(1) c0]
  have mx: "rv_max_priority rv \<noteq> UINT64_MAX"
    using apply_all_frame [OF A] by (simp add: Recovery_def)
  have "unat (rv_max_priority rv) \<noteq> 18446744073709551615" using mx by (simp add: word_unat_eq_iff)
  then have "unat (rv_max_priority rv) < 18446744073709551615" using unat_u64_less [of "rv_max_priority rv"] by linarith
  then have up: "unat (rv_max_priority rv + 1) = unat (rv_max_priority rv) + 1" by (simp add: unat_plus_if')
  have pr: "priority_seq x < next_priority rv" "priority_seq x \<le> rv_max_priority rv \<and> rv_new_orders_replayed rv \<noteq> 0" if "x \<in> set (flat sd rb)" for x sd
    using replays_to_priorities [OF R, of "core x" sd] that by (auto simp: view_def)
  have "engine_wf capacity ?e"
    unfolding engine_wf_def
  proof (intro conjI allI ballI)
    show "prio_sorted (flat sd (eng_book ?e))" for sd
      using prio_sorted_map [of "flat sd (eng_book e)" "flat sd rb"] view_maps [OF F(4) [of sd]] F(1) by (simp add: engine_wf_def)
  qed (use F(3) pr(1) in auto)
  moreover have "book_live rb"
    unfolding book_live_def
  proof (intro allI ballI)
    fix sd x assume "x \<in> set (flat sd rb)"
    then have "core x \<in> set (view (eng_book e) sd)" using F(4) [of sd] by (metis imageI set_map view_def)
    then obtain y where y: "y \<in> set (flat sd (eng_book e))" "core x = core y" by (auto simp: view_def)
    have "remaining_quantity x = remaining_quantity y" "journalable x = journalable y"
      using arg_cong [OF y(2), of remaining_quantity] arg_cong [OF y(2), of journalable] by simp_all
    then show "remaining_quantity x \<noteq> 0 \<and> journalable x" using F(2) y(1) by (auto simp: book_live_def)
  qed
  moreover have "in_sequence (rv_last_sequence rv + 1) rv" using n by (auto simp: in_sequence_def)
  moreover have "prio_known ?e rv"
    unfolding prio_known_def
  proof (intro conjI allI ballI)
    show "rv_new_orders_replayed rv = 0 \<or> rv_max_priority rv < eng_priority ?e" using up by (simp add: word_less_nat_alt)
    show "unat (rv_new_orders_replayed rv) \<le> unat (eng_priority ?e)" using K up by (auto simp: counts_priorities_def)
  qed (use pr(2) in auto)
  ultimately show ?thesis using A F(3) by (simp add: replays_to_def follows_def replica_def setJournal_def setMarketDataPublisher_def)
qed

text \<open>A record to be torn off to nothing.\<close>

lemma some_record: "\<exists>ev missing. serialize ev = Some ([] @ missing) \<and> missing \<noteq> []"
  by (intro exI [of _ "OrderCancelledEvent \<lparr>oc_timestamp = 5, oc_sequence = 1, oc_orderId = 7, oc_symbolId = 1, oc_traderId = 3, oc_cancelledQuantity = 2\<rparr>"])
    (simp add: frame_def body_def)

lemma recoverShard_restarts:
  assumes R: "replays_to capacity evs e rv rb" and b: "list_all2 (\<lambda>ev bytes. serialize ev = Some bytes) evs bss"
    and t: "serialize ev = Some (torn @ missing)" "missing \<noteq> []"
    and f: "fs (shardJournalPath (sm_base m) shard_id) = Some \<lparr>ifs_data = header @ concat bss @ torn, ifs_broken = False\<rparr>" and i: "shard_id < sm_num m"
  shows "recoverShard clock fs shard_id (MatchingEngine capacity) m =
    (Inr True, restarted capacity rv rb, m\<lparr>sm_counters := (sm_counters m)[unat shard_id := rv_last_sequence rv + 1]\<rparr>)"
proof -
  obtain rv' where r: "replay clock (fs (shardJournalPath (sm_base m) shard_id)) (MatchingEngine capacity) =
      (Inr True, rv', (fresh capacity)\<lparr>eng_book := rb, eng_priority := next_priority rv, eng_state := READY\<rparr>)" "rv_last_sequence rv' = rv_last_sequence rv"
    using replay_ends [OF b _ _ t, of capacity rv "(fresh capacity)\<lparr>eng_book := rb\<rparr>" clock] R f by (auto simp: replays_to_def)
  show ?thesis using i r unfolding recoverShard_def by (simp add: setSequenceCounter_def seedSequence_def Let_def)
qed

lemma recoverShard_whole:
  assumes "replays_to capacity evs e rv rb" "list_all2 (\<lambda>ev bytes. serialize ev = Some bytes) evs bss"
    "fs (shardJournalPath (sm_base m) shard_id) = Some \<lparr>ifs_data = header @ concat bss, ifs_broken = False\<rparr>" "shard_id < sm_num m"
  shows "recoverShard clock fs shard_id (MatchingEngine capacity) m =
    (Inr True, restarted capacity rv rb, m\<lparr>sm_counters := (sm_counters m)[unat shard_id := rv_last_sequence rv + 1]\<rparr>)"
proof -
  obtain ev missing where "serialize ev = Some ([] @ missing)" "missing \<noteq> []" using some_record by blast
  then show ?thesis using recoverShard_restarts [where fs = fs and clock = clock, OF assms(1,2) _ _ _ assms(4)] assms(3) by simp
qed

text \<open>
  The life of a shard: a first start on a journal that holds only its header, order entry, whose events go to the journal, and
  restarts of the process, after which a new engine is recovered from everything journaled so far. \<open>evs\<close> is the history.
  The journal of a restart is made of whole records: recovery skips a torn last record but leaves it in the file, and
  the records appended behind it could not be read back.
\<close>

inductive shard_life :: "nat \<Rightarrow> u64 \<Rightarrow> market_event list \<Rightarrow> engine \<Rightarrow> bool" for capacity shard_id where
  boot: "shard_id < sm_num m \<Longrightarrow> fs (shardJournalPath (sm_base m) shard_id) = Some \<lparr>ifs_data = header, ifs_broken = False\<rparr> \<Longrightarrow>
    recoverShard clock fs shard_id (MatchingEngine capacity) m = (Inr True, e, m') \<Longrightarrow>
    shard_life capacity shard_id [] (setJournal j (setMarketDataPublisher True e))"
| trade: "shard_life capacity shard_id evs e \<Longrightarrow> trading e e' \<Longrightarrow>
    shard_life capacity shard_id (evs @ drop (length (eng_published e)) (eng_published e')) e'"
| restart: "shard_life capacity shard_id evs e \<Longrightarrow> list_all2 (\<lambda>ev bytes. serialize ev = Some bytes) evs bss \<Longrightarrow> shard_id < sm_num m \<Longrightarrow>
    fs (shardJournalPath (sm_base m) shard_id) = Some \<lparr>ifs_data = header @ concat bss, ifs_broken = False\<rparr> \<Longrightarrow>
    recoverShard clock fs shard_id (MatchingEngine capacity) m = (Inr True, e', m') \<Longrightarrow>
    shard_life capacity shard_id evs (setJournal j (setMarketDataPublisher True e'))"

lemma replays_to_start: "\<exists>e. replays_to capacity [] e Recovery (eng_book (fresh capacity))"
  using follows_start [where n = 0 and j = None] by (intro exI) (simp add: replays_to_def)

lemma replays_to_trade:
  assumes "replays_to capacity evs e rv rb" "trading e e'"
  shows "\<exists>rv' rb'. replays_to capacity (evs @ drop (length (eng_published e)) (eng_published e')) e' rv' rb'"
proof -
  have R: "\<forall>ev \<in> set evs. recordable ev" "apply_all evs Recovery (fresh capacity) = (Inr True, rv, (fresh capacity)\<lparr>eng_book := rb\<rparr>)"
    "follows capacity e rv ((fresh capacity)\<lparr>eng_book := rb\<rparr>)"
    using assms(1) by (auto simp: replays_to_def)
  obtain new rv' rb' where A: "eng_published e' = eng_published e @ new" "\<forall>ev \<in> set new. recordable ev"
    "apply_all new rv ((fresh capacity)\<lparr>eng_book := rb\<rparr>) = (Inr True, rv', (fresh capacity)\<lparr>eng_book := rb, eng_book := rb'\<rparr>)"
    "follows capacity e' rv' ((fresh capacity)\<lparr>eng_book := rb, eng_book := rb'\<rparr>)"
    using trading_advances [OF assms(2) R(3)] unfolding advances_def by blast
  then have "replays_to capacity (evs @ new) e' rv' rb'"
    using R(1) apply_all_append [OF R(2), of new] by (auto simp: replays_to_def)
  then show ?thesis using A(1) by auto
qed

lemma shard_life_replays: "shard_life capacity shard_id evs e \<Longrightarrow> \<exists>rv rb. replays_to capacity evs e rv rb"
proof (induction rule: shard_life.induct)
  case (boot m fs clock e m' j)
  obtain e0 where e0: "replays_to capacity [] e0 Recovery (eng_book (fresh capacity))" using replays_to_start by blast
  have "list_all2 (\<lambda>ev bytes. serialize ev = Some bytes) [] []" by simp
  from recoverShard_whole [where fs = fs and clock = clock, OF e0 this _ boot(1)] boot(2,3)
  have "e = restarted capacity Recovery (eng_book (fresh capacity))" by simp
  then show ?case using restarted_follows [OF e0, of j] by blast
next
  case (trade evs e e')
  then show ?case using replays_to_trade by blast
next
  case (restart evs e bss m fs clock e' m' j)
  then obtain rv rb where R: "replays_to capacity evs e rv rb" by blast
  have "e' = restarted capacity rv rb" using recoverShard_whole [where fs = fs and clock = clock, OF R restart(2,4,3)] restart(5) by simp
  then show ?case using restarted_follows [OF R, of j] by blast
qed

text \<open>
  C5. A shard survives restarts. Take any life of a shard that starts on an empty journal: order entry under the conditions of
  \<open>trading\<close> (validated orders with fresh identifiers, a free slot for each, no order that meets its own trader's
  while a self-trade policy is set, replacements that change the price, raise the quantity or cancel, prices in whole
  ticks, event numbers left) and restarts that find the whole history in whole records. Recovering the shard once more,
  from that history followed by any torn part of a record, succeeds and yields a ready engine whose book is, on both sides, the
  lost engine's book, with priorities below the new counter; the sequence numbers go on exactly where the journal ended,
  so the next record continues it, the manager's counter and the engine's agree, and no other shard's
  counter changes. The self-trade policy is not journaled: the recovered book has none.
\<close>

theorem shard_recovers_repeatedly:
  assumes "shard_life capacity shard_id evs e" "list_all2 (\<lambda>ev bytes. serialize ev = Some bytes) evs bss"
    "serialize ev = Some (torn @ missing)" "missing \<noteq> []"
    "fs (shardJournalPath (sm_base m) shard_id) = Some \<lparr>ifs_data = header @ concat bss @ torn, ifs_broken = False\<rparr>"
    "shard_id < sm_num m" "length (sm_counters m) = unat (sm_num m)"
  shows "\<exists>r m'. recoverShard clock fs shard_id (MatchingEngine capacity) m = (Inr True, r, m') \<and> isReady r \<and> book_wf capacity (eng_book r) \<and>
    (\<forall>sd. view (eng_book r) sd = view (eng_book e) sd \<and> (\<forall>x \<in> set (view (eng_book r) sd). priority_seq x < eng_priority r)) \<and>
    eng_sequence r = (if evs = [] then Some 1 else eng_sequence e) \<and> book_stp (eng_book r) = STP_NONE \<and>
    getSequenceCounter shard_id m' = eng_sequence r \<and> (\<forall>k. k \<noteq> shard_id \<longrightarrow> getSequenceCounter k m' = getSequenceCounter k m)"
proof -
  obtain rv rb where R: "replays_to capacity evs e rv rb" using shard_life_replays [OF assms(1)] by blast
  let ?n = "rv_last_sequence rv + 1"
  let ?m = "m\<lparr>sm_counters := (sm_counters m)[unat shard_id := ?n]\<rparr>"
  note C = recoverShard_restarts [where fs = fs and clock = clock, OF R assms(2-6)]
  have A: "apply_all evs Recovery (fresh capacity) = (Inr True, rv, (fresh capacity)\<lparr>eng_book := rb\<rparr>)"
    and rep: "book_wf capacity rb" "\<And>sd. view rb sd = view (eng_book e) sd"
    and n: "\<exists>n. eng_sequence e = Some n \<and> in_sequence n rv"
    using R by (auto simp: replays_to_def follows_def replica_def)
  have "Some ?n = (if evs = [] then Some 1 else eng_sequence e)"
  proof (cases "evs = []")
    case True
    then show ?thesis using A by (auto simp: Recovery_def)
  next
    case False
    then have "\<not> rv_first_record rv" using apply_all_keeps [OF A] by (simp add: counts_priorities_def Recovery_def)
    then show ?thesis using False n by (auto simp: in_sequence_def)
  qed
  moreover have "unat shard_id < length (sm_counters m)" using assms(6,7) by (simp add: word_less_nat_alt)
  then have "getSequenceCounter shard_id ?m = Some ?n" using assms(6) by (simp add: getSequenceCounter_def)
  moreover have "getSequenceCounter k ?m = getSequenceCounter k m" if "k \<noteq> shard_id" for k
  proof -
    have "unat shard_id \<noteq> unat k" using that by (metis word_unat_eq_iff)
    then show ?thesis by (simp add: getSequenceCounter_def)
  qed
  moreover have "book_stp rb = STP_NONE"
    using apply_all_keeps [OF A] by (simp add: counts_priorities_def Recovery_def beginRecovery_def MatchingEngine_def OrderBook_def)
  ultimately show ?thesis
    using C rep replays_to_priorities(1) [OF R] by (intro exI [of _ "restarted capacity rv rb"] exI [of _ ?m]) (simp add: isReady_def)
qed

definition ex_manager :: manager where
  "ex_manager = \<lparr>sm_base = ''d'', sm_num = 2, sm_journals = [], sm_counters = [0, 0]\<rparr>"

lemma ex_life: "shard_life 8 1 (eng_published ex_live) ex_live"
proof -
  let ?fs = "\<lambda>_. Some \<lparr>ifs_data = header, ifs_broken = False\<rparr>"
  obtain e0 where e0: "replays_to 8 [] e0 Recovery (eng_book (fresh 8))" using replays_to_start by blast
  have i: "1 < sm_num ex_manager" by (simp add: ex_manager_def)
  have "list_all2 (\<lambda>ev bytes. serialize ev = Some bytes) [] []" by simp
  from recoverShard_whole [where fs = ?fs and clock = "\<lambda>_. 0", OF e0 this _ i]
  have "recoverShard (\<lambda>_. 0) ?fs 1 (MatchingEngine 8) ex_manager =
      (Inr True, restarted 8 Recovery (eng_book (fresh 8)), ex_manager\<lparr>sm_counters := (sm_counters ex_manager)[unat (1 :: u64) := rv_last_sequence Recovery + 1]\<rparr>)"
    by simp
  from shard_life.boot [where fs = ?fs and j = None, OF i refl this]
  have "shard_life 8 1 [] ex_start" by (simp add: setJournal_def setMarketDataPublisher_def Recovery_def beginRecovery_def MatchingEngine_def)
  from shard_life.trade [OF this ex_live_trading] show ?thesis by (simp add: MatchingEngine_def)
qed

theorem shard_recovers_repeatedly_witness:
  "\<exists>bss torn r m'. list_all2 (\<lambda>ev bytes. serialize ev = Some bytes) (eng_published ex_live) bss \<and> eng_published ex_live \<noteq> [] \<and> torn \<noteq> [] \<and>
     recoverShard (\<lambda>_. 0) (\<lambda>_. Some \<lparr>ifs_data = header @ concat bss @ torn, ifs_broken = False\<rparr>) 1 (MatchingEngine 8) ex_manager = (Inr True, r, m') \<and>
     isReady r \<and> view (eng_book r) BUY = view (eng_book ex_live) BUY \<and> eng_sequence r = eng_sequence ex_live \<and> getSequenceCounter 1 m' = eng_sequence r"
proof -
  obtain bss where b: "list_all2 (\<lambda>ev bytes. serialize ev = Some bytes) (eng_published ex_live) bss" "eng_published ex_live \<noteq> []"
    by (rule ex_live_journal)
  obtain ev missing where m: "serialize ev = Some missing" "missing \<noteq> []" using some_record by auto
  have "17 \<le> length missing" using serialize_frame [OF m(1)] by simp
  then have t: "serialize ev = Some (take 3 missing @ drop 3 missing)" "drop 3 missing \<noteq> []" "take 3 missing \<noteq> []" using m by auto
  have i: "1 < sm_num ex_manager" "length (sm_counters ex_manager) = unat (sm_num ex_manager)" by (simp_all add: ex_manager_def)
  from shard_recovers_repeatedly [where fs = "\<lambda>_. Some \<lparr>ifs_data = header @ concat bss @ take 3 missing, ifs_broken = False\<rparr>" and clock = "\<lambda>_. 0",
      OF ex_life b(1) t(1,2) refl i] b t(3)
  show ?thesis by (intro exI [of _ bss] exI [of _ "take 3 missing"]) auto
qed

subsection \<open>Synchronising all journals\<close>

definition counted_records :: "jsys \<Rightarrow> nat" where
  "counted_records s = length (js_accepted s) - (if js_prod s = P_Pushed then 1 else 0)"

lemma jstep_counted: "jstep s s' \<Longrightarrow> counted_records s \<le> counted_records s'"
  by (induction rule: jstep.induct) (auto simp: counted_records_def)

lemma jsteps_counted: "jstep\<^sup>*\<^sup>* s s' \<Longrightarrow> counted_records s \<le> counted_records s'"
  by (induction rule: rtranclp_induct) (auto intro: order_trans jstep_counted)

abbreviation on_disk :: "u8 list \<Rightarrow> u8 list list \<Rightarrow> jsys \<Rightarrow> bool" where
  "on_disk base bss s \<equiv> prefix (base @ concat bss) (take (jn_synced (js_journal s)) (jn_file (js_journal s)))"

lemma on_disk_stays:
  assumes "jstep\<^sup>*\<^sup>* s s'" "jinv base s" "on_disk base bss s"
  shows "on_disk base bss s'"
proof -
  obtain zs where z: "jn_file (js_journal s') = jn_file (js_journal s) @ zs" "jn_synced (js_journal s) \<le> jn_synced (js_journal s')"
    using jsteps_mono [OF assms(1,2)] by (auto simp: prefix_def)
  have "jn_synced (js_journal s) \<le> length (jn_file (js_journal s))" using assms(2) by (simp add: jinv_def)
  then have "take (jn_synced (js_journal s)) (jn_file (js_journal s)) = take (jn_synced (js_journal s)) (jn_file (js_journal s'))" by (simp add: z(1))
  also have "prefix \<dots> (take (jn_synced (js_journal s')) (jn_file (js_journal s')))" using z(2) by (metis le_add_diff_inverse prefixI take_add)
  finally have "prefix (take (jn_synced (js_journal s)) (jn_file (js_journal s))) (take (jn_synced (js_journal s')) (jn_file (js_journal s')))" .
  then show ?thesis using assms(3) by (rule prefix_order.trans [rotated])
qed

text \<open>One call: what was counted before is in the synchronised part of the file.\<close>

lemma sync_call_steps: "sync_call s ok s' \<Longrightarrow> jstep\<^sup>*\<^sup>* s s'"
proof (induction rule: sync_call.induct)
  case (at_once s flushed s' sync_ok ok j)
  show ?case by (rule rtranclp.rtrancl_into_rtrancl [OF at_once(2) jstep.sync [OF at_once(3)]])
next
  case (waits s target s1 flushed s' sync_ok ok j)
  show ?case by (rule rtranclp.rtrancl_into_rtrancl [OF rtranclp_trans [OF waits(2,4)] jstep.sync [OF waits(5)]])
qed

lemma sync_call_durable:
  assumes "sync_call s ok s'" ok "jinv base s" "length (js_accepted s') < 2 ^ 64" "n \<le> counted_records s"
  shows "on_disk base (take n (js_accepted s)) s'"
proof -
  have written: "prefix (base @ concat (take n (js_accepted s))) (jn_file (js_journal s2))"
    if "jstep\<^sup>*\<^sup>* s s1" "jstep\<^sup>*\<^sup>* s1 s2" "jn_queued (js_journal s) \<le> jn_written (js_journal s1)" "length (js_accepted s2) < 2 ^ 64" for s1 s2
  proof -
    have I: "jinv base s1" using jsteps_inv [OF that(1) assms(3)] .
    note M1 = jsteps_mono [OF that(1) assms(3)] and M2 = jsteps_mono [OF that(2) I]
    have l: "length (js_accepted s) \<le> length (js_accepted s1)" "length (js_accepted s1) < 2 ^ 64"
      using M1 M2 that(4) by (auto dest!: prefix_length_le)
    have n: "n \<le> length (js_accepted s)" using assms(5) by (simp add: counted_records_def)
    have "jn_queued (js_journal s) = of_nat (counted_records s)" using assms(3) by (simp add: jinv_def counted_records_def)
    moreover have "(of_nat n :: u64) \<le> of_nat (counted_records s)"
      using assms(5) l by (simp add: word_le_nat_alt unat_of_nat counted_records_def)
    ultimately have "(of_nat n :: u64) \<le> jn_written (js_journal s1)" using that(3) by simp
    from written_in_file [OF I l(2) this] have "prefix (base @ concat (take n (js_accepted s1))) (jn_file (js_journal s1))" using n l by simp
    moreover have "take n (js_accepted s1) = take n (js_accepted s)" using M1 n by (auto elim!: prefixE)
    ultimately show ?thesis using M2 by (auto intro: prefix_order.trans)
  qed
  show ?thesis
    using assms(1,2,4)
  proof (induction rule: sync_call.cases)
    case (at_once s0 flushed s2 sync_ok ok' j)
    have "flushed" using sync_end_effect(7) [OF at_once(6)] at_once by simp
    then have "jn_queued (js_journal s) \<le> jn_written (js_journal s)" using at_once by (auto simp: flush_begin_def Let_def split: if_splits)
    then show ?case using written [OF rtranclp.rtrancl_refl, of s2] sync_end_effect(4,7) [OF at_once(6)] at_once by simp
  next
    case (waits s0 target s1 flushed s2 sync_ok ok' j)
    have "flushed" using sync_end_effect(7) [OF waits(8)] waits by simp
    then have "jn_queued (js_journal s) \<le> jn_written (js_journal s1)"
      using waits by (auto simp: flush_begin_def waitUntilWritten_def Let_def split: if_splits)
    then show ?case using written [of s1 s2] sync_end_effect(4,7) [OF waits(8)] waits by simp
  qed
qed


lemma syncAll_length: "syncAll ss oks ss' \<Longrightarrow> length oks = length ss \<and> length ss' = length ss"
  by (induction rule: syncAll.induct) (auto dest: list_all2_lengthD)

lemma sync_all_durable:
  "syncAll ss oks ss' \<Longrightarrow> list_all2 jinv bases ss \<Longrightarrow> \<forall>s \<in> set ss'. length (js_accepted s) < 2 ^ 64 \<Longrightarrow> i < length ss \<Longrightarrow> oks ! i \<Longrightarrow>
   n \<le> counted_records (ss ! i) \<Longrightarrow> on_disk (bases ! i) (take n (js_accepted (ss ! i))) (ss' ! i)"
proof (induction arbitrary: bases i rule: syncAll.induct)
  case (sync s ok s1 ss ss1 oks ss2 s2)
  obtain b bs where b: "bases = b # bs" "jinv b s" "list_all2 jinv bs ss" using sync.prems(1) by (auto simp: list_all2_Cons2)
  show ?case
  proof (cases i)
    case 0
    have I: "jinv b s1" using jsteps_inv [OF sync_call_steps [OF sync(1)] b(2)] .
    have "length (js_accepted s1) < 2 ^ 64"
      using jsteps_mono [OF sync(4) I] sync.prems(2) by (auto dest!: prefix_length_le)
    then have "on_disk b (take n (js_accepted s)) s1" using sync_call_durable [OF sync(1) _ b(2)] sync.prems 0 by simp
    then show ?thesis using on_disk_stays [OF sync(4) I] b(1) 0 by simp
  next
    case (Suc k)
    have run: "jstep\<^sup>*\<^sup>* (ss ! k) (ss1 ! k)" "jinv (bs ! k) (ss ! k)" and k: "k < length ss1"
      using sync(2) b(3) sync.prems(3) Suc by (auto simp: list_all2_conv_all_nth)
    have "list_all2 jinv bs ss1"
      using sync(2) b(3) unfolding list_all2_conv_all_nth by (metis jsteps_inv)
    moreover have m: "n \<le> counted_records (ss1 ! k)" using jsteps_counted [OF run(1)] sync.prems(5) Suc by simp
    ultimately have "on_disk (bs ! k) (take n (js_accepted (ss1 ! k))) (ss2 ! k)" using sync.IH [of bs k] sync.prems k Suc by simp
    moreover have "n \<le> length (js_accepted (ss ! k))" using sync.prems(5) Suc by (simp add: counted_records_def)
    then have "take n (js_accepted (ss1 ! k)) = take n (js_accepted (ss ! k))" using jsteps_mono [OF run] by (auto elim!: prefixE)
    ultimately show ?thesis using b(1) Suc by simp
  qed
qed simp

text \<open>
  C18. \<open>syncAll\<close> makes every shard durable whose \<open>sync\<close> succeeds: for a list of running journals, if the call on journal \<open>i\<close>
  reports success, then when \<open>syncAll\<close> returns the synchronised part of its file begins with the old contents
  followed by every record its engine had enqueued when \<open>syncAll\<close> was called, whatever the other threads did meanwhile.
\<close>

theorem syncAll_durable:
  assumes "list_all2 (\<lambda>j s. (\<exists>v fl cap. Journal v fl cap = Some (Inr j)) \<and> jstep\<^sup>*\<^sup>* (jstart j) s) js ss" "syncAll ss oks ss'"
    "\<forall>s \<in> set ss'. length (js_accepted s) < 2 ^ 64" "i < length ss" "oks ! i" "js_prod (ss ! i) = P_Idle"
  shows "prefix (jn_file (js ! i) @ concat (js_accepted (ss ! i))) (take (jn_synced (js_journal (ss' ! i))) (jn_file (js_journal (ss' ! i))))"
proof -
  have "list_all2 jinv (map jn_file js) ss"
    using assms(1) by (auto simp: list_all2_conv_all_nth dest!: Journal_start(3) intro: jsteps_inv)
  moreover have "length (js_accepted (ss ! i)) \<le> counted_records (ss ! i)" using assms(6) by (simp add: counted_records_def)
  ultimately have "on_disk (map jn_file js ! i) (take (length (js_accepted (ss ! i))) (js_accepted (ss ! i))) (ss' ! i)"
    using sync_all_durable [OF assms(2) _ assms(3,4,5)] by blast
  then show ?thesis using list_all2_lengthD [OF assms(1)] assms(4) by simp
qed

text \<open>A journal with a record in the ring, synchronised together with an idle one.\<close>

lemma ex_sync: "\<exists>s'. sync_call ex_queued True s' \<and> js_accepted s' = js_accepted ex_queued"
proof -
  have I: "jinv (jn_file ex_journal) ex_queued" using jsteps_inv [OF ex_queued_reach] Journal_start(3) [OF ex_journal_new] by blast
  have q: "jn_healthy (js_journal ex_queued)" "js_writer ex_queued \<noteq> W_Exit" "js_prod ex_queued = P_Idle"
    "length (js_accepted ex_queued) = 1" "flush_begin (js_journal ex_queued) = Inr 1"
    by (simp_all add: ex_queued_def ex_pushed_def ex_journal_def jstart_def count_queued_def flush_begin_def Let_def)
  obtain s1 where s1: "writer_step\<^sup>*\<^sup>* ex_queued s1" "jn_healthy (js_journal s1)" "js_writer s1 = W_Wait" "jr_contents (jn_ring (js_journal s1)) = []"
    using writer_drains [OF I q(1,2)] by blast
  note S = writer_steps [OF s1(1)]
  have J: "jinv (jn_file ex_journal) s1" using jsteps_inv S I by blast
  obtain lost torn where a: "accounted (jn_file ex_journal) lost torn s1" using J by (rule jinvD)
  have "js_done s1 = js_accepted s1" using a s1 by (auto simp: accounted_def)
  then have "jn_written (js_journal s1) = 1" "jn_open (js_journal s1)" using J S q(4) s1(3) by (auto simp: jinv_def)
  then have w: "waitUntilWritten 1 (js_journal s1) = Some True" and
    e: "sync_end True True (js_journal s1) = (True, snd (sync_end True True (js_journal s1)))"
    using s1(2) by (auto simp: waitUntilWritten_def sync_end_def doFdatasync_def)
  from sync_call.waits [OF q(5) conjunct1 [OF S] w _ e] S show ?thesis
    by (intro exI [of _ "s1\<lparr>js_journal := snd (sync_end True True (js_journal s1))\<rparr>"]) simp
qed

theorem syncAll_durable_witness:
  "\<exists>s'. syncAll [ex_queued, jstart ex_journal] [True, True] [s', (jstart ex_journal)\<lparr>js_journal := snd (sync_end True True ex_journal)\<rparr>] \<and>
    js_accepted ex_queued \<noteq> [] \<and>
    prefix (jn_file ex_journal @ concat (js_accepted ex_queued)) (take (jn_synced (js_journal s')) (jn_file (js_journal s')))"
proof -
  let ?t = "jstart ex_journal"
  let ?t' = "?t\<lparr>js_journal := snd (sync_end True True ex_journal)\<rparr>"
  obtain s' where s': "sync_call ex_queued True s'" "js_accepted s' = js_accepted ex_queued" using ex_sync by blast
  have "flush_begin (js_journal ?t) = Inl True" "sync_end True True (js_journal ?t) = (True, snd (sync_end True True ex_journal))"
    by (simp_all add: jstart_def ex_journal_def flush_begin_def sync_end_def doFdatasync_def Let_def)
  then have t: "sync_call ?t True ?t'" by (intro sync_call.at_once [where s' = ?t]) auto
  have S: "syncAll [ex_queued, ?t] [True, True] [s', ?t']"
    by (rule syncAll.sync [OF s'(1) _ syncAll.sync [OF t _ syncAll.finished]]) auto
  have a: "length (js_accepted ex_queued) = 1" "js_prod ex_queued = P_Idle" by (simp_all add: ex_queued_def ex_pushed_def jstart_def Let_def)
  have j: "list_all2 (\<lambda>j s. (\<exists>v fl cap. Journal v fl cap = Some (Inr j)) \<and> jstep\<^sup>*\<^sup>* (jstart j) s) [ex_journal, ex_journal] [ex_queued, ?t]"
    using ex_journal_new ex_queued_reach by auto
  have "\<forall>s \<in> set [s', ?t']. length (js_accepted s) < 2 ^ 64" using s'(2) a(1) by (simp add: jstart_def)
  from syncAll_durable [OF j S this, of 0] a S show ?thesis by (intro exI [of _ s']) auto
qed

end
