(* ===== verification/Concurrent_Engine.thy ===== *)
theory Concurrent_Engine
  imports Ring_Buffer Engine_Properties
begin

text \<open>
  The threaded engine of \<open>include/ConcurrentMatchingEngine.h\<close> and \<open>src/ConcurrentMatchingEngine.cpp\<close>: a producer
  that submits orders, the ring between the threads, and the consumer that runs the matching engine.

  The threads interleave at the accesses to the shared atomics. A push is three steps (the check against
  the consumer's index, the write of the slot, the store of the new index), and so is a pop; the slot itself
  is not atomic. The relaxed, acquire and release accesses are sequentially consistent in the model, as
  every slot access is ordered by the store and load of one index. \<open>cs_accepted\<close> and \<open>cs_done\<close> record
  which pushes succeeded and which orders were processed with which clocks; no step reads them.
\<close>

unbundle bit_operations_syntax

datatype backpressure_policy = REJECT | BLOCK | DROP

text \<open>Where the producer is: \<open>S_Push\<close> carries the policy it read, which decides what a full ring means.\<close>

datatype submit_pc = S_Idle | S_Policy order | S_Block order | S_Push backpressure_policy order | S_Write order | S_Store order

datatype consumer_pc = C_None | C_Loop | C_Drain | C_Pop | C_Read | C_Store order | C_Process order | C_Exit

record csys =
  cs_ring :: ring
  cs_engine :: engine
  cs_running :: bool
  cs_processed :: u64
  cs_dropped :: u64
  cs_policy :: backpressure_policy
  cs_submit :: submit_pc
  cs_consumer :: consumer_pc
  cs_accepted :: "order list"
  cs_done :: "(env \<times> order) list"

definition ConcurrentMatchingEngine :: "(nat \<Rightarrow> i64) \<Rightarrow> nat \<Rightarrow> u64 \<Rightarrow> exn + csys" where
  "ConcurrentMatchingEngine now capacity buffer_size =
     (case RingBuffer now buffer_size of
        Inl ex \<Rightarrow> Inl ex
      | Inr r \<Rightarrow> Inr \<lparr>cs_ring = r, cs_engine = MatchingEngine capacity, cs_running = False, cs_processed = 0,
          cs_dropped = 0, cs_policy = REJECT, cs_submit = S_Idle, cs_consumer = C_None, cs_accepted = [], cs_done = []\<rparr>)"

definition setBackpressurePolicy :: "backpressure_policy \<Rightarrow> csys \<Rightarrow> csys" where
  [owner_defs]: "setBackpressurePolicy pol s = s\<lparr>cs_policy := pol\<rparr>"

subsection \<open>The producer\<close>

text \<open>\<open>submitOrder\<close>: the test of \<open>running_\<close>, and the one load of the policy, which selects the branch of the switch.\<close>

definition submitOrder :: "order \<Rightarrow> csys \<Rightarrow> bool option \<times> csys" where
  [producer_defs]: "submitOrder ord s =
     (if \<not> cs_running s then (Some False, s)
      else (None, s\<lparr>cs_submit := S_Policy ord\<rparr>))"

definition submit_policy :: "order \<Rightarrow> csys \<Rightarrow> csys" where
  [producer_defs]: "submit_policy ord s =
     (case cs_policy s of
        REJECT \<Rightarrow> s\<lparr>cs_submit := S_Push REJECT ord\<rparr>
      | BLOCK \<Rightarrow> s\<lparr>cs_submit := S_Block ord\<rparr>
      | DROP \<Rightarrow> s\<lparr>cs_submit := S_Push DROP ord\<rparr>)"

definition submit_block :: "order \<Rightarrow> csys \<Rightarrow> csys" where
  [producer_defs]: "submit_block ord s = s\<lparr>cs_submit := (if cs_running s then S_Push BLOCK ord else S_Idle)\<rparr>"

definition push_check :: "backpressure_policy \<Rightarrow> order \<Rightarrow> csys \<Rightarrow> csys" where
  "push_check pol ord s =
     (let r = cs_ring s in
      if (rb_tail r + 1) AND rb_mask r = rb_head r then
        (case pol of
           REJECT \<Rightarrow> s\<lparr>cs_submit := S_Idle\<rparr>
         | BLOCK \<Rightarrow> s\<lparr>cs_submit := S_Block ord\<rparr>
         | DROP \<Rightarrow> s\<lparr>cs_submit := S_Idle, cs_dropped := cs_dropped s + 1\<rparr>)
      else s\<lparr>cs_submit := S_Write ord\<rparr>)"

definition push_write :: "order \<Rightarrow> csys \<Rightarrow> csys" where
  [producer_defs]: "push_write ord s =
     (let r = cs_ring s in s\<lparr>cs_ring := r\<lparr>rb_buffer := (rb_buffer r)[unat (rb_tail r) := ord]\<rparr>, cs_submit := S_Store ord\<rparr>)"

definition push_store :: "order \<Rightarrow> csys \<Rightarrow> csys" where
  [producer_defs]: "push_store ord s =
     (let r = cs_ring s in s\<lparr>cs_ring := r\<lparr>rb_tail := (rb_tail r + 1) AND rb_mask r\<rparr>, cs_submit := S_Idle,
        cs_accepted := cs_accepted s @ [ord]\<rparr>)"

subsection \<open>The consumer\<close>

text \<open>The condition of the loop, the pop, and the call of the engine.\<close>

definition consumer_loop :: "csys \<Rightarrow> csys" where
  [consumer_defs]: "consumer_loop s = s\<lparr>cs_consumer := (if cs_running s then C_Pop else C_Drain)\<rparr>"

definition consumer_drain :: "csys \<Rightarrow> csys" where
  [consumer_defs]: "consumer_drain s = s\<lparr>cs_consumer := (if \<not> rb_isEmpty (cs_ring s) then C_Pop else C_Exit)\<rparr>"

definition pop_check :: "csys \<Rightarrow> csys" where
  [consumer_defs]: "pop_check s = s\<lparr>cs_consumer := (if rb_head (cs_ring s) = rb_tail (cs_ring s) then C_Loop else C_Read)\<rparr>"

definition pop_read :: "csys \<Rightarrow> csys" where
  [consumer_defs]: "pop_read s = s\<lparr>cs_consumer := C_Store (rb_buffer (cs_ring s) ! unat (rb_head (cs_ring s)))\<rparr>"

definition pop_store :: "order \<Rightarrow> csys \<Rightarrow> csys" where
  [consumer_defs]: "pop_store ord s =
     (let r = cs_ring s in s\<lparr>cs_ring := r\<lparr>rb_head := (rb_head r + 1) AND rb_mask r\<rparr>, cs_consumer := C_Process ord\<rparr>)"

definition consumer_process :: "env \<Rightarrow> order \<Rightarrow> csys \<Rightarrow> csys" where
  [consumer_defs]: "consumer_process v ord s =
     (case processOrder v ord (cs_engine s) of (res, _, e) \<Rightarrow>
        s\<lparr>cs_engine := e, cs_processed := (case res of Inr _ \<Rightarrow> cs_processed s + 1 | Inl _ \<Rightarrow> cs_processed s),
          cs_consumer := C_Loop, cs_done := cs_done s @ [(v, ord)]\<rparr>)"

subsection \<open>Starting and stopping\<close>

definition start :: "csys \<Rightarrow> csys" where
  [owner_defs]: "start s = (if cs_running s then s else s\<lparr>cs_running := True, cs_consumer := C_Loop\<rparr>)"

text \<open>\<open>stop\<close> from another thread than the consumer: the flag, and then the join.\<close>

definition stop_flag :: "csys \<Rightarrow> csys" where
  [owner_defs]: "stop_flag s = s\<lparr>cs_running := False\<rparr>"

definition stop_join :: "csys \<Rightarrow> csys option" where
  [owner_defs]: "stop_join s = (if cs_consumer s = C_Exit then Some (s\<lparr>cs_consumer := C_None\<rparr>) else None)"

text \<open>
  One step of one thread. With \<open>orderly\<close>, \<open>stop\<close> is only called while no \<open>submitOrder\<close> is
  under way. The engine's owner starts it when no consumer thread is left.
\<close>

inductive consumer_step :: "csys \<Rightarrow> csys \<Rightarrow> bool" where
  loop: "cs_consumer s = C_Loop \<Longrightarrow> consumer_step s (consumer_loop s)"
| drain: "cs_consumer s = C_Drain \<Longrightarrow> consumer_step s (consumer_drain s)"
| check: "cs_consumer s = C_Pop \<Longrightarrow> consumer_step s (pop_check s)"
| read: "cs_consumer s = C_Read \<Longrightarrow> consumer_step s (pop_read s)"
| store: "cs_consumer s = C_Store ord \<Longrightarrow> consumer_step s (pop_store ord s)"
| process: "cs_consumer s = C_Process ord \<Longrightarrow> consumer_step s (consumer_process v ord s)"

inductive cstep :: "bool \<Rightarrow> csys \<Rightarrow> csys \<Rightarrow> bool" for orderly where
  submit: "cs_submit s = S_Idle \<Longrightarrow> submitOrder ord s = (res, s') \<Longrightarrow> cstep orderly s s'"
| switch: "cs_submit s = S_Policy ord \<Longrightarrow> cstep orderly s (submit_policy ord s)"
| block: "cs_submit s = S_Block ord \<Longrightarrow> cstep orderly s (submit_block ord s)"
| push: "cs_submit s = S_Push pol ord \<Longrightarrow> cstep orderly s (push_check pol ord s)"
| slot: "cs_submit s = S_Write ord \<Longrightarrow> cstep orderly s (push_write ord s)"
| tail: "cs_submit s = S_Store ord \<Longrightarrow> cstep orderly s (push_store ord s)"
| consume: "consumer_step s s' \<Longrightarrow> cstep orderly s s'"
| policy: "cstep orderly s (setBackpressurePolicy pol s)"
| start: "cs_consumer s = C_None \<Longrightarrow> cstep orderly s (start s)"
| stop: "cs_running s \<Longrightarrow> (orderly \<longrightarrow> cs_submit s = S_Idle) \<Longrightarrow> cstep orderly s (stop_flag s)"
| join: "stop_join s = Some s' \<Longrightarrow> cstep orderly s s'"

section \<open>Lemmas\<close>

subsection \<open>The ring between two threads\<close>

lemma rb_count_less: "rb_wf r \<Longrightarrow> rb_count r < length (rb_buffer r)"
  by (rule rb_wf_pow2) (auto simp: rb_count_def)

text \<open>The slot at the producer's index is outside the contents: writing it is invisible to the consumer.\<close>

lemma rb_write:
  assumes "rb_wf r"
  shows "rb_wf (r\<lparr>rb_buffer := (rb_buffer r)[unat (rb_tail r) := x]\<rparr>)"
    and "rb_contents (r\<lparr>rb_buffer := (rb_buffer r)[unat (rb_tail r) := x]\<rparr>) = rb_contents r"
proof -
  show "rb_wf (r\<lparr>rb_buffer := (rb_buffer r)[unat (rb_tail r) := x]\<rparr>)" using assms by (simp add: rb_wf_def)
  have c: "rb_count r < length (rb_buffer r)" using rb_count_less [OF assms] .
  have t: "(unat (rb_head r) + rb_count r) mod length (rb_buffer r) = unat (rb_tail r)"
    by (rule rb_wf_pow2 [OF assms]) (use rb_arith(2) [of "unat (rb_head r)" "unat (rb_capacity r)" "unat (rb_tail r)"] in \<open>simp add: rb_count_def\<close>)
  have "ring_list ((rb_buffer r)[unat (rb_tail r) := x]) (unat (rb_head r)) (rb_count r) = ring_list (rb_buffer r) (unat (rb_head r)) (rb_count r)"
    unfolding ring_list_def
  proof (rule map_cong [OF refl])
    fix i assume "i \<in> set [0..<rb_count r]"
    then have "(unat (rb_head r) + i) mod length (rb_buffer r) \<noteq> (unat (rb_head r) + rb_count r) mod length (rb_buffer r)"
      using c by (intro ring_slot_inj) auto
    then show "(rb_buffer r)[unat (rb_tail r) := x] ! ((unat (rb_head r) + i) mod length ((rb_buffer r)[unat (rb_tail r) := x])) =
        rb_buffer r ! ((unat (rb_head r) + i) mod length (rb_buffer r))"
      using t by simp
  qed
  then show "rb_contents (r\<lparr>rb_buffer := (rb_buffer r)[unat (rb_tail r) := x]\<rparr>) = rb_contents r"
    by (simp add: rb_contents_def rb_count_def)
qed

lemma length_rb_contents: "length (rb_contents r) = rb_count r"
  by (simp add: rb_contents_def)

lemma rb_store_tail:
  assumes "rb_wf r" "rb_count r < rb_room r" "rb_buffer r ! unat (rb_tail r) = x"
  shows "rb_wf (r\<lparr>rb_tail := (rb_tail r + 1) AND rb_mask r\<rparr>)"
    and "rb_contents (r\<lparr>rb_tail := (rb_tail r + 1) AND rb_mask r\<rparr>) = rb_contents r @ [x]"
proof -
  obtain r' where r': "rb_push x r = (True, r')" "rb_wf r'" "rb_contents r' = rb_contents r @ [x]"
    using rb_push_ok [OF assms(1,2)] by blast
  have "(rb_buffer r)[unat (rb_tail r) := x] = rb_buffer r" using assms(3) by (metis list_update_id)
  then have "r' = r\<lparr>rb_tail := (rb_tail r + 1) AND rb_mask r\<rparr>"
    using r'(1) by (auto simp: rb_push_def Let_def split: if_splits)
  then show "rb_wf (r\<lparr>rb_tail := (rb_tail r + 1) AND rb_mask r\<rparr>)"
    "rb_contents (r\<lparr>rb_tail := (rb_tail r + 1) AND rb_mask r\<rparr>) = rb_contents r @ [x]"
    using r'(2,3) by simp_all
qed

lemma rb_store_head:
  assumes "rb_wf r" "rb_contents r = x # xs"
  shows "rb_wf (r\<lparr>rb_head := (rb_head r + 1) AND rb_mask r\<rparr>)" and "rb_contents (r\<lparr>rb_head := (rb_head r + 1) AND rb_mask r\<rparr>) = xs"
    and "rb_buffer r ! unat (rb_head r) = x"
proof -
  obtain r' where r': "rb_pop r = (Some x, r')" "rb_wf r'" "rb_contents r' = xs" using rb_pop_ok [OF assms] by blast
  then have "r' = r\<lparr>rb_head := (rb_head r + 1) AND rb_mask r\<rparr>" "rb_buffer r ! unat (rb_head r) = x"
    by (auto simp: rb_pop_def Let_def split: if_splits)
  then show "rb_wf (r\<lparr>rb_head := (rb_head r + 1) AND rb_mask r\<rparr>)" "rb_contents (r\<lparr>rb_head := (rb_head r + 1) AND rb_mask r\<rparr>) = xs"
    "rb_buffer r ! unat (rb_head r) = x"
    using r'(2,3) by simp_all
qed

lemma rb_nonempty: "rb_wf r \<Longrightarrow> rb_head r \<noteq> rb_tail r \<longleftrightarrow> rb_contents r \<noteq> []"
  using rb_empty_iff [of r] length_rb_contents [of r] by (metis length_0_conv)

subsection \<open>The invariant\<close>

text \<open>The sequential engine given the orders one after the other, and how many calls returned.\<close>

primrec engine_run :: "(env \<times> order) list \<Rightarrow> engine \<Rightarrow> engine \<times> nat" where
  "engine_run [] e = (e, 0)"
| "engine_run (c # cs) e =
     (case processOrder (fst c) (snd c) e of (res, _, e1) \<Rightarrow>
        case engine_run cs e1 of (e2, n) \<Rightarrow> (e2, (if isl res then n else Suc n)))"

lemma engine_run_snoc:
  "engine_run (cs @ [(v, ord)]) e =
    (case engine_run cs e of (e1, n) \<Rightarrow> case processOrder v ord e1 of (res, _, e2) \<Rightarrow> (e2, if isl res then n else Suc n))"
  by (induction cs arbitrary: e) (simp_all add: case_prod_beta)

primrec in_hand :: "consumer_pc \<Rightarrow> order list" where
  "in_hand C_None = []" | "in_hand C_Loop = []" | "in_hand C_Drain = []" | "in_hand C_Pop = []"
| "in_hand C_Read = []" | "in_hand (C_Store ord) = []" | "in_hand (C_Process ord) = [ord]" | "in_hand C_Exit = []"

definition ring_ok :: "csys \<Rightarrow> bool" where
  "ring_ok s \<longleftrightarrow> rb_wf (cs_ring s) \<and>
     (\<forall>x. cs_submit s = S_Write x \<or> cs_submit s = S_Store x \<longrightarrow> rb_count (cs_ring s) < rb_room (cs_ring s)) \<and>
     (\<forall>x. cs_submit s = S_Store x \<longrightarrow> rb_buffer (cs_ring s) ! unat (rb_tail (cs_ring s)) = x) \<and>
     (cs_consumer s = C_Read \<longrightarrow> rb_contents (cs_ring s) \<noteq> []) \<and>
     (\<forall>x. cs_consumer s = C_Store x \<longrightarrow> (\<exists>xs. rb_contents (cs_ring s) = x # xs))"

definition cinv :: "engine \<Rightarrow> csys \<Rightarrow> bool" where
  "cinv e0 s \<longleftrightarrow> ring_ok s \<and> cs_accepted s = map snd (cs_done s) @ in_hand (cs_consumer s) @ rb_contents (cs_ring s) \<and>
     cs_engine s = fst (engine_run (cs_done s) e0) \<and> cs_processed s = of_nat (snd (engine_run (cs_done s) e0))"

lemma rb_room_simps [simp]:
  "rb_room (r\<lparr>rb_buffer := xs\<rparr>) = rb_room r" "rb_room (r\<lparr>rb_tail := t\<rparr>) = rb_room r" "rb_room (r\<lparr>rb_head := h\<rparr>) = rb_room r"
  by (simp_all add: rb_room_def)

lemma push_check_inv: "cinv e0 s \<Longrightarrow> cs_submit s = S_Push pol x \<Longrightarrow> cinv e0 (push_check pol x s)"
proof -
  assume I: "cinv e0 s" and p: "cs_submit s = S_Push pol x"
  let ?r = "cs_ring s"
  have wf: "rb_wf ?r" using I by (simp add: cinv_def ring_ok_def)
  show ?thesis
  proof (cases "(rb_tail ?r + 1) AND rb_mask ?r = rb_head ?r")
    case True
    then show ?thesis using I p by (cases pol) (simp_all add: cinv_def ring_ok_def push_check_def Let_def)
  next
    case False
    then have "rb_count ?r < rb_room ?r"
      using rb_full_iff [OF wf] rbq.bounded [OF wf] by (simp add: length_rb_contents)
    then show ?thesis using False I p by (simp add: cinv_def ring_ok_def push_check_def Let_def)
  qed
qed

lemma push_write_inv: "cinv e0 s \<Longrightarrow> cs_submit s = S_Write x \<Longrightarrow> cinv e0 (push_write x s)"
proof -
  assume I: "cinv e0 s" and p: "cs_submit s = S_Write x"
  have wf: "rb_wf (cs_ring s)" "rb_count (cs_ring s) < rb_room (cs_ring s)" using I p by (simp_all add: cinv_def ring_ok_def)
  note W = rb_write [OF wf(1), of x]
  have t: "unat (rb_tail (cs_ring s)) < length (rb_buffer (cs_ring s))" by (rule rb_wf_pow2 [OF wf(1)]) simp
  have c: "rb_count ((cs_ring s)\<lparr>rb_buffer := (rb_buffer (cs_ring s))[unat (rb_tail (cs_ring s)) := x]\<rparr>) = rb_count (cs_ring s)"
    by (simp add: rb_count_def)
  show ?thesis using I p wf(2) W t c by (auto simp: cinv_def ring_ok_def push_write_def Let_def)
qed

lemma push_store_inv: "cinv e0 s \<Longrightarrow> cs_submit s = S_Store x \<Longrightarrow> cinv e0 (push_store x s)"
proof -
  assume I: "cinv e0 s" and p: "cs_submit s = S_Store x"
  have "rb_wf (cs_ring s)" "rb_count (cs_ring s) < rb_room (cs_ring s)" "rb_buffer (cs_ring s) ! unat (rb_tail (cs_ring s)) = x"
    using I p by (simp_all add: cinv_def ring_ok_def)
  note T = rb_store_tail [OF this]
  show ?thesis using I p T by (auto simp: cinv_def ring_ok_def push_store_def Let_def)
qed

lemma pop_store_inv: "cinv e0 s \<Longrightarrow> cs_consumer s = C_Store x \<Longrightarrow> cinv e0 (pop_store x s)"
proof -
  assume I: "cinv e0 s" and p: "cs_consumer s = C_Store x"
  obtain xs where c: "rb_wf (cs_ring s)" "rb_contents (cs_ring s) = x # xs" using I p by (auto simp: cinv_def ring_ok_def)
  note H = rb_store_head [OF c]
  have "rb_count ((cs_ring s)\<lparr>rb_head := (rb_head (cs_ring s) + 1) AND rb_mask (cs_ring s)\<rparr>) \<le> rb_count (cs_ring s)"
    using arg_cong [OF H(2), of length] arg_cong [OF c(2), of length] by (simp add: length_rb_contents)
  then show ?thesis using I p H c by (auto simp: cinv_def ring_ok_def pop_store_def Let_def)
qed

lemma pop_read_inv: "cinv e0 s \<Longrightarrow> cs_consumer s = C_Read \<Longrightarrow> cinv e0 (pop_read s)"
proof -
  assume I: "cinv e0 s" and p: "cs_consumer s = C_Read"
  obtain x xs where c: "rb_wf (cs_ring s)" "rb_contents (cs_ring s) = x # xs"
    using I p by (auto simp: cinv_def ring_ok_def neq_Nil_conv)
  show ?thesis using I p c rb_store_head(3) [OF c] by (auto simp: cinv_def ring_ok_def pop_read_def)
qed

lemma consumer_process_inv: "cinv e0 s \<Longrightarrow> cs_consumer s = C_Process x \<Longrightarrow> cinv e0 (consumer_process v x s)"
  by (auto simp: cinv_def ring_ok_def consumer_process_def engine_run_snoc split: prod.splits sum.splits)

lemma consumer_step_inv: "consumer_step s s' \<Longrightarrow> cinv e0 s \<Longrightarrow> cinv e0 s'"
proof (induction rule: consumer_step.induct)
  case (check s)
  then show ?case using rb_nonempty [of "cs_ring s"] by (auto simp: cinv_def ring_ok_def pop_check_def)
qed (simp_all add: pop_read_inv pop_store_inv consumer_process_inv,
    auto simp: cinv_def ring_ok_def consumer_defs)

lemma cstep_inv: "cstep d s s' \<Longrightarrow> cinv e0 s \<Longrightarrow> cinv e0 s'"
proof (induction rule: cstep.induct)
  case (submit s ord res s')
  then show ?case by (auto simp: cinv_def ring_ok_def submitOrder_def split: if_splits)
next
  case (join s s')
  then show ?case by (auto simp: cinv_def ring_ok_def stop_join_def split: if_splits)
qed (simp_all add: push_check_inv push_write_inv push_store_inv consumer_step_inv,
    auto simp: cinv_def ring_ok_def submit_block_def submit_policy_def owner_defs split: backpressure_policy.splits)

lemma cinv_start:
  assumes "ConcurrentMatchingEngine now capacity sz = Inr s0"
  shows "cinv (MatchingEngine capacity) s0" "cs_submit s0 = S_Idle" "cs_consumer s0 = C_None" "\<not> cs_running s0" "rb_contents (cs_ring s0) = []"
  using assms RingBuffer_wf [of now sz] by (auto simp: ConcurrentMatchingEngine_def cinv_def ring_ok_def split: sum.splits)

lemma reachable_cinv:
  assumes "ConcurrentMatchingEngine now capacity sz = Inr s0" "(cstep d)\<^sup>*\<^sup>* s0 s"
  shows "cinv (MatchingEngine capacity) s"
  using rtranclp_invariant [OF assms(2), of "cinv (MatchingEngine capacity)"] cinv_start(1) [OF assms(1)] cstep_inv by blast

subsection \<open>Refinement of the sequential engine\<close>

text \<open>
  C4. The threads together are the sequential engine: however producer, consumer, start and stop interleave, the state of
  the matching engine is the one a single thread reaches by processing, in order, a prefix of the orders whose
  submission succeeded; no order is lost, duplicated, reordered or read half-written, and what is accepted and not yet
  processed is in the consumer's hands or in the ring. The counter counts the calls that returned.
\<close>

theorem concurrent_refines_sequential:
  assumes "ConcurrentMatchingEngine now capacity sz = Inr s0" "(cstep orderly)\<^sup>*\<^sup>* s0 s"
  shows "cs_engine s = fst (engine_run (cs_done s) (MatchingEngine capacity)) \<and>
    cs_processed s = of_nat (snd (engine_run (cs_done s) (MatchingEngine capacity))) \<and>
    cs_accepted s = map snd (cs_done s) @ in_hand (cs_consumer s) @ rb_contents (cs_ring s)"
  using reachable_cinv [OF assms] by (simp add: cinv_def)

subsection \<open>Stopping\<close>

text \<open>When stopping is orderly, a stopped engine has no submission under way, and a consumer that has left has left nothing behind.\<close>

definition orderly_inv :: "csys \<Rightarrow> bool" where
  "orderly_inv s \<longleftrightarrow> (\<not> cs_running s \<longrightarrow> cs_submit s = S_Idle) \<and>
     (cs_consumer s \<in> {C_None, C_Drain, C_Exit} \<longrightarrow> \<not> cs_running s) \<and>
     (cs_consumer s \<in> {C_None, C_Exit} \<longrightarrow> rb_contents (cs_ring s) = [])"

lemma consumer_orderly:
  assumes "consumer_step s s'" "orderly_inv s" "cinv e0 s"
  shows "orderly_inv s'"
  using assms
proof (induction rule: consumer_step.induct)
  case (drain s)
  then show ?case
    using rb_nonempty [of "cs_ring s"] by (auto simp: orderly_inv_def consumer_drain_def rb_isEmpty_def cinv_def ring_ok_def)
qed (auto simp: orderly_inv_def consumer_defs Let_def
    split: prod.splits)

lemma cstep_orderly:
  assumes "cstep True s s'" "orderly_inv s" "cinv e0 s"
  shows "orderly_inv s'"
  using assms
proof (induction rule: cstep.induct)
  case (consume s s')
  then show ?case using consumer_orderly by blast
next
  case (push s pol ord)
  then show ?case by (cases pol) (auto simp: orderly_inv_def push_check_def Let_def)
next
  case (submit s ord res s')
  then show ?case by (auto simp: orderly_inv_def submitOrder_def split: if_splits)
next
  case (join s s')
  then show ?case by (auto simp: orderly_inv_def stop_join_def split: if_splits)
next
  case (tail s ord)
  then have "cs_running s" by (auto simp: orderly_inv_def)
  then show ?case using tail by (auto simp: orderly_inv_def push_store_def Let_def)
next
  case (slot s ord)
  then have "cs_running s" by (auto simp: orderly_inv_def)
  then show ?case using slot by (auto simp: orderly_inv_def push_write_def Let_def)
qed (auto simp: orderly_inv_def submit_block_def submit_policy_def owner_defs split: backpressure_policy.splits)

lemma reachable_orderly:
  assumes "ConcurrentMatchingEngine now capacity sz = Inr s0" "(cstep True)\<^sup>*\<^sup>* s0 s"
  shows "orderly_inv s"
  using assms(2)
proof (induction rule: rtranclp_induct)
  case base
  then show ?case using cinv_start [OF assms(1)] by (simp add: orderly_inv_def)
next
  case (step s s')
  then show ?case using cstep_orderly reachable_cinv [OF assms(1)] by blast
qed

text \<open>What the consumer still has to do once the engine is stopped.\<close>

definition work_left :: "csys \<Rightarrow> nat" where
  "work_left s = (let c = length (rb_contents (cs_ring s)) in
     7 * c + (case cs_consumer s of C_Process _ \<Rightarrow> 6 | C_Loop \<Rightarrow> if c = 0 then 2 else 5 | C_Drain \<Rightarrow> if c = 0 then 1 else 4
       | C_Pop \<Rightarrow> 3 | C_Read \<Rightarrow> 2 | C_Store _ \<Rightarrow> 1 | _ \<Rightarrow> 0))"

lemma consumer_enabled: "cs_consumer s \<noteq> C_None \<Longrightarrow> cs_consumer s \<noteq> C_Exit \<Longrightarrow> \<exists>s'. consumer_step s s'"
  by (cases "cs_consumer s") (blast intro: consumer_step.intros)+

lemma consumer_decreases:
  assumes "consumer_step s s'" "cinv e0 s" "\<not> cs_running s"
  shows "work_left s' < work_left s \<and> \<not> cs_running s' \<and> cs_consumer s' \<noteq> C_None \<and> cs_accepted s' = cs_accepted s"
  using assms
proof (induction rule: consumer_step.induct)
  case (store s x)
  then obtain xs where c: "rb_wf (cs_ring s)" "rb_contents (cs_ring s) = x # xs" by (auto simp: cinv_def ring_ok_def)
  show ?case using store rb_store_head(2) [OF c] c(2) by (simp add: pop_store_def work_left_def Let_def)
next
  case (drain s)
  then show ?case using rb_nonempty [of "cs_ring s"] by (auto simp: consumer_drain_def rb_isEmpty_def work_left_def cinv_def ring_ok_def Let_def)
next
  case (check s)
  then show ?case using rb_nonempty [of "cs_ring s"] by (auto simp: pop_check_def work_left_def cinv_def ring_ok_def Let_def)
qed (auto simp: consumer_loop_def pop_read_def consumer_process_def work_left_def Let_def split: prod.splits)

interpretation cc: terminating consumer_step
  "\<lambda>s. (cinv e0 s \<and> orderly_inv s) \<and> \<not> cs_running s \<and> cs_consumer s \<noteq> C_None \<and> cs_accepted s = acc" "\<lambda>s. cs_consumer s = C_Exit" work_left for e0 acc
  by unfold_locales (use consumer_decreases consumer_enabled consumer_step_inv consumer_orderly in metis)+

text \<open>
  C30. Stopping loses nothing: when \<open>stop\<close> is called while no submission is under way, every run of the consumer takes at most
  \<open>7 * n + 6\<close> steps for \<open>n\<close> orders in the ring and is never stuck before it has left, so the join returns; and when
  the consumer has left, every order ever accepted has been processed, in the order of acceptance.
\<close>

theorem stop_drains:
  assumes "ConcurrentMatchingEngine now capacity sz = Inr s0" "(cstep True)\<^sup>*\<^sup>* s0 s" "\<not> cs_running s" "cs_consumer s \<noteq> C_None"
  shows "(\<forall>n s'. (consumer_step ^^ n) s s' \<longrightarrow> n \<le> 7 * length (rb_contents (cs_ring s)) + 6) \<and>
    (\<forall>s'. consumer_step\<^sup>*\<^sup>* s s' \<longrightarrow> cs_consumer s' = C_Exit \<and> map snd (cs_done s') = cs_accepted s \<or> (\<exists>s''. consumer_step s' s'')) \<and>
    (\<exists>s'. consumer_step\<^sup>*\<^sup>* s s' \<and> cs_consumer s' = C_Exit \<and> map snd (cs_done s') = cs_accepted s)"
proof -
  let ?I = "\<lambda>s'. (cinv (MatchingEngine capacity) s' \<and> orderly_inv s') \<and> \<not> cs_running s' \<and> cs_consumer s' \<noteq> C_None \<and> cs_accepted s' = cs_accepted s"
  have I: "?I s" using reachable_cinv [OF assms(1,2)] reachable_orderly [OF assms(1,2)] assms(3,4) by simp
  have all: "map snd (cs_done s') = cs_accepted s" if "?I s'" "cs_consumer s' = C_Exit" for s'
    using that by (auto simp: cinv_def orderly_inv_def)
  have "work_left s \<le> 7 * length (rb_contents (cs_ring s)) + 6" by (cases "cs_consumer s") (simp_all add: work_left_def Let_def)
  then have "n \<le> 7 * length (rb_contents (cs_ring s)) + 6" if "(consumer_step ^^ n) s s'" for n s'
    using cc.bounded_run [OF I that] by linarith
  moreover have "cs_consumer s' = C_Exit \<and> map snd (cs_done s') = cs_accepted s \<or> (\<exists>s''. consumer_step s' s'')" if "consumer_step\<^sup>*\<^sup>* s s'" for s'
    using cc.never_stuck [OF I that] all by blast
  moreover have "\<exists>s'. consumer_step\<^sup>*\<^sup>* s s' \<and> cs_consumer s' = C_Exit \<and> map snd (cs_done s') = cs_accepted s"
    using cc.finishes [OF I] all by blast
  ultimately show ?thesis by blast
qed

subsection \<open>Concrete runs\<close>

definition ex_conc :: csys where
  "ex_conc = (case ConcurrentMatchingEngine (\<lambda>_. 0) 8 2 of Inr s \<Rightarrow> s | Inl _ \<Rightarrow> undefined)"

lemma ex_conc_eq: "ConcurrentMatchingEngine (\<lambda>_. 0) 8 2 = Inr ex_conc"
proof -
  have "\<exists>s. ConcurrentMatchingEngine (\<lambda>_. 0) 8 2 = Inr s" by (simp add: ConcurrentMatchingEngine_def RingBuffer_def)
  then show ?thesis by (auto simp: ex_conc_def)
qed

lemma ex_conc_simps [simp]:
  "cs_submit ex_conc = S_Idle" "cs_consumer ex_conc = C_None" "\<not> cs_running ex_conc" "cs_accepted ex_conc = []" "cs_done ex_conc = []"
  "rb_head (cs_ring ex_conc) = 0" "rb_tail (cs_ring ex_conc) = 0" "rb_mask (cs_ring ex_conc) = 1" "cs_policy ex_conc = REJECT"
  by (simp_all add: ex_conc_def ConcurrentMatchingEngine_def RingBuffer_def)

definition ex_submit :: order where
  "ex_submit = ex_order 7 3 BUY LIMIT (Fin 100) 12"

text \<open>An order submitted to the running engine, and the engine stopped afterwards.\<close>

definition ex_pushed :: csys where
  "ex_pushed = push_store ex_submit (push_write ex_submit (push_check REJECT ex_submit (submit_policy ex_submit (snd (submitOrder ex_submit (start ex_conc))))))"

lemma ex_pushed_simps:
  "cs_running ex_pushed" "cs_submit ex_pushed = S_Idle" "cs_consumer ex_pushed = C_Loop" "cs_accepted ex_pushed = [ex_submit]"
  by (simp_all add: ex_pushed_def push_store_def push_write_def push_check_def submit_policy_def submitOrder_def start_def Let_def)

lemma ex_pushed_reached: "(cstep d)\<^sup>*\<^sup>* ex_conc ex_pushed"
proof -
  let ?s1 = "start ex_conc" and ?o = ex_submit
  let ?s1' = "snd (submitOrder ?o ?s1)"
  let ?s2 = "submit_policy ?o ?s1'"
  let ?s3 = "push_check REJECT ?o ?s2"
  let ?s4 = "push_write ?o ?s3"
  have "cstep d ex_conc ?s1" by (rule cstep.start) simp
  moreover have "cstep d ?s1 ?s1'" by (rule cstep.submit [of _ ?o "fst (submitOrder ?o ?s1)"]) (simp_all add: start_def)
  moreover have "cstep d ?s1' ?s2" by (rule cstep.switch) (simp add: submitOrder_def start_def)
  moreover have 2: "cs_submit ?s2 = S_Push REJECT ?o" by (simp add: submit_policy_def submitOrder_def start_def)
  then have "cstep d ?s2 ?s3" by (rule cstep.push)
  moreover have 3: "cs_submit ?s3 = S_Write ?o" by (simp add: push_check_def submit_policy_def submitOrder_def start_def)
  then have "cstep d ?s3 ?s4" by (rule cstep.slot)
  moreover have "cstep d ?s4 ex_pushed" unfolding ex_pushed_def by (rule cstep.tail) (simp add: push_write_def Let_def)
  ultimately show ?thesis by (meson converse_rtranclp_into_rtranclp rtranclp.rtrancl_refl)
qed

theorem concurrent_refines_sequential_witness:
  "cs_accepted ex_pushed = [ex_submit] \<and>
   cs_accepted ex_pushed = map snd (cs_done ex_pushed) @ in_hand (cs_consumer ex_pushed) @ rb_contents (cs_ring ex_pushed)"
  using concurrent_refines_sequential [OF ex_conc_eq ex_pushed_reached [of True]] ex_pushed_simps by simp

theorem stop_drains_witness:
  "\<exists>s'. consumer_step\<^sup>*\<^sup>* (stop_flag ex_pushed) s' \<and> cs_consumer s' = C_Exit \<and> map snd (cs_done s') = [ex_submit]"
proof -
  have "cstep True ex_pushed (stop_flag ex_pushed)" by (rule cstep.stop) (simp_all add: ex_pushed_simps)
  then have "(cstep True)\<^sup>*\<^sup>* ex_conc (stop_flag ex_pushed)" using ex_pushed_reached by (meson rtranclp.rtrancl_into_rtrancl)
  moreover have "\<not> cs_running (stop_flag ex_pushed)" "cs_consumer (stop_flag ex_pushed) \<noteq> C_None" "cs_accepted (stop_flag ex_pushed) = [ex_submit]"
    by (simp_all add: stop_flag_def ex_pushed_simps)
  ultimately show ?thesis using stop_drains [OF ex_conc_eq] by metis
qed

text \<open>What a stopped engine whose consumer is gone does while it is not started again: the ring keeps what it has, and nothing is processed.\<close>

definition left_behind :: "order list \<Rightarrow> (env \<times> order) list \<Rightarrow> csys \<Rightarrow> bool" where
  "left_behind ords done s \<longleftrightarrow> \<not> cs_running s \<and> cs_consumer s = C_None \<and> cs_submit s = S_Idle \<and> cs_accepted s = ords \<and>
     cs_done s = done"

definition not_restarted :: "csys \<Rightarrow> csys \<Rightarrow> bool" where
  "not_restarted s s' \<longleftrightarrow> cstep False s s' \<and> \<not> cs_running s'"

lemma left_behind_stays: "not_restarted s s' \<Longrightarrow> left_behind ords done s \<Longrightarrow> left_behind ords done s'"
proof -
  assume n: "not_restarted s s'" and l: "left_behind ords done s"
  have "cstep False s s'" "\<not> cs_running s'" using n by (simp_all add: not_restarted_def)
  then show ?thesis using l
  proof (induction rule: cstep.induct)
    case (consume s s')
    then show ?case by (cases rule: consumer_step.cases) (simp_all add: left_behind_def)
  qed (auto simp: left_behind_def submitOrder_def owner_defs split: if_splits)
qed

text \<open>
  C40. A submission that overlaps \<open>stop\<close> can be left behind: the producer sees the engine running, the engine is stopped
  and its consumer joined, and then the push succeeds. \<open>submitOrder\<close> answers true, but no thread is left to process
  the order: whatever happens from then on, it stays in the ring and is not processed unless the engine is started again.
\<close>

theorem submit_stop_race:
  "\<exists>s. (cstep False)\<^sup>*\<^sup>* ex_conc s \<and> \<not> cs_running s \<and> cs_consumer s = C_None \<and> cs_submit s = S_Idle \<and>
     cs_accepted s = [ex_submit] \<and> cs_done s = [] \<and>
     (\<forall>s'. not_restarted\<^sup>*\<^sup>* s s' \<longrightarrow> cs_done s' = [] \<and> rb_contents (cs_ring s') = [ex_submit])"
proof -
  let ?o = ex_submit and ?s1 = "start ex_conc"
  let ?s2 = "submit_policy ?o (snd (submitOrder ?o ?s1))"
  let ?s3 = "stop_flag ?s2"
  let ?s4 = "consumer_loop ?s3"
  let ?s5 = "consumer_drain ?s4"
  let ?s6 = "?s5\<lparr>cs_consumer := C_None\<rparr>"
  let ?s7 = "push_check REJECT ?o ?s6"
  let ?s8 = "push_write ?o ?s7"
  let ?s9 = "push_store ?o ?s8"
  note D = producer_defs owner_defs consumer_loop_def consumer_drain_def rb_isEmpty_def push_check_def Let_def
  have "cstep False ex_conc ?s1" by (rule cstep.start) simp
  moreover have "cstep False ?s1 (snd (submitOrder ?o ?s1))" by (rule cstep.submit [of _ ?o "fst (submitOrder ?o ?s1)"]) (simp_all add: start_def)
  moreover have "cstep False (snd (submitOrder ?o ?s1)) ?s2" by (rule cstep.switch) (simp add: D)
  moreover have "cstep False ?s2 ?s3" by (rule cstep.stop) (simp_all add: D)
  moreover have "cstep False ?s3 ?s4" by (rule cstep.consume, rule consumer_step.loop) (simp add: D)
  moreover have "cstep False ?s4 ?s5" by (rule cstep.consume, rule consumer_step.drain) (simp add: D)
  moreover have "cstep False ?s5 ?s6" by (rule cstep.join) (simp add: stop_join_def D)
  moreover have "cstep False ?s6 ?s7" by (rule cstep.push) (simp add: D)
  moreover have "cstep False ?s7 ?s8" by (rule cstep.slot) (simp add: D)
  moreover have "cstep False ?s8 ?s9" by (rule cstep.tail) (simp add: D)
  ultimately have R: "(cstep False)\<^sup>*\<^sup>* ex_conc ?s9" by (meson converse_rtranclp_into_rtranclp rtranclp.rtrancl_refl)
  have L: "left_behind [ex_submit] [] ?s9" by (simp add: left_behind_def D)
  have "cs_done s' = [] \<and> rb_contents (cs_ring s') = [ex_submit]" if n: "not_restarted\<^sup>*\<^sup>* ?s9 s'" for s'
  proof -
    have l: "left_behind [ex_submit] [] s'" using n L by (induction) (simp_all add: left_behind_stays)
    have "(cstep False)\<^sup>*\<^sup>* ?s9 s'" using n by (rule rtranclp_mono [THEN predicate2D, rotated]) (auto simp: not_restarted_def)
    then have "cinv (MatchingEngine 8) s'" using reachable_cinv [OF ex_conc_eq] R by (metis rtranclp_trans)
    then show ?thesis using l by (auto simp: cinv_def left_behind_def)
  qed
  then show ?thesis using R L by (intro exI [of _ ?s9]) (simp add: left_behind_def)
qed

theorem submit_stop_race_witness:
  "\<exists>s. (cstep False)\<^sup>*\<^sup>* ex_conc s \<and> \<not> cs_running s \<and> cs_accepted s = [ex_submit] \<and> cs_done s = [] \<and> rb_contents (cs_ring s) = [ex_submit]"
  using submit_stop_race by blast

end
