(* ===== verification/Sharded_Engine.thy ===== *)
theory Sharded_Engine
  imports Concurrent_Engine
begin

text \<open>
  Symbols and shards (\<open>include/SymbolId.h\<close>, \<open>include/ShardedEngine.h\<close>, \<open>src/ShardedEngine.cpp\<close>): the table that numbers
  the symbols and assigns them to shards, and the engine that routes every order to the shard of its
  symbol. \<open>size_t\<close> has 64 bits, a symbol identifier 32. The hash map is a map.
\<close>

record symtab =
  st_num_shards :: u64
  st_frozen :: bool
  st_symbols :: "string list"
  st_ids :: "string \<rightharpoonup> u32"
  st_assignment :: "u64 list"

definition SymbolTable :: "u64 \<Rightarrow> exn + symtab" where
  "SymbolTable num_shards =
     (if num_shards = 0 then Inl (Invalid_argument ''num_shards must be > 0'')
      else Inr \<lparr>st_num_shards = num_shards, st_frozen = False, st_symbols = [], st_ids = Map.empty, st_assignment = []\<rparr>)"

definition registerSymbol :: "string \<Rightarrow> symtab \<Rightarrow> (exn + u32) \<times> symtab" where
  "registerSymbol symbol t =
     (if st_frozen t then
        (case st_ids t symbol of
           Some i \<Rightarrow> (Inr i, t)
         | None \<Rightarrow> (Inl (Runtime_error ''SymbolTable frozen: cannot register new symbol''), t))
      else
        (case st_ids t symbol of
           Some i \<Rightarrow> (Inr i, t)
         | None \<Rightarrow>
             let i = of_nat (length (st_symbols t)) :: u32
             in (Inr i, t\<lparr>st_ids := (st_ids t)(symbol \<mapsto> i), st_symbols := st_symbols t @ [symbol],
                   st_assignment := st_assignment t @ [ucast i mod st_num_shards t]\<rparr>)))"

definition freeze :: "symtab \<Rightarrow> symtab" where
  "freeze t = t\<lparr>st_frozen := True\<rparr>"

definition getShardIndex :: "u32 \<Rightarrow> symtab \<Rightarrow> u64" where
  "getShardIndex i t = (if length (st_assignment t) \<le> unat i then UINT64_MAX else st_assignment t ! unat i)"

definition getSymbol :: "u32 \<Rightarrow> symtab \<Rightarrow> string" where
  "getSymbol i t = (if length (st_symbols t) \<le> unat i then ''UNKNOWN'' else st_symbols t ! unat i)"

subsection \<open>The sharded engine\<close>

text \<open>
  Where the owner's thread is: before shard \<open>i\<close> in the loop of \<open>startAll\<close>, before shard \<open>i\<close> in that of \<open>stopAll\<close>, in the
  join of shard \<open>i\<close>, or in neither call.
\<close>

datatype owner_pc = O_Idle | O_Start nat | O_Stop nat | O_Join nat

record sharded =
  sh_shards :: "csys list"
  sh_table :: symtab
  sh_owner :: owner_pc

primrec make_shards :: "(nat \<Rightarrow> i64) \<Rightarrow> nat \<Rightarrow> u64 \<Rightarrow> nat \<Rightarrow> exn + csys list" where
  "make_shards now capacity buffer_size 0 = Inr []"
| "make_shards now capacity buffer_size (Suc n) =
     (case make_shards now capacity buffer_size n of
        Inl ex \<Rightarrow> Inl ex
      | Inr cs \<Rightarrow> (case ConcurrentMatchingEngine now capacity buffer_size of Inl ex \<Rightarrow> Inl ex | Inr c \<Rightarrow> Inr (cs @ [c])))"

definition ShardedMatchingEngine :: "(nat \<Rightarrow> i64) \<Rightarrow> nat \<Rightarrow> u64 \<Rightarrow> u64 \<Rightarrow> exn + sharded" where
  "ShardedMatchingEngine now capacity num_shards buffer_size =
     (case SymbolTable num_shards of
        Inl ex \<Rightarrow> Inl ex
      | Inr t \<Rightarrow> (case make_shards now capacity buffer_size (unat num_shards) of
                    Inl ex \<Rightarrow> Inl ex
                  | Inr cs \<Rightarrow> Inr \<lparr>sh_shards = cs, sh_table = t, sh_owner = O_Idle\<rparr>))"

text \<open>\<open>startAll\<close>: the table is frozen, then the shards are started one after the other.\<close>

definition startAll :: "sharded \<Rightarrow> sharded" where
  "startAll s = s\<lparr>sh_table := freeze (sh_table s), sh_owner := O_Start 0\<rparr>"

definition startAll_next :: "nat \<Rightarrow> sharded \<Rightarrow> sharded" where
  "startAll_next i s =
     (if i < length (sh_shards s) then s\<lparr>sh_shards := (sh_shards s)[i := start (sh_shards s ! i)], sh_owner := O_Start (i + 1)\<rparr>
      else s\<lparr>sh_owner := O_Idle\<rparr>)"

text \<open>\<open>stopAll\<close>: every shard is stopped in turn; \<open>stop\<close> does nothing with a shard that does not run, and joins the consumer of one that does.\<close>

definition stopAll :: "sharded \<Rightarrow> sharded" where
  "stopAll s = s\<lparr>sh_owner := O_Stop 0\<rparr>"

definition stopAll_next :: "nat \<Rightarrow> sharded \<Rightarrow> sharded" where
  "stopAll_next i s =
     (if i < length (sh_shards s) then
        if cs_running (sh_shards s ! i) then s\<lparr>sh_shards := (sh_shards s)[i := stop_flag (sh_shards s ! i)], sh_owner := O_Join i\<rparr>
        else s\<lparr>sh_owner := O_Stop (i + 1)\<rparr>
      else s\<lparr>sh_owner := O_Idle\<rparr>)"

definition stopAll_join :: "nat \<Rightarrow> sharded \<Rightarrow> sharded option" where
  "stopAll_join i s =
     (case stop_join (sh_shards s ! i) of
        None \<Rightarrow> None
      | Some c \<Rightarrow> Some (s\<lparr>sh_shards := (sh_shards s)[i := c], sh_owner := O_Stop (i + 1)\<rparr>))"

definition sh_submitOrder :: "order \<Rightarrow> sharded \<Rightarrow> bool option \<times> sharded" where
  "sh_submitOrder ord s =
     (let shard_idx = getShardIndex (symbol_id ord) (sh_table s)
      in if shard_idx = UINT64_MAX then (Some False, s)
         else if length (sh_shards s) \<le> unat shard_idx then (Some False, s)
         else case submitOrder ord (sh_shards s ! unat shard_idx) of
           (res, c) \<Rightarrow> (res, s\<lparr>sh_shards := (sh_shards s)[unat shard_idx := c]\<rparr>))"

definition getShard :: "u64 \<Rightarrow> sharded \<Rightarrow> exn + csys" where
  "getShard idx s =
     (if length (sh_shards s) \<le> unat idx then Inl (Out_of_range ''ShardedMatchingEngine::getShard: index out of range'')
      else Inr (sh_shards s ! unat idx))"

text \<open>What the threads of a shard do by themselves: the consumer, and a producer on its way through \<open>submitOrder\<close>.\<close>

inductive thread_step :: "csys \<Rightarrow> csys \<Rightarrow> bool" where
  consume: "consumer_step c c' \<Longrightarrow> thread_step c c'"
| switch: "cs_submit c = S_Policy ord \<Longrightarrow> thread_step c (submit_policy ord c)"
| block: "cs_submit c = S_Block ord \<Longrightarrow> thread_step c (submit_block ord c)"
| push: "cs_submit c = S_Push pol ord \<Longrightarrow> thread_step c (push_check pol ord c)"
| slot: "cs_submit c = S_Write ord \<Longrightarrow> thread_step c (push_write ord c)"
| tail: "cs_submit c = S_Store ord \<Longrightarrow> thread_step c (push_store ord c)"

text \<open>
  The steps of the whole. The shards are private: a client can register symbols and freeze the table at any time, submit an order
  through the routing (one producer per shard at a time), and call \<open>startAll\<close> and \<open>stopAll\<close> from one thread; the loops of these two and the
  threads of the shards interleave with everything else. With \<open>orderly\<close>, a shard is only stopped while no submission
  to it is under way.
\<close>

inductive shstep :: "bool \<Rightarrow> sharded \<Rightarrow> sharded \<Rightarrow> bool" for orderly where
  register: "registerSymbol symbol (sh_table s) = (res, t) \<Longrightarrow> shstep orderly s (s\<lparr>sh_table := t\<rparr>)"
| freeze: "shstep orderly s (s\<lparr>sh_table := freeze (sh_table s)\<rparr>)"
| submit: "sh_submitOrder ord s = (res, s') \<Longrightarrow>
    (\<forall>i < length (sh_shards s). getShardIndex (symbol_id ord) (sh_table s) = of_nat i \<longrightarrow> cs_submit (sh_shards s ! i) = S_Idle) \<Longrightarrow>
    shstep orderly s s'"
| start_all: "sh_owner s = O_Idle \<Longrightarrow> shstep orderly s (startAll s)"
| start_next: "sh_owner s = O_Start i \<Longrightarrow> shstep orderly s (startAll_next i s)"
| stop_all: "sh_owner s = O_Idle \<Longrightarrow> shstep orderly s (stopAll s)"
| stop_next: "sh_owner s = O_Stop i \<Longrightarrow> (orderly \<and> i < length (sh_shards s) \<longrightarrow> cs_submit (sh_shards s ! i) = S_Idle) \<Longrightarrow>
    shstep orderly s (stopAll_next i s)"
| stop_wait: "sh_owner s = O_Join i \<Longrightarrow> stopAll_join i s = Some s' \<Longrightarrow> shstep orderly s s'"
| shard: "i < length (sh_shards s) \<Longrightarrow> thread_step (sh_shards s ! i) c \<Longrightarrow>
    shstep orderly s (s\<lparr>sh_shards := (sh_shards s)[i := c]\<rparr>)"

section \<open>Lemmas\<close>

subsection \<open>The symbol table\<close>

definition symtab_wf :: "symtab \<Rightarrow> bool" where
  "symtab_wf t \<longleftrightarrow> st_num_shards t \<noteq> 0 \<and> length (st_symbols t) \<le> 2 ^ 32 \<and> length (st_assignment t) = length (st_symbols t) \<and>
     (\<forall>i < length (st_symbols t). st_assignment t ! i = of_nat i mod st_num_shards t) \<and>
     (\<forall>s i. st_ids t s = Some i \<longleftrightarrow> unat i < length (st_symbols t) \<and> st_symbols t ! unat i = s)"

lemma symtab_wf_new: "SymbolTable n = Inr t \<Longrightarrow> symtab_wf t"
  by (auto simp: SymbolTable_def symtab_wf_def split: if_splits)

lemma register_new:
  assumes wf: "symtab_wf t" and new: "st_ids t symbol = None" "\<not> st_frozen t" "length (st_symbols t) < 2 ^ 32"
    and r: "registerSymbol symbol t = (res, t')"
  shows "\<exists>i. res = Inr i \<and> unat i = length (st_symbols t) \<and> st_symbols t' = st_symbols t @ [symbol] \<and> symtab_wf t' \<and>
    st_num_shards t' = st_num_shards t \<and> st_frozen t' = st_frozen t \<and> (\<exists>xs. st_assignment t' = st_assignment t @ xs)"
proof -
  let ?n = "length (st_symbols t)" and ?i = "of_nat (length (st_symbols t)) :: u32"
  have i: "unat ?i = ?n" using new(3) by (simp add: unat_of_nat)
  have "unat (ucast ?i :: u64) = ?n" using i new(3) by (subst unsigned_ucast_eq) (simp add: take_bit_nat_eq_self)
  moreover have "unat (of_nat ?n :: u64) = ?n" using new(3) by (simp add: unat_of_nat)
  ultimately have u: "ucast ?i = (of_nat ?n :: u64)" by (simp only: word_unat_eq_iff)
  have t': "res = Inr ?i" "t' = t\<lparr>st_ids := (st_ids t)(symbol \<mapsto> ?i), st_symbols := st_symbols t @ [symbol],
      st_assignment := st_assignment t @ [of_nat ?n mod st_num_shards t]\<rparr>"
    using r new u by (auto simp: registerSymbol_def Let_def)
  have ids: "st_ids t x = Some j \<longleftrightarrow> unat j < ?n \<and> st_symbols t ! unat j = x" for x j using wf by (simp add: symtab_wf_def)
  have "st_ids t' x = Some j \<longleftrightarrow> unat j < length (st_symbols t') \<and> st_symbols t' ! unat j = x" for x j
  proof (cases "j = ?i")
    case True
    then show ?thesis using i ids [of x j] by (auto simp: t'(2))
  next
    case False
    then have "unat j \<noteq> ?n" using i by (metis word_unat_eq_iff)
    then show ?thesis using False ids [of x j] ids [of symbol j] new(1) by (auto simp: t'(2) nth_append)
  qed
  then have "symtab_wf t'"
    using wf new(3) unfolding symtab_wf_def by (simp add: t'(2) nth_append less_Suc_eq)
  then show ?thesis using t' i by simp
qed

lemma register_old:
  assumes "registerSymbol symbol t = (res, t')" "st_ids t symbol \<noteq> None \<or> st_frozen t"
  shows "t' = t"
  using assms by (auto simp: registerSymbol_def split: if_splits option.splits)

lemma register_appends:
  assumes "registerSymbol symbol t = (res, t')"
  shows "st_num_shards t' = st_num_shards t" "st_frozen t' = st_frozen t" "\<exists>xs. st_assignment t' = st_assignment t @ xs"
  using assms by (auto simp: registerSymbol_def Let_def split: if_splits option.splits)

lemma shard_index_stable:
  assumes "st_assignment t' = st_assignment t @ xs" "getShardIndex i t \<noteq> UINT64_MAX"
  shows "getShardIndex i t' = getShardIndex i t"
  using assms by (auto simp: getShardIndex_def nth_append split: if_splits)

text \<open>
  C33. Symbols have stable numbers: registering a symbol while there are fewer than \<open>2 ^ 32\<close> gives an
  identifier that names exactly this symbol, the same one every time it is asked for again, before and after freezing; the symbols
  registered before keep theirs; and the shard of the symbol exists and is its number modulo the number of shards.
\<close>

theorem symbol_roundtrip:
  assumes wf: "symtab_wf t" and room: "length (st_symbols t) < 2 ^ 32" and r: "registerSymbol symbol t = (Inr i, t')"
  shows "symtab_wf t' \<and> getSymbol i t' = symbol \<and> registerSymbol symbol t' = (Inr i, t') \<and>
    registerSymbol symbol (freeze t') = (Inr i, freeze t') \<and>
    getShardIndex i t' = of_nat (unat i) mod st_num_shards t \<and> getShardIndex i t' < st_num_shards t \<and>
    (\<forall>s j. st_ids t s = Some j \<longrightarrow> st_ids t' s = Some j \<and> getShardIndex j t' = getShardIndex j t)"
proof -
  have new: "symtab_wf t' \<and> st_ids t' symbol = Some i \<and> st_num_shards t' = st_num_shards t \<and>
    (\<forall>s j. st_ids t s = Some j \<longrightarrow> st_ids t' s = Some j \<and> getShardIndex j t' = getShardIndex j t)"
  proof (cases "st_ids t symbol = None \<and> \<not> st_frozen t")
    case True
    then obtain xs where N: "unat i = length (st_symbols t)" "st_symbols t' = st_symbols t @ [symbol]" "symtab_wf t'"
      "st_num_shards t' = st_num_shards t" "st_assignment t' = st_assignment t @ xs"
      using register_new [OF wf _ _ room r] by auto
    have "st_ids t' s = Some j \<and> getShardIndex j t' = getShardIndex j t" if "st_ids t s = Some j" for s j
      using that wf N by (auto simp: symtab_wf_def nth_append getShardIndex_def)
    moreover have "st_ids t' symbol = Some i" using N by (simp add: symtab_wf_def)
    ultimately show ?thesis using N by blast
  next
    case False
    then have "t' = t" using register_old [OF r] by auto
    moreover have "st_ids t symbol = Some i" using r by (auto simp: registerSymbol_def \<open>t' = t\<close> split: if_splits option.splits)
        (use False r in \<open>auto simp: registerSymbol_def split: if_splits option.splits\<close>)
    ultimately show ?thesis using wf by simp
  qed
  then have u: "unat i < length (st_symbols t')" "st_symbols t' ! unat i = symbol" and n: "st_num_shards t \<noteq> 0" and
    as: "length (st_assignment t') = length (st_symbols t')" "st_assignment t' ! unat i = of_nat (unat i) mod st_num_shards t"
    by (auto simp: symtab_wf_def)
  have "of_nat (unat i) mod st_num_shards t < st_num_shards t" using n by (simp add: word_mod_less_divisor word_neq_0_conv)
  then show ?thesis
    using new u as by (simp add: getSymbol_def getShardIndex_def registerSymbol_def freeze_def)
qed

definition ex_table :: symtab where
  "ex_table = snd (registerSymbol ''AAPL'' \<lparr>st_num_shards = 2, st_frozen = False, st_symbols = [], st_ids = Map.empty, st_assignment = []\<rparr>)"

lemma ex_table_eq: "ex_table = \<lparr>st_num_shards = 2, st_frozen = False, st_symbols = [''AAPL''], st_ids = [''AAPL'' \<mapsto> 0], st_assignment = [0]\<rparr>"
  by (simp add: ex_table_def registerSymbol_def)

lemma ex_table_wf: "symtab_wf ex_table"
  by (auto simp: ex_table_eq symtab_wf_def unat_eq_zero)

theorem symbol_roundtrip_witness:
  "\<exists>t'. registerSymbol ''MSFT'' ex_table = (Inr 1, t') \<and> getSymbol 1 t' = ''MSFT'' \<and> getShardIndex 1 t' = 1 \<and> st_ids t' ''AAPL'' = Some 0"
proof -
  obtain t' where r: "registerSymbol ''MSFT'' ex_table = (Inr 1, t')" by (simp add: ex_table_eq registerSymbol_def)
  have "length (st_symbols ex_table) < 2 ^ 32" "st_ids ex_table ''AAPL'' = Some 0" "st_num_shards ex_table = 2" by (simp_all add: ex_table_eq)
  then show ?thesis using symbol_roundtrip [OF ex_table_wf _ r] r by auto
qed

subsection \<open>Routing\<close>

text \<open>The order a submission is working on.\<close>

primrec submitting :: "submit_pc \<Rightarrow> order list" where
  "submitting S_Idle = []" | "submitting (S_Policy ord) = [ord]" | "submitting (S_Block ord) = [ord]" | "submitting (S_Push pol ord) = [ord]"
| "submitting (S_Write ord) = [ord]" | "submitting (S_Store ord) = [ord]"

abbreviation seen :: "csys \<Rightarrow> order list" where
  "seen c \<equiv> cs_accepted c @ submitting (cs_submit c)"

text \<open>The threads of a shard bring no new order into it, and neither start it nor end its consumer's thread.\<close>

lemma thread_step_seen: "thread_step c c' \<Longrightarrow> set (seen c') \<subseteq> set (seen c)"
proof (induction rule: thread_step.induct)
  case (consume c c')
  then show ?case by (induction rule: consumer_step.induct) (auto simp: consumer_defs Let_def split: prod.splits)
next
  case (push c pol ord)
  then show ?case by (cases pol) (auto simp: push_check_def Let_def)
qed (auto simp: producer_defs Let_def split: backpressure_policy.splits)

lemma thread_step_running: "thread_step c c' \<Longrightarrow> cs_running c' = cs_running c \<and> (cs_consumer c = C_None \<longrightarrow> cs_consumer c' = C_None)"
proof (induction rule: thread_step.induct)
  case (consume c c')
  then show ?case by (induction rule: consumer_step.induct) (auto simp: consumer_defs Let_def split: prod.splits)
next
  case (push c pol ord)
  then show ?case by (cases pol) (auto simp: push_check_def Let_def)
qed (auto simp: producer_defs Let_def split: backpressure_policy.splits)

lemma thread_step_cstep: "thread_step c c' \<Longrightarrow> cstep d c c'"
  by (induction rule: thread_step.induct) (auto intro: cstep.intros)

text \<open>
  What holds of shard \<open>i\<close> in its surroundings: it is a correct threaded engine, it runs only on a frozen table, it has no consumer when it does not run (unless
  it is being joined), and its orders belong to it. While shards are being started the table is frozen.
\<close>

definition shard_ok :: "nat \<Rightarrow> symtab \<Rightarrow> owner_pc \<Rightarrow> nat \<Rightarrow> csys \<Rightarrow> bool" where
  "shard_ok capacity t own i c \<longleftrightarrow> cinv (MatchingEngine capacity) c \<and> (cs_running c \<longrightarrow> st_frozen t) \<and>
     (\<not> cs_running c \<and> own \<noteq> O_Join i \<longrightarrow> cs_consumer c = C_None) \<and>
     (\<forall>ord \<in> set (seen c). getShardIndex (symbol_id ord) t = of_nat i)"

definition routed :: "nat \<Rightarrow> sharded \<Rightarrow> bool" where
  "routed capacity s \<longleftrightarrow> length (sh_shards s) = unat (st_num_shards (sh_table s)) \<and>
     (\<forall>i. sh_owner s = O_Start i \<longrightarrow> st_frozen (sh_table s)) \<and>
     (\<forall>i < length (sh_shards s). shard_ok capacity (sh_table s) (sh_owner s) i (sh_shards s ! i))"

lemma routedD: "routed capacity s \<Longrightarrow> i < length (sh_shards s) \<Longrightarrow> shard_ok capacity (sh_table s) (sh_owner s) i (sh_shards s ! i)"
  by (simp add: routed_def)

text \<open>Shard \<open>i\<close> and the owner move; every other shard is as it was and not the one that was being joined.\<close>

lemma routed_shard:
  assumes R: "routed capacity s" and i: "i < length (sh_shards s)" and c: "shard_ok capacity (sh_table s) own i c"
    and own: "own = sh_owner s \<or> (\<forall>k. sh_owner s = O_Join k \<longrightarrow> k = i)" "(\<exists>k. own = O_Start k) \<longrightarrow> st_frozen (sh_table s)"
  shows "routed capacity (s\<lparr>sh_shards := (sh_shards s)[i := c], sh_owner := own\<rparr>)"
proof -
  have "shard_ok capacity (sh_table s) own j (sh_shards s ! j)" if "j < length (sh_shards s)" "j \<noteq> i" for j
    using routedD [OF R that(1)] own(1) that(2) by (auto simp: shard_ok_def)
  then have "shard_ok capacity (sh_table s) own j ((sh_shards s)[i := c] ! j)" if "j < length (sh_shards s)" for j
    using that c i by (cases "j = i") simp_all
  then show ?thesis using R own(2) unfolding routed_def by simp
qed

lemma routed_owner:
  assumes "routed capacity s" "\<forall>k. sh_owner s \<noteq> O_Join k" "(\<exists>k. own = O_Start k) \<longrightarrow> st_frozen (sh_table s)"
  shows "routed capacity (s\<lparr>sh_owner := own\<rparr>)"
  using assms by (auto simp: routed_def shard_ok_def)

lemma of_nat_shard: "i < unat (n :: u64) \<Longrightarrow> unat (of_nat i :: u64) = i \<and> (of_nat i :: u64) \<noteq> UINT64_MAX"
proof -
  assume i: "i < unat n"
  then have "i < 18446744073709551615" using unat_u64_less [of n] by linarith
  then have "unat (of_nat i :: u64) = i" by (simp add: unat_of_nat)
  moreover from this have "(of_nat i :: u64) \<noteq> UINT64_MAX" using \<open>i < 18446744073709551615\<close> by (auto simp: word_unat_eq_iff)
  ultimately show ?thesis by blast
qed

text \<open>A table that keeps the shards of its symbols keeps everything.\<close>

lemma routed_table:
  assumes R: "routed capacity s" and t: "st_num_shards t = st_num_shards (sh_table s)" "st_frozen (sh_table s) \<longrightarrow> st_frozen t"
    "st_assignment t = st_assignment (sh_table s) @ xs"
  shows "routed capacity (s\<lparr>sh_table := t\<rparr>)"
proof -
  have n: "length (sh_shards s) = unat (st_num_shards (sh_table s))" using R by (simp add: routed_def)
  have "getShardIndex (symbol_id ord) t = of_nat i"
    if i: "i < length (sh_shards s)" and ord: "ord \<in> set (seen (sh_shards s ! i))" for ord i
  proof -
    have "getShardIndex (symbol_id ord) (sh_table s) = of_nat i" using routedD [OF R i] ord unfolding shard_ok_def by blast
    then show ?thesis using shard_index_stable [OF t(3), of "symbol_id ord"] of_nat_shard i n by simp
  qed
  then have "shard_ok capacity t (sh_owner s) i (sh_shards s ! i)" if "i < length (sh_shards s)" for i
    using routedD [OF R that] that t(2) unfolding shard_ok_def by blast
  then show ?thesis using R t(1,2) unfolding routed_def by simp
qed

lemma submit_shard_ok:
  assumes "shard_ok capacity t own i c" "cs_submit c = S_Idle" "submitOrder ord c = (res, c')" "getShardIndex (symbol_id ord) t = of_nat i"
  shows "shard_ok capacity t own i c'"
proof -
  have "cinv (MatchingEngine capacity) c'"
    using cstep_inv [OF cstep.submit [OF assms(2,3)]] assms(1) by (simp add: shard_ok_def)
  moreover have "cs_running c' = cs_running c" "cs_consumer c' = cs_consumer c" "set (seen c') \<subseteq> insert ord (set (seen c))"
    using assms(2,3) by (auto simp: submitOrder_def split: if_splits)
  ultimately show ?thesis using assms(1,4) unfolding shard_ok_def by auto
qed

lemma routed_submit:
  assumes sub: "sh_submitOrder ord s = (res, s')" and R: "routed capacity s"
    and idle: "\<And>i. i < length (sh_shards s) \<Longrightarrow> getShardIndex (symbol_id ord) (sh_table s) = of_nat i \<Longrightarrow>
      cs_submit (sh_shards s ! i) = S_Idle"
  shows "routed capacity s'"
proof -
  let ?i = "unat (getShardIndex (symbol_id ord) (sh_table s))"
  let ?c = "sh_shards s ! ?i"
  show ?thesis
  proof (cases "getShardIndex (symbol_id ord) (sh_table s) = UINT64_MAX \<or> length (sh_shards s) \<le> ?i")
    case True
    then show ?thesis using sub R by (auto simp: sh_submitOrder_def Let_def split: if_splits)
  next
    case False
    then obtain c where c: "submitOrder ord ?c = (res, c)" "s' = s\<lparr>sh_shards := (sh_shards s)[?i := c]\<rparr>"
      using sub by (auto simp: sh_submitOrder_def Let_def split: prod.splits)
    have i: "?i < length (sh_shards s)" "getShardIndex (symbol_id ord) (sh_table s) = of_nat ?i" using False by simp_all
    have "shard_ok capacity (sh_table s) (sh_owner s) ?i c" by (rule submit_shard_ok [OF routedD [OF R i(1)] idle [OF i] c(1) i(2)])
    then have "routed capacity (s\<lparr>sh_shards := (sh_shards s)[?i := c], sh_owner := sh_owner s\<rparr>)"
      using R by (intro routed_shard [OF R i(1)]) (auto simp: routed_def)
    then show ?thesis unfolding c(2) by simp
  qed
qed

lemma start_shard_ok:
  assumes "shard_ok capacity t own i c" "st_frozen t" "\<forall>k. own \<noteq> O_Join k"
  shows "shard_ok capacity t own' i (start c)"
proof -
  have "cinv (MatchingEngine capacity) (start c)"
  proof (cases "cs_running c")
    case False
    then have "cs_consumer c = C_None" using assms(1,3) by (simp add: shard_ok_def)
    then show ?thesis using cstep_inv [OF cstep.start] assms(1) by (simp add: shard_ok_def)
  qed (use assms(1) in \<open>simp add: start_def shard_ok_def\<close>)
  moreover have "seen (start c) = seen c" "cs_running (start c)" by (simp_all add: start_def)
  ultimately show ?thesis using assms(1,2) by (simp add: shard_ok_def)
qed

lemma stop_shard_ok:
  assumes "shard_ok capacity t own i c" "cs_running c"
  shows "shard_ok capacity t (O_Join i) i (stop_flag c)"
  using assms cstep_inv [OF cstep.stop [of c False]] by (auto simp: shard_ok_def stop_flag_def)

lemma join_shard_ok:
  assumes "shard_ok capacity t (O_Join i) i c" "stop_join c = Some c'"
  shows "shard_ok capacity t own i c'"
  using assms cstep_inv [OF cstep.join [OF assms(2), of False]] by (auto simp: shard_ok_def stop_join_def split: if_splits)

lemma thread_shard_ok:
  assumes "shard_ok capacity t own i c" "thread_step c c'"
  shows "shard_ok capacity t own i c'"
  using assms cstep_inv [OF thread_step_cstep [OF assms(2), of False]] thread_step_seen [OF assms(2)] thread_step_running [OF assms(2)]
  unfolding shard_ok_def by auto

lemma shstep_routed: "shstep d s s' \<Longrightarrow> routed capacity s \<Longrightarrow> routed capacity s'"
proof (induction rule: shstep.induct)
  case (register symbol s res t)
  then show ?case using register_appends [OF register(1)] routed_table by metis
next
  case (freeze s)
  then show ?case by (rule routed_table [of _ _ _ "[]"]) (simp_all add: freeze_def)
next
  case (submit ord s res s')
  then show ?case using routed_submit by blast
next
  case (start_all s)
  have "routed capacity (s\<lparr>sh_table := freeze (sh_table s)\<rparr>)"
    by (rule routed_table [OF start_all(2), of _ "[]"]) (simp_all add: freeze_def)
  then show ?case using start_all(1) routed_owner [of capacity "s\<lparr>sh_table := freeze (sh_table s)\<rparr>" "O_Start 0"]
    by (simp add: startAll_def freeze_def)
next
  case (start_next s i)
  have f: "st_frozen (sh_table s)" using start_next by (auto simp: routed_def)
  show ?case
    using start_next f start_shard_ok [OF routedD [OF start_next(2)] f] routed_shard [OF start_next(2)] routed_owner [OF start_next(2)]
    by (simp add: startAll_next_def)
next
  case (stop_all s)
  then show ?case using routed_owner [OF stop_all(2)] by (simp add: stopAll_def)
next
  case (stop_next s i)
  then show ?case
    using stop_shard_ok [OF routedD [OF stop_next(3)]] routed_shard [OF stop_next(3)] routed_owner [OF stop_next(3)]
    by (simp add: stopAll_next_def)
next
  case (stop_wait s i s')
  then obtain c where c: "stop_join (sh_shards s ! i) = Some c" "s' = s\<lparr>sh_shards := (sh_shards s)[i := c], sh_owner := O_Stop (i + 1)\<rparr>"
    by (auto simp: stopAll_join_def split: option.splits)
  show ?case
  proof (cases "i < length (sh_shards s)")
    case True
    have "shard_ok capacity (sh_table s) (O_Join i) i (sh_shards s ! i)" using routedD [OF stop_wait(3) True] stop_wait(1) by simp
    from join_shard_ok [OF this c(1)] show ?thesis unfolding c(2)
      by (rule routed_shard [OF stop_wait(3) True]) (simp_all add: stop_wait(1))
  next
    case False
    then show ?thesis using stop_wait(1,3) unfolding c(2) by (auto simp: routed_def shard_ok_def list_update_beyond)
  qed
next
  case (shard i s c)
  have "routed capacity (s\<lparr>sh_shards := (sh_shards s)[i := c], sh_owner := sh_owner s\<rparr>)"
    using shard(3) by (intro routed_shard [OF shard(3,1) thread_shard_ok [OF routedD [OF shard(3,1)] shard(2)]]) (auto simp: routed_def)
  then show ?case by simp
qed

lemma make_shards_ok:
  "make_shards now capacity sz n = Inr cs \<Longrightarrow> length cs = n \<and> (\<forall>c \<in> set cs. ConcurrentMatchingEngine now capacity sz = Inr c)"
  by (induction n arbitrary: cs) (auto split: sum.splits)

lemma routed_new:
  assumes "ShardedMatchingEngine now capacity num sz = Inr s"
  shows "routed capacity s"
proof -
  obtain cs t where c: "SymbolTable num = Inr t" "make_shards now capacity sz (unat num) = Inr cs" "s = \<lparr>sh_shards = cs, sh_table = t, sh_owner = O_Idle\<rparr>"
    using assms by (auto simp: ShardedMatchingEngine_def split: sum.splits)
  have m: "length cs = unat num" "\<forall>c \<in> set cs. ConcurrentMatchingEngine now capacity sz = Inr c" using make_shards_ok [OF c(2)] by auto
  have t: "st_num_shards t = num" using c(1) by (auto simp: SymbolTable_def split: if_splits)
  have "cinv (MatchingEngine capacity) x \<and> \<not> cs_running x \<and> cs_consumer x = C_None \<and> seen x = []" if "x \<in> set cs" for x
    using m(2) that cinv_start [of now capacity sz x] by (force simp: ConcurrentMatchingEngine_def cinv_def split: sum.splits)
  then show ?thesis using m(1) t c(3) by (auto simp: routed_def shard_ok_def)
qed

text \<open>
  C29. Sharding keeps symbols apart: in every interleaving, an order a shard has accepted belongs to a symbol assigned to that shard, so
  all orders of a symbol meet in one book; each shard by itself is the sequential engine on the orders it
  accepted; and while any shard runs, which only \<open>startAll\<close> can bring about, the table is frozen and registering a symbol changes nothing.
\<close>

theorem sharding_isolates_symbols:
  assumes "ShardedMatchingEngine now capacity num sz = Inr s0" "(shstep orderly)\<^sup>*\<^sup>* s0 s" "i < length (sh_shards s)"
  shows "(\<forall>ord \<in> set (cs_accepted (sh_shards s ! i)). getShardIndex (symbol_id ord) (sh_table s) = of_nat i) \<and>
    cs_engine (sh_shards s ! i) = fst (engine_run (cs_done (sh_shards s ! i)) (MatchingEngine capacity)) \<and>
    cs_accepted (sh_shards s ! i) = map snd (cs_done (sh_shards s ! i)) @ in_hand (cs_consumer (sh_shards s ! i)) @ rb_contents (cs_ring (sh_shards s ! i)) \<and>
    (cs_running (sh_shards s ! i) \<longrightarrow> st_frozen (sh_table s) \<and> (\<forall>symbol. snd (registerSymbol symbol (sh_table s)) = sh_table s)) \<and> length (sh_shards s) = unat (st_num_shards (sh_table s))"
proof -
  have "routed capacity s"
    using assms(2) by (induction rule: rtranclp_induct) (use routed_new [OF assms(1)] shstep_routed in blast)+
  then have "shard_ok capacity (sh_table s) (sh_owner s) i (sh_shards s ! i)" "length (sh_shards s) = unat (st_num_shards (sh_table s))"
    using assms(3) by (simp_all add: routed_def)
  moreover have "snd (registerSymbol symbol (sh_table s)) = sh_table s" if "st_frozen (sh_table s)" for symbol
    using register_old [of symbol "sh_table s" "fst (registerSymbol symbol (sh_table s))"] that by simp
  ultimately show ?thesis by (auto simp: shard_ok_def cinv_def)
qed

subsubsection \<open>A concrete run\<close>

definition ex_two :: "symtab" where
  "ex_two = freeze (snd (registerSymbol ''MSFT'' ex_table))"

lemma ex_two_simps: "getShardIndex 1 ex_two = 1" "st_frozen ex_two"
  by (simp_all add: ex_two_def ex_table_eq registerSymbol_def freeze_def getShardIndex_def)

text \<open>A sharded engine of two shards in the middle of \<open>startAll\<close>: the first is started, the second is about to be or runs.\<close>

abbreviation ex_shards :: "owner_pc \<Rightarrow> csys \<Rightarrow> sharded" where
  "ex_shards own c \<equiv> \<lparr>sh_shards = [start ex_conc, c], sh_table = ex_two, sh_owner = own\<rparr>"

lemma ex_sharded_new:
  "\<exists>t. ShardedMatchingEngine (\<lambda>_. 0) 8 2 2 = Inr \<lparr>sh_shards = [ex_conc, ex_conc], sh_table = t, sh_owner = O_Idle\<rparr> \<and> ex_table = snd (registerSymbol ''AAPL'' t)"
proof -
  have "unat (2 :: u64) = Suc (Suc 0)" by simp
  then have "make_shards (\<lambda>_. 0) 8 2 (unat (2 :: u64)) = Inr [ex_conc, ex_conc]" by (simp only: make_shards.simps ex_conc_eq sum.case append_Nil append_Cons)
  then show ?thesis by (simp add: ShardedMatchingEngine_def SymbolTable_def ex_table_def)
qed

lemma ex_shard_step: "thread_step c c' \<Longrightarrow> shstep True (ex_shards own c) (ex_shards own c')"
  using shstep.shard [of 1 "ex_shards own c" c' True] by simp

lemma ex_sharded_started:
  assumes t: "ex_table = snd (registerSymbol ''AAPL'' t)"
  shows "(shstep True)\<^sup>*\<^sup>* \<lparr>sh_shards = [ex_conc, ex_conc], sh_table = t, sh_owner = O_Idle\<rparr> (ex_shards (O_Start 2) (start ex_conc))"
proof -
  let ?s = "\<lambda>a own. \<lparr>sh_shards = [ex_conc, ex_conc], sh_table = a, sh_owner = own\<rparr>"
  let ?m = "snd (registerSymbol ''MSFT'' ex_table)"
  have r: "shstep True (?s a O_Idle) (?s (snd (registerSymbol x a)) O_Idle)" for a x
    using shstep.register [of x "?s a O_Idle" "fst (registerSymbol x a)" "snd (registerSymbol x a)"] by simp
  have "shstep True (?s t O_Idle) (?s ex_table O_Idle)" unfolding t by (rule r)
  moreover have "shstep True (?s ex_table O_Idle) (?s ?m O_Idle)" by (rule r)
  moreover have "shstep True (?s ?m O_Idle) (?s ex_two (O_Start 0))"
    using shstep.start_all [of "?s ?m O_Idle" True] by (simp add: startAll_def ex_two_def)
  moreover have "shstep True (?s ex_two (O_Start 0)) (ex_shards (O_Start 1) ex_conc)"
    using shstep.start_next [of "?s ex_two (O_Start 0)" 0 True] by (simp add: startAll_next_def)
  moreover have "shstep True (ex_shards (O_Start 1) ex_conc) (ex_shards (O_Start 2) (start ex_conc))"
    using shstep.start_next [of "ex_shards (O_Start 1) ex_conc" 1 True] by (simp add: startAll_next_def numeral_2_eq_2)
  ultimately show ?thesis by (meson converse_rtranclp_into_rtranclp rtranclp.rtrancl_refl)
qed

lemma ex_sharded_run: "(shstep True)\<^sup>*\<^sup>* (ex_shards own (start ex_conc)) (ex_shards own ex_pushed)"
proof -
  let ?o = ex_submit and ?c1 = "start ex_conc"
  let ?c2 = "snd (submitOrder ?o ?c1)"
  let ?c3 = "submit_policy ?o ?c2"
  let ?c4 = "push_check REJECT ?o ?c3"
  let ?c5 = "push_write ?o ?c4"
  note D = producer_defs start_def push_check_def Let_def
  have "shstep True (ex_shards own ?c1) (ex_shards own ?c2)"
  proof -
    have "symbol_id ?o = 1" by (simp add: ex_submit_def ex_order_def)
    then have "sh_submitOrder ?o (ex_shards own ?c1) = (fst (submitOrder ?o ?c1), ex_shards own ?c2)"
      by (simp add: sh_submitOrder_def ex_two_simps case_prod_beta)
    moreover have "cs_submit ?c1 = S_Idle" by (simp add: start_def)
    ultimately show ?thesis by (intro shstep.submit) (auto simp: less_Suc_eq numeral_2_eq_2)
  qed
  moreover have "shstep True (ex_shards own ?c2) (ex_shards own ?c3)" by (rule ex_shard_step [OF thread_step.switch]) (simp add: D)
  moreover have "shstep True (ex_shards own ?c3) (ex_shards own ?c4)" by (rule ex_shard_step [OF thread_step.push]) (simp add: D)
  moreover have "shstep True (ex_shards own ?c4) (ex_shards own ?c5)" by (rule ex_shard_step [OF thread_step.slot]) (simp add: D)
  moreover have "shstep True (ex_shards own ?c5) (ex_shards own ex_pushed)"
    unfolding ex_pushed_def by (rule ex_shard_step [OF thread_step.tail]) (simp add: D)
  ultimately show ?thesis by (meson converse_rtranclp_into_rtranclp rtranclp.rtrancl_refl)
qed

theorem sharding_isolates_symbols_witness:
  "cs_accepted (sh_shards (ex_shards (O_Start 2) ex_pushed) ! 1) = [ex_submit] \<and>
   getShardIndex (symbol_id ex_submit) (sh_table (ex_shards (O_Start 2) ex_pushed)) = of_nat 1 \<and>
   cs_running (sh_shards (ex_shards (O_Start 2) ex_pushed) ! 1) \<and> st_frozen (sh_table (ex_shards (O_Start 2) ex_pushed))"
proof -
  obtain t where t: "ShardedMatchingEngine (\<lambda>_. 0) 8 2 2 = Inr \<lparr>sh_shards = [ex_conc, ex_conc], sh_table = t, sh_owner = O_Idle\<rparr>"
      "ex_table = snd (registerSymbol ''AAPL'' t)"
    using ex_sharded_new by blast
  show ?thesis
    using sharding_isolates_symbols [OF t(1) rtranclp_trans [OF ex_sharded_started [OF t(2)] ex_sharded_run], of 1] ex_pushed_simps(1,4) by simp
qed

end
