(* ===== verification/Trade_Logger.thy ===== *)
theory Trade_Logger
  imports Byte_Codec Order_Types
begin

text \<open>
  The asynchronous trade log (\<open>include/TradeLogger.h\<close>, \<open>src/TradeLogger.cpp\<close>): callers put trades into a bounded
  queue under a mutex, a worker thread takes them out and appends a packed binary record for each to a
  file stream.

  A step is what one thread does between two releases of the mutex, or one access outside of it. The wait on the condition
  variable is cut at the release of the mutex: a worker that finds nothing to do is parked, and only a notification (or a spurious
  wake-up) makes it test again; a notification that comes while it is not parked has no effect. The stream has a buffer; \<open>sink\<close> says how the device answers a \<open>write\<close> and a \<open>flush\<close>: how many of the bytes given so
  far reach the file, or a failure, which leaves an unspecified buffer and a bad stream. Objects are laid out as on
  the little-endian targets of the build. Exactly one thread calls \<open>stop\<close> (two concurrent joins of one
  \<open>std::thread\<close> are undefined). \<open>tl_accepted\<close>, \<open>tl_written\<close> and \<open>tl_lost\<close> record the history; no step reads them.
\<close>

section \<open>The model\<close>

subsection \<open>The packed record\<close>

text \<open>
  The bits of a \<open>double\<close>: sign, biased exponent and fraction. For a magnitude \<open>k * 2 powi e\<close>
  with \<open>e\<close> its unit in the last place they are \<open>(e + 1074) * 2 ^ 52 + k\<close>, for normal and subnormal numbers alike.
\<close>

definition ulp_exponent :: "rat \<Rightarrow> int" where
  "ulp_exponent x = max (ilog2 x - 52) (-1074)"

definition magnitude_bits :: "rat \<Rightarrow> int" where
  "magnitude_bits x = (if x = 0 then 0 else (ulp_exponent x + 1074) * 2 ^ 52 + \<lfloor>x / 2 powi ulp_exponent x\<rfloor>)"

primrec double_bits :: "double \<Rightarrow> u64" where
  "double_bits (Fin x) = word_of_int ((if x < 0 then 2 ^ 63 else 0) + magnitude_bits \<bar>x\<bar>)"
| "double_bits PInf = 0x7FF0000000000000"
| "double_bits NInf = 0xFFF0000000000000"
| "double_bits NaN = 0x7FF8000000000000"

text \<open>\<open>BinaryTrade\<close>, packed: 60 bytes.\<close>

definition BinaryTrade :: "trade \<Rightarrow> u8 list" where
  "BinaryTrade t = rev (u64_bytes (trade_id t)) @ rev (u64_bytes (buy_order_id t)) @ rev (u64_bytes (sell_order_id t)) @
     rev (u64_bytes (buy_trader_id t)) @ rev (u64_bytes (sell_trader_id t)) @ rev (u64_bytes (double_bits (trade_price t))) @
     rev (u32_bytes (trade_quantity t)) @ rev (u64_bytes (word_of_int (trade_timestamp t)))"

subsection \<open>The logger\<close>

text \<open>
  The worker is about to lock and test its condition, parked in the wait set of \<open>cv_\<close>, writing a trade, about to lock again after a
  write or after a failed one, or gone.
\<close>

datatype worker_pc = K_Wait | K_Parked | K_Write trade | K_Relock | K_Broke | K_Exit

datatype stop_pc = T_None | T_Claimed | T_Notify | T_Join | T_Flush | T_Done

record tlog =
  tl_disk :: "u8 list"
  tl_buffer :: "u8 list"
  tl_good :: bool
  tl_queue :: "trade list"
  tl_max :: u64
  tl_stop :: bool
  tl_error :: bool
  tl_stopped :: bool
  tl_worker :: worker_pc
  tl_stopper :: stop_pc
  tl_entered :: "trade list"
  tl_accepted :: "trade list"
  tl_written :: "trade list"
  tl_lost :: "trade list"

text \<open>\<open>contents\<close> is what the file holds before, \<open>opened\<close> whether it can be opened for appending.\<close>

definition TradeLogger :: "bool \<Rightarrow> u8 list \<Rightarrow> string \<Rightarrow> u64 \<Rightarrow> exn + tlog" where
  "TradeLogger opened contents filename max_queue_size =
     (if max_queue_size = 0 then Inl (Invalid_argument ''TradeLogger: max_queue_size must be > 0'')
      else if \<not> opened then Inl (Runtime_error (''TradeLogger: cannot open file '' @ filename))
      else Inr \<lparr>tl_disk = contents, tl_buffer = [], tl_good = True, tl_queue = [], tl_max = max_queue_size, tl_stop = False,
             tl_error = False, tl_stopped = False, tl_worker = K_Wait, tl_stopper = T_None, tl_entered = [],
             tl_accepted = [], tl_written = [], tl_lost = []\<rparr>)"

text \<open>\<open>cv_.notify_one()\<close>: the worker is the only thread that ever waits.\<close>

definition cv_notify_one :: "tlog \<Rightarrow> tlog" where
  "cv_notify_one s = (if tl_worker s = K_Parked then s\<lparr>tl_worker := K_Wait\<rparr> else s)"

definition hasError :: "tlog \<Rightarrow> bool" where
  "hasError s = tl_error s"

text \<open>\<open>log\<close>: the test outside the lock, and the locked block with its answer. \<open>alloc\<close>: the queue finds memory.\<close>

definition log_enter :: "trade \<Rightarrow> tlog \<Rightarrow> bool option \<times> tlog" where
  "log_enter t s = (if tl_error s then (Some False, s) else (None, s\<lparr>tl_entered := t # tl_entered s\<rparr>))"

definition log_locked :: "bool \<Rightarrow> trade \<Rightarrow> tlog \<Rightarrow> bool \<times> tlog" where
  "log_locked alloc t s =
     (let s1 = s\<lparr>tl_entered := remove1 t (tl_entered s)\<rparr> in
      if tl_stop s then (False, s1)
      else if unat (tl_max s) \<le> length (tl_queue s) then (False, s1)
      else if \<not> alloc then (False, s1)
      else
        (let was_empty = (tl_queue s = []); s2 = s1\<lparr>tl_queue := tl_queue s @ [t], tl_accepted := tl_accepted s @ [t]\<rparr> in
         (True, if was_empty then cv_notify_one s2 else s2)))"

text \<open>\<open>stop\<close>: the exchange, the flag under the lock, the notification after it, the join, the flush.\<close>

definition stop_claim :: "tlog \<Rightarrow> tlog" where
  "stop_claim s = (if tl_stopped s then s else s\<lparr>tl_stopped := True, tl_stopper := T_Claimed\<rparr>)"

definition stop_mark :: "tlog \<Rightarrow> tlog" where
  "stop_mark s = s\<lparr>tl_stop := True, tl_stopper := T_Notify\<rparr>"

definition stop_notify :: "tlog \<Rightarrow> tlog" where
  "stop_notify s = (cv_notify_one s)\<lparr>tl_stopper := T_Join\<rparr>"

definition join_worker :: "tlog \<Rightarrow> tlog option" where
  "join_worker s = (if tl_worker s = K_Exit then Some (s\<lparr>tl_stopper := T_Flush\<rparr>) else None)"

datatype sink = Sunk nat | Broken nat "u8 list"

text \<open>A failing \<open>flush\<close> sets the stream's state; nothing is thrown, so \<open>error_\<close> stays as it is.\<close>

definition flush_file :: "sink \<Rightarrow> tlog \<Rightarrow> tlog" where
  "flush_file w s =
     (case w of
        Sunk _ \<Rightarrow> s\<lparr>tl_disk := tl_disk s @ tl_buffer s, tl_buffer := [], tl_stopper := T_Done\<rparr>
      | Broken k left \<Rightarrow> s\<lparr>tl_disk := tl_disk s @ take k (tl_buffer s), tl_buffer := left, tl_good := False, tl_stopper := T_Done\<rparr>)"

text \<open>The worker after its wait or after its inner loop, holding the lock, up to the next release.\<close>

definition inner_done :: "tlog \<Rightarrow> tlog" where
  "inner_done s =
     (if tl_error s \<and> tl_queue s = [] then s\<lparr>tl_worker := K_Exit\<rparr>
      else if tl_stop s \<and> tl_queue s = [] then s\<lparr>tl_worker := K_Exit\<rparr>
      else s\<lparr>tl_worker := K_Wait\<rparr>)"

definition inner_loop :: "tlog \<Rightarrow> tlog" where
  "inner_loop s =
     (case tl_queue s of
        t # ts \<Rightarrow> if \<not> tl_error s then s\<lparr>tl_queue := ts, tl_worker := K_Write t\<rparr> else inner_done s
      | [] \<Rightarrow> inner_done s)"

text \<open>\<open>cv_.wait\<close> with the lock held: the predicate is tested, and the worker goes on or is parked.\<close>

definition worker_wake :: "tlog \<Rightarrow> tlog" where
  "worker_wake s = (if tl_queue s \<noteq> [] \<or> tl_stop s then inner_loop s else s\<lparr>tl_worker := K_Parked\<rparr>)"

text \<open>\<open>file_.write\<close> on a good stream, and the test of the stream after it.\<close>

definition worker_write :: "sink \<Rightarrow> trade \<Rightarrow> tlog \<Rightarrow> tlog" where
  "worker_write w t s =
     (let given = tl_buffer s @ BinaryTrade t in
      if \<not> tl_good s then s\<lparr>tl_error := True, tl_worker := K_Broke, tl_lost := tl_lost s @ [t]\<rparr>
      else
        (case w of
           Sunk k \<Rightarrow> s\<lparr>tl_disk := tl_disk s @ take k given, tl_buffer := drop k given, tl_worker := K_Relock,
                     tl_written := tl_written s @ [t]\<rparr>
         | Broken k left \<Rightarrow> s\<lparr>tl_disk := tl_disk s @ take k given, tl_buffer := left, tl_good := False, tl_error := True,
                     tl_worker := K_Broke, tl_lost := tl_lost s @ [t]\<rparr>))"

inductive worker_step :: "sink \<Rightarrow> tlog \<Rightarrow> tlog \<Rightarrow> bool" where
  wake: "tl_worker s = K_Wait \<Longrightarrow> worker_step w s (worker_wake s)"
| put: "tl_worker s = K_Write t \<Longrightarrow> worker_step w s (worker_write w t s)"
| relock: "tl_worker s = K_Relock \<Longrightarrow> worker_step w s (inner_loop s)"
| broke: "tl_worker s = K_Broke \<Longrightarrow> worker_step w s (inner_done s)"

inductive lstep :: "tlog \<Rightarrow> tlog \<Rightarrow> bool" where
  enter: "log_enter t s = (res, s') \<Longrightarrow> lstep s s'"
| locked: "t \<in> set (tl_entered s) \<Longrightarrow> log_locked alloc t s = (ok, s') \<Longrightarrow> lstep s s'"
| claim: "lstep s (stop_claim s)"
| mark: "tl_stopper s = T_Claimed \<Longrightarrow> lstep s (stop_mark s)"
| notify: "tl_stopper s = T_Notify \<Longrightarrow> lstep s (stop_notify s)"
| spurious: "tl_worker s = K_Parked \<Longrightarrow> lstep s (s\<lparr>tl_worker := K_Wait\<rparr>)"
| join: "tl_stopper s = T_Join \<Longrightarrow> join_worker s = Some s' \<Longrightarrow> lstep s s'"
| flush: "tl_stopper s = T_Flush \<Longrightarrow> lstep s (flush_file w s)"
| work: "worker_step w s s' \<Longrightarrow> lstep s s'"

section \<open>Lemmas\<close>

subsection \<open>The record is readable\<close>

definition magnitude :: "int \<Rightarrow> rat" where
  "magnitude m = (let b = m div 2 ^ 52; f = m mod 2 ^ 52 in
     if b = 0 then of_int f * 2 powi (-1074) else of_int (2 ^ 52 + f) * 2 powi (b - 1075))"

text \<open>A positive rational that binary64 represents.\<close>

definition binary64 :: "rat \<Rightarrow> bool" where
  "binary64 x \<longleftrightarrow> 0 < x \<and> x < 2 powi 1024 \<and> x / 2 powi ulp_exponent x \<in> \<int>"

lemma magnitude_bits_ok:
  assumes "binary64 x"
  shows "magnitude (magnitude_bits x) = x" "0 \<le> magnitude_bits x" "magnitude_bits x < 2 ^ 63"
proof -
  let ?e = "ulp_exponent x"
  have x: "0 < x" "x < 2 powi 1024" using assms by (auto simp: binary64_def)
  obtain k where k: "x / 2 powi ?e = of_int k" using assms by (auto simp: binary64_def Ints_def)
  have xk: "x = of_int k * 2 powi ?e" using k by (simp add: field_simps)
  have m: "magnitude_bits x = (?e + 1074) * 2 ^ 52 + k" using x(1) by (simp add: magnitude_bits_def k)
  have e: "-1074 \<le> ?e" by (simp add: ulp_exponent_def)
  have l: "2 powi (ilog2 x) \<le> x" "x < 2 powi (ilog2 x + 1)" using ilog2_bounds [OF x(1)] by auto
  have "ilog2 x < 1024" using x by (rule ilog2_le)
  then have e': "?e \<le> 971" by (simp add: ulp_exponent_def)
  have k0: "0 < k" using x(1) k by (metis divide_pos_pos of_int_0_less_iff zero_less_power_int zero_less_numeral)
  have "ilog2 x + 1 \<le> ?e + 53" unfolding ulp_exponent_def by linarith
  then have "2 powi (ilog2 x + 1) \<le> (2 :: rat) powi (?e + 53)" by (rule power_int_increasing) simp_all
  then have "x < 2 powi (?e + 53)" using l(2) by (rule less_le_trans [rotated])
  then have "of_int k * 2 powi ?e < (2 :: rat) ^ 53 * 2 powi ?e" using xk by (simp add: power_int_add)
  then have k1: "k < 2 ^ 53" by (simp add: mult_less_cancel_right)
  show "0 \<le> magnitude_bits x" "magnitude_bits x < 2 ^ 63" unfolding m using e e' k0 k1 by simp_all
  show "magnitude (magnitude_bits x) = x"
  proof (cases "k < 2 ^ 52")
    case True
    have "?e = -1074"
    proof (rule ccontr)
      assume "?e \<noteq> -1074"
      then have i: "ilog2 x = ?e + 52" by (simp add: ulp_exponent_def max_def split: if_splits)
      have "2 ^ 52 * 2 powi ?e \<le> of_int k * (2 :: rat) powi ?e" using l(1) xk unfolding i by (simp add: power_int_add)
      then have "2 ^ 52 \<le> k" by (simp add: mult_le_cancel_right)
      then show False using True by simp
    qed
    then show ?thesis using True k0 xk unfolding m magnitude_def by simp
  next
    case False
    have "magnitude_bits x = (k - 2 ^ 52) + (?e + 1075) * 2 ^ 52" unfolding m by (simp add: algebra_simps)
    moreover have "k - 2 ^ 52 < 2 ^ 52" "0 \<le> k - 2 ^ 52" using False k1 by simp_all
    ultimately have "magnitude_bits x div 2 ^ 52 = ?e + 1075" "magnitude_bits x mod 2 ^ 52 = k - 2 ^ 52"
      by (simp_all only: div_mult_self1 mod_mult_self1 div_pos_pos_trivial mod_pos_pos_trivial)
    then show ?thesis using e xk by (simp add: magnitude_def Let_def)
  qed
qed


definition readTrade :: "u8 list \<Rightarrow> trade" where
  "readTrade p =
     \<lparr>trade_id = readU64BE (rev (take 8 p)), buy_order_id = readU64BE (rev (take 8 (drop 8 p))),
      sell_order_id = readU64BE (rev (take 8 (drop 16 p))), buy_trader_id = readU64BE (rev (take 8 (drop 24 p))),
      sell_trader_id = readU64BE (rev (take 8 (drop 32 p))), trade_price = Fin (magnitude (uint (readU64BE (rev (take 8 (drop 40 p)))))),
      trade_quantity = readU32BE (rev (take 4 (drop 48 p))), trade_timestamp = readI64BE (rev (take 8 (drop 52 p)))\<rparr>"

definition trade_ok :: "trade \<Rightarrow> bool" where
  "trade_ok t \<longleftrightarrow> (\<exists>x. trade_price t = Fin x \<and> binary64 x) \<and> in_i64 (trade_timestamp t)"

lemma length_BinaryTrade [simp]: "length (BinaryTrade t) = 60"
  by (simp add: BinaryTrade_def)

lemmas read_exact = readU64BE_bytes [where bs = "[]", simplified] readU32BE_bytes [where bs = "[]", simplified]
  readI64BE_bytes [where bs = "[]", simplified]

lemma readTrade_BinaryTrade: "trade_ok t \<Longrightarrow> readTrade (BinaryTrade t @ bs) = t"
proof -
  assume t: "trade_ok t"
  then obtain x where x: "trade_price t = Fin x" "binary64 x" by (auto simp: trade_ok_def)
  have "0 < x" using x(2) by (simp add: binary64_def)
  then have "uint (double_bits (trade_price t)) = magnitude_bits x"
    using magnitude_bits_ok(2,3) [OF x(2)] by (simp add: x(1) uint_word_of_int)
  then have "Fin (magnitude (uint (double_bits (trade_price t)))) = trade_price t" using magnitude_bits_ok(1) [OF x(2)] x(1) by simp
  then show ?thesis using t by (simp add: readTrade_def BinaryTrade_def read_exact trade_ok_def)
qed

text \<open>Reading a whole log, record by record.\<close>

fun readLog :: "nat \<Rightarrow> u8 list \<Rightarrow> trade list" where
  "readLog 0 p = []"
| "readLog (Suc n) p = readTrade p # readLog n (drop 60 p)"

lemma readLog_records: "\<forall>t \<in> set ts. trade_ok t \<Longrightarrow> readLog (length ts) (concat (map BinaryTrade ts)) = ts"
  by (induction ts) (simp_all add: readTrade_BinaryTrade)

subsection \<open>The invariant\<close>

primrec being_written :: "worker_pc \<Rightarrow> trade list" where
  "being_written K_Wait = []" | "being_written K_Parked = []" | "being_written (K_Write t) = [t]" | "being_written K_Relock = []"
| "being_written K_Broke = []" | "being_written K_Exit = []"

text \<open>What was accepted and where it is; how an error shows; how far stopping has come.\<close>

definition log_kept :: "u8 list \<Rightarrow> tlog \<Rightarrow> bool" where
  "log_kept base s \<longleftrightarrow> tl_accepted s = tl_written s @ tl_lost s @ being_written (tl_worker s) @ tl_queue s \<and>
     length (tl_queue s) \<le> unat (tl_max s) \<and>
     (tl_good s \<longrightarrow> tl_disk s @ tl_buffer s = base @ concat (map BinaryTrade (tl_written s)))"

definition log_errors :: "tlog \<Rightarrow> bool" where
  "log_errors s \<longleftrightarrow> (tl_error s \<longleftrightarrow> tl_lost s \<noteq> []) \<and> length (tl_lost s) \<le> 1 \<and>
     (tl_error s \<longrightarrow> \<not> tl_good s \<and> tl_worker s \<in> {K_Wait, K_Broke, K_Exit} \<and> (tl_worker s = K_Wait \<longrightarrow> tl_queue s \<noteq> [])) \<and>
     (tl_worker s = K_Broke \<longrightarrow> tl_error s) \<and> (\<not> tl_good s \<longrightarrow> tl_error s \<or> tl_stopper s = T_Done)"

definition log_stops :: "tlog \<Rightarrow> bool" where
  "log_stops s \<longleftrightarrow> (tl_stopper s = T_Flush \<or> tl_stopper s = T_Done \<longrightarrow> tl_worker s = K_Exit) \<and>
     (tl_stopper s = T_None \<longleftrightarrow> \<not> tl_stopped s) \<and> (tl_stopper s = T_Done \<and> tl_good s \<longrightarrow> tl_buffer s = []) \<and>
     (tl_worker s = K_Exit \<and> \<not> tl_error s \<longrightarrow> tl_stop s \<and> tl_queue s = [])"

text \<open>A parked worker has nothing to do, or the stopping thread is about to notify it.\<close>

definition log_parked :: "tlog \<Rightarrow> bool" where
  "log_parked s \<longleftrightarrow> (tl_worker s = K_Parked \<longrightarrow> tl_queue s = [] \<and> (tl_stop s \<longrightarrow> tl_stopper s = T_Notify))"

definition linv :: "u8 list \<Rightarrow> tlog \<Rightarrow> bool" where
  "linv base s \<longleftrightarrow> log_kept base s \<and> log_errors s \<and> log_stops s \<and> log_parked s"

lemmas linv_defs = log_kept_def log_errors_def log_stops_def log_parked_def

lemma linvI: "log_kept base s \<Longrightarrow> log_errors s \<Longrightarrow> log_stops s \<Longrightarrow> log_parked s \<Longrightarrow> linv base s"
  by (simp add: linv_def)

lemma linvD: "linv base s \<Longrightarrow> log_kept base s" "linv base s \<Longrightarrow> log_errors s" "linv base s \<Longrightarrow> log_stops s"
  "linv base s \<Longrightarrow> log_parked s"
  by (simp_all add: linv_def)

lemma linv_step:
  "linv base s \<Longrightarrow> (log_kept base s \<Longrightarrow> log_kept base s') \<Longrightarrow> (log_errors s \<Longrightarrow> log_errors s') \<Longrightarrow> (log_stops s \<Longrightarrow> log_stops s') \<Longrightarrow>
   (log_stops s \<Longrightarrow> log_parked s \<Longrightarrow> log_parked s') \<Longrightarrow> linv base s'"
  by (simp add: linv_def)

lemma linv_entered [simp]: "linv base (s\<lparr>tl_entered := ts\<rparr>) = linv base s"
  by (simp add: linv_def linv_defs)

lemma woken_inv: "linv base s \<Longrightarrow> tl_worker s = K_Parked \<Longrightarrow> linv base (s\<lparr>tl_worker := K_Wait\<rparr>)"
  by (auto simp: linv_def linv_defs)

lemma cv_notify_one_inv: "linv base s \<Longrightarrow> linv base (cv_notify_one s)"
  by (simp add: cv_notify_one_def woken_inv)

lemma joining_inv: "linv base s \<Longrightarrow> tl_worker s \<noteq> K_Parked \<Longrightarrow> tl_stopper s = T_Notify \<Longrightarrow> linv base (s\<lparr>tl_stopper := T_Join\<rparr>)"
  by (erule linv_step) (auto simp: linv_defs)

lemma queued_inv:
  "linv base s \<Longrightarrow> tl_worker s \<noteq> K_Parked \<Longrightarrow> \<not> tl_stop s \<Longrightarrow> length (tl_queue s) < unat (tl_max s) \<Longrightarrow>
   linv base (s\<lparr>tl_queue := tl_queue s @ [t], tl_accepted := tl_accepted s @ [t]\<rparr>)"
  by (erule linv_step) (auto simp: linv_defs)

lemma cv_notify_one_simps [simp]:
  "tl_stop (cv_notify_one s) = tl_stop s" "tl_stopper (cv_notify_one s) = tl_stopper s" "tl_worker (cv_notify_one s) \<noteq> K_Parked"
  "tl_queue (cv_notify_one s) = tl_queue s" "tl_error (cv_notify_one s) = tl_error s"
  by (simp_all add: cv_notify_one_def)

lemma inner_done_inv: "linv base s \<Longrightarrow> tl_worker s \<noteq> K_Exit \<Longrightarrow> being_written (tl_worker s) = [] \<Longrightarrow> linv base (inner_done s)"
  by (auto intro!: linvI dest!: linvD simp: linv_def linv_defs inner_done_def)

lemma inner_loop_inv: "linv base s \<Longrightarrow> tl_worker s \<noteq> K_Exit \<Longrightarrow> being_written (tl_worker s) = [] \<Longrightarrow> linv base (inner_loop s)"
proof -
  assume I: "linv base s" "tl_worker s \<noteq> K_Exit" "being_written (tl_worker s) = []"
  have *: "linv base (inner_done s)" by (rule inner_done_inv [OF I])
  show ?thesis
  proof (cases "tl_queue s")
    case (Cons t ts)
    show ?thesis
    proof (cases "tl_error s")
      case False
      then have "inner_loop s = s\<lparr>tl_queue := ts, tl_worker := K_Write t\<rparr>" by (simp add: inner_loop_def Cons)
      then show ?thesis using I Cons False by (simp add: linv_def linv_defs)
    qed (simp add: inner_loop_def Cons *)
  qed (simp add: inner_loop_def *)
qed

lemma worker_write_inv: "linv base s \<Longrightarrow> tl_worker s = K_Write t \<Longrightarrow> linv base (worker_write w t s)"
proof -
  assume I: "linv base s" and t: "tl_worker s = K_Write t"
  have g: "tl_good s" "\<not> tl_error s" "tl_lost s = []" using I t by (auto simp: linv_def linv_defs)
  show ?thesis
  proof (cases w)
    case (Sunk k)
    then show ?thesis using I t g by (simp add: linv_def linv_defs worker_write_def Let_def del: take_append drop_append)
  next
    case (Broken k left)
    then show ?thesis using I t g by (simp add: linv_def linv_defs worker_write_def Let_def)
  qed
qed

lemma worker_wake_inv: "linv base s \<Longrightarrow> tl_worker s = K_Wait \<Longrightarrow> linv base (worker_wake s)"
proof (cases "tl_queue s \<noteq> [] \<or> tl_stop s")
  case True
  assume "linv base s" "tl_worker s = K_Wait"
  then show ?thesis using True inner_loop_inv [of base s] by (auto simp: worker_wake_def)
next
  case False
  assume I: "linv base s" "tl_worker s = K_Wait"
  show ?thesis by (rule linv_step [OF I(1)]) (use False I(2) in \<open>auto simp: linv_defs worker_wake_def\<close>)
qed

lemma worker_step_inv: "worker_step w s s' \<Longrightarrow> linv base s \<Longrightarrow> linv base s'"
proof (induction rule: worker_step.induct)
  case (wake s w)
  then show ?case by (simp add: worker_wake_inv)
qed (simp_all add: worker_write_inv inner_loop_inv inner_done_inv)

lemma log_locked_inv: "log_locked alloc t s = (ok, s') \<Longrightarrow> linv base s \<Longrightarrow> linv base s'"
proof -
  assume l: "log_locked alloc t s = (ok, s')" and I: "linv base s"
  show ?thesis
  proof (cases ok)
    case True
    let ?s2 = "s\<lparr>tl_entered := remove1 t (tl_entered s), tl_queue := tl_queue s @ [t], tl_accepted := tl_accepted s @ [t]\<rparr>"
    have s': "s' = (if tl_queue s = [] then cv_notify_one ?s2 else ?s2)" "\<not> tl_stop s" "length (tl_queue s) < unat (tl_max s)"
      using l True by (auto simp: log_locked_def Let_def split: if_splits)
    show ?thesis
    proof (cases "tl_worker s = K_Parked")
      case True
      then have "tl_queue s = []" using I by (simp add: linv_def linv_defs)
      then have "s' = ?s2\<lparr>tl_worker := K_Wait\<rparr>" using s'(1) True by (simp add: cv_notify_one_def)
      then have "s' = s\<lparr>tl_worker := K_Wait, tl_queue := tl_queue s @ [t], tl_accepted := tl_accepted s @ [t]\<rparr>\<lparr>tl_entered := remove1 t (tl_entered s)\<rparr>" by simp
      then show ?thesis using queued_inv [OF woken_inv [OF I True], of t] s'(2,3) by simp
    next
      case False
      then have "s' = ?s2" using s'(1) by (simp add: cv_notify_one_def)
      then have "s' = s\<lparr>tl_queue := tl_queue s @ [t], tl_accepted := tl_accepted s @ [t]\<rparr>\<lparr>tl_entered := remove1 t (tl_entered s)\<rparr>" by simp
      then show ?thesis using queued_inv [OF I False s'(2,3), of t] by (simp only: linv_entered)
    qed
  next
    case False
    then have "s' = s\<lparr>tl_entered := remove1 t (tl_entered s)\<rparr>" using l by (auto simp: log_locked_def Let_def split: if_splits)
    then show ?thesis using I by simp
  qed
qed

lemma lstep_inv: "lstep s s' \<Longrightarrow> linv base s \<Longrightarrow> linv base s'"
proof (induction rule: lstep.induct)
  case (enter t s res s')
  then have "s' = s \<or> s' = s\<lparr>tl_entered := t # tl_entered s\<rparr>" by (auto simp: log_enter_def split: if_splits)
  then show ?case using enter(2) by auto
next
  case (locked t s alloc ok s')
  then show ?case using log_locked_inv by blast
next
  case (join s s')
  then show ?case by (auto simp: linv_def linv_defs join_worker_def split: if_splits)
next
  case (flush s w)
  then show ?case by (cases w) (simp_all add: linv_def linv_defs flush_file_def)
next
  case (work w s s')
  then show ?case by (simp add: worker_step_inv)
next
  case (notify s)
  have "linv base (cv_notify_one s)" "tl_worker (cv_notify_one s) \<noteq> K_Parked" "tl_stopper (cv_notify_one s) = T_Notify"
    using notify by (simp_all add: cv_notify_one_inv)
  then show ?case by (simp add: stop_notify_def joining_inv)
next
  case (spurious s)
  then show ?case by (simp add: woken_inv)
next
  case (claim s)
  show ?case
  proof (cases "tl_stopped s")
    case False
    then have "tl_stopper s = T_None" using claim by (simp add: linv_def log_stops_def)
    then show ?thesis by (intro linv_step [OF claim]) (auto simp: linv_defs stop_claim_def)
  qed (use claim in \<open>simp add: stop_claim_def\<close>)
next
  case (mark s)
  show ?case by (rule linv_step [OF mark(2)]) (use mark(1) in \<open>auto simp: linv_defs stop_mark_def\<close>)
qed

lemma reachable_linv:
  assumes "TradeLogger opened contents filename sz = Inr s0" "lstep\<^sup>*\<^sup>* s0 s"
  shows "linv contents s"
proof -
  have "linv contents s0" using assms(1) by (auto simp: linv_def linv_defs TradeLogger_def split: if_splits)
  then show ?thesis using rtranclp_invariant [OF assms(2), of "linv contents"] lstep_inv by blast
qed

subsection \<open>What the file holds\<close>

text \<open>
  C31. The trade log is faithful: in every interleaving of the callers, the worker and the stopping thread, the trades for which
  \<open>log\<close> answered true are, in order, the ones written, at most one that met a write error, the one the worker holds and
  the queue, which never exceeds its bound. While the stream is good, file and buffer hold what the file held before
  followed by the packed records of the written trades; once \<open>stop\<close> has returned with the stream good, every
  accepted trade is in the file, and reading the records back yields exactly the accepted trades.
\<close>

theorem trade_log_faithful:
  assumes "TradeLogger opened contents filename sz = Inr s0" "lstep\<^sup>*\<^sup>* s0 s"
  shows "tl_accepted s = tl_written s @ tl_lost s @ being_written (tl_worker s) @ tl_queue s \<and> length (tl_lost s) \<le> 1 \<and>
    (tl_lost s \<noteq> [] \<longleftrightarrow> hasError s) \<and> length (tl_queue s) \<le> unat (tl_max s) \<and>
    (tl_good s \<longrightarrow> tl_disk s @ tl_buffer s = contents @ concat (map BinaryTrade (tl_written s))) \<and>
    (tl_good s \<and> tl_stopper s = T_Done \<longrightarrow> tl_disk s = contents @ concat (map BinaryTrade (tl_accepted s)) \<and>
      ((\<forall>t \<in> set (tl_accepted s). trade_ok t) \<longrightarrow>
        readLog (length (tl_accepted s)) (drop (length contents) (tl_disk s)) = tl_accepted s))"
proof -
  have I: "log_kept contents s" "log_errors s" "log_stops s" using reachable_linv [OF assms] by (simp_all add: linvD)
  have "tl_written s = tl_accepted s \<and> tl_disk s = contents @ concat (map BinaryTrade (tl_accepted s))"
    if d: "tl_good s" "tl_stopper s = T_Done"
  proof -
    have "tl_worker s = K_Exit" "tl_lost s = []" "tl_queue s = []" "tl_buffer s = []" using I(2,3) d by (auto simp: linv_defs)
    then show ?thesis using I(1) d(1) by (simp add: log_kept_def)
  qed
  moreover have "readLog (length ts) (drop (length contents) (contents @ concat (map BinaryTrade ts))) = ts" if "\<forall>t \<in> set ts. trade_ok t" for ts
    using readLog_records [OF that] by simp
  ultimately show ?thesis using I(1,2) unfolding hasError_def by (simp add: log_kept_def log_errors_def)
qed

definition ex_logger :: tlog where
  "ex_logger = \<lparr>tl_disk = [9], tl_buffer = [], tl_good = True, tl_queue = [], tl_max = 2, tl_stop = False, tl_error = False, tl_stopped = False,
     tl_worker = K_Wait, tl_stopper = T_None, tl_entered = [], tl_accepted = [], tl_written = [], tl_lost = []\<rparr>"

definition ex_trade :: "u64 \<Rightarrow> trade" where
  "ex_trade i = \<lparr>trade_id = i, buy_order_id = 10, sell_order_id = 20, buy_trader_id = 100, sell_trader_id = 200,
     trade_price = Fin (201 / 2), trade_quantity = 5, trade_timestamp = 77\<rparr>"

lemma ex_logger_new: "TradeLogger True [9] ''t'' 2 = Inr ex_logger"
  by (simp add: TradeLogger_def ex_logger_def)

lemma steps_trans [trans]: "lstep\<^sup>*\<^sup>* s s1 \<Longrightarrow> lstep s1 s2 \<Longrightarrow> lstep\<^sup>*\<^sup>* s s2"
  by (rule rtranclp.rtrancl_into_rtrancl)

lemma log_one: "\<not> tl_error s \<Longrightarrow> \<not> tl_stop s \<Longrightarrow> length (tl_queue s) < unat (tl_max s) \<Longrightarrow> tl_entered s = [] \<Longrightarrow> tl_worker s \<noteq> K_Parked \<Longrightarrow>
  lstep\<^sup>*\<^sup>* s (s\<lparr>tl_queue := tl_queue s @ [t], tl_accepted := tl_accepted s @ [t]\<rparr>)"
proof -
  assume a: "\<not> tl_error s" "\<not> tl_stop s" "length (tl_queue s) < unat (tl_max s)" "tl_entered s = []" "tl_worker s \<noteq> K_Parked"
  let ?s1 = "s\<lparr>tl_entered := [t]\<rparr>"
  have "lstep s ?s1" by (rule lstep.enter [where t = t and res = None]) (simp add: log_enter_def a)
  moreover have "lstep ?s1 (s\<lparr>tl_queue := tl_queue s @ [t], tl_accepted := tl_accepted s @ [t]\<rparr>)"
    by (rule lstep.locked [where t = t and alloc = True and ok = True]) (use a in \<open>simp_all add: log_locked_def cv_notify_one_def Let_def\<close>)
  ultimately show ?thesis by simp
qed


lemma wake_one:
  assumes "tl_worker s = K_Wait" "\<not> tl_error s" "tl_queue s = t # ts"
  shows "lstep s (s\<lparr>tl_queue := ts, tl_worker := K_Write t\<rparr>)"
proof -
  have "s\<lparr>tl_queue := ts, tl_worker := K_Write t\<rparr> = worker_wake s" using assms by (simp add: worker_wake_def inner_loop_def)
  then show ?thesis using lstep.work [OF worker_step.wake [OF assms(1)]] by simp
qed

lemma stop_one: "tl_stopper s = T_None \<Longrightarrow> \<not> tl_stopped s \<Longrightarrow> tl_worker s \<noteq> K_Parked \<Longrightarrow>
  lstep\<^sup>*\<^sup>* s (s\<lparr>tl_stopped := True, tl_stop := True, tl_stopper := T_Join\<rparr>)"
proof -
  assume a: "tl_stopper s = T_None" "\<not> tl_stopped s" "tl_worker s \<noteq> K_Parked"
  have "lstep\<^sup>*\<^sup>* s (stop_claim s)" by (rule r_into_rtranclp [of lstep, OF lstep.claim])
  also have "lstep (stop_claim s) (stop_mark (stop_claim s))" by (rule lstep.mark) (simp add: stop_claim_def a)
  also have "lstep (stop_mark (stop_claim s)) (stop_notify (stop_mark (stop_claim s)))" by (rule lstep.notify) (simp add: stop_mark_def)
  finally show ?thesis by (simp add: stop_claim_def stop_mark_def stop_notify_def cv_notify_one_def a)
qed

text \<open>A trade is logged, and the logger is told to stop.\<close>

definition ex_stopping :: tlog where
  "ex_stopping = ex_logger\<lparr>tl_queue := [ex_trade 1], tl_accepted := [ex_trade 1], tl_stopped := True, tl_stop := True, tl_stopper := T_Join\<rparr>"

lemma ex_stopping_reach: "lstep\<^sup>*\<^sup>* ex_logger ex_stopping"
proof -
  let ?s1 = "ex_logger\<lparr>tl_queue := [ex_trade 1], tl_accepted := [ex_trade 1]\<rparr>"
  have "lstep\<^sup>*\<^sup>* ex_logger ?s1" using log_one [of ex_logger "ex_trade 1"] by (simp add: ex_logger_def)
  moreover have "lstep\<^sup>*\<^sup>* ?s1 ex_stopping" using stop_one [of ?s1] by (simp add: ex_logger_def ex_stopping_def)
  ultimately show ?thesis by (rule rtranclp_trans)
qed

definition ex_finished :: tlog where
  "ex_finished = ex_stopping\<lparr>tl_queue := [], tl_worker := K_Exit, tl_written := [ex_trade 1], tl_disk := [9] @ BinaryTrade (ex_trade 1), tl_stopper := T_Done\<rparr>"

lemma ex_finished_reach: "lstep\<^sup>*\<^sup>* ex_logger ex_finished"
proof -
  let ?s1 = "ex_stopping\<lparr>tl_queue := [], tl_worker := K_Write (ex_trade 1)\<rparr>"
  let ?s2 = "worker_write (Sunk 7) (ex_trade 1) ?s1"
  let ?s3 = "inner_loop ?s2"
  have s3: "?s3 = ?s2\<lparr>tl_worker := K_Exit\<rparr>" by (simp add: worker_write_def inner_loop_def inner_done_def ex_stopping_def ex_logger_def Let_def)
  note ex_stopping_reach
  also have "lstep ex_stopping ?s1" by (rule wake_one) (simp_all add: ex_stopping_def ex_logger_def)
  also have "lstep ?s1 ?s2" by (rule lstep.work [OF worker_step.put]) simp
  also have "lstep ?s2 ?s3" by (rule lstep.work [OF worker_step.relock]) (simp add: worker_write_def ex_stopping_def ex_logger_def Let_def)
  also have "lstep ?s3 (?s3\<lparr>tl_stopper := T_Flush\<rparr>)"
    by (rule lstep.join) (simp_all add: s3 join_worker_def, simp add: worker_write_def ex_stopping_def ex_logger_def Let_def)
  also have "lstep (?s3\<lparr>tl_stopper := T_Flush\<rparr>) (flush_file (Sunk 0) (?s3\<lparr>tl_stopper := T_Flush\<rparr>))" by (rule lstep.flush) simp
  also have "flush_file (Sunk 0) (?s3\<lparr>tl_stopper := T_Flush\<rparr>) = ex_finished"
    unfolding s3 by (simp add: flush_file_def worker_write_def ex_finished_def ex_stopping_def ex_logger_def Let_def)
  finally show ?thesis .
qed

lemma ilog2_201: "ilog2 (201 / 2) = 6"
proof -
  have "ilog2 (201 / 2) < 7" by (rule ilog2_le) simp_all
  moreover have "6 \<le> ilog2 (201 / 2)" by (rule ilog2_ge) simp
  ultimately show ?thesis by simp
qed

lemma ex_trade_ok: "trade_ok (ex_trade i)"
proof -
  have e: "ulp_exponent (201 / 2) = -46" by (simp add: ulp_exponent_def ilog2_201)
  have "(201 / 2 :: rat) / 2 powi (-46) = of_int (201 * 2 ^ 45)" by (simp add: power_int_minus)
  then have "(201 / 2 :: rat) / 2 powi (-46) \<in> \<int>" by (metis Ints_of_int)
  moreover have "(201 / 2 :: rat) < 2 powi 1024"
  proof -
    have "(2 :: rat) powi 7 \<le> 2 powi 1024" by (rule power_int_increasing) simp_all
    then show ?thesis by simp
  qed
  ultimately have "binary64 (201 / 2)" unfolding binary64_def e by simp
  then show ?thesis unfolding trade_ok_def by (intro conjI exI [of _ "201 / 2"]) (simp_all add: ex_trade_def in_i64_def)
qed

theorem trade_log_faithful_witness:
  "TradeLogger True [9] ''t'' 2 = Inr ex_logger \<and> lstep\<^sup>*\<^sup>* ex_logger ex_finished \<and>
   tl_disk ex_finished = [9] @ BinaryTrade (ex_trade 1) \<and> readLog 1 (drop 1 (tl_disk ex_finished)) = [ex_trade 1]"
  using trade_log_faithful [OF ex_logger_new ex_finished_reach] ex_logger_new ex_finished_reach ex_trade_ok
  by (simp add: ex_finished_def ex_stopping_def ex_logger_def)

subsection \<open>Stopping\<close>

definition good_work :: "tlog \<Rightarrow> tlog \<Rightarrow> bool" where
  "good_work s s' \<longleftrightarrow> (\<exists>k. worker_step (Sunk k) s s')"

definition log_work :: "tlog \<Rightarrow> nat" where
  "log_work s = 2 * length (tl_queue s) + (case tl_worker s of K_Wait \<Rightarrow> 1 | K_Parked \<Rightarrow> 0 | K_Write _ \<Rightarrow> 2 | K_Relock \<Rightarrow> 1 | K_Broke \<Rightarrow> 1 | K_Exit \<Rightarrow> 0)"

definition stopping :: "tlog \<Rightarrow> tlog \<Rightarrow> bool" where
  "stopping s0 s \<longleftrightarrow> tl_good s \<and> tl_stop s \<and> tl_stopper s = T_Join \<and> tl_accepted s = tl_accepted s0"

lemma good_work_step:
  assumes "good_work s s'" "linv base s" "stopping s0 s"
  shows "linv base s'" "stopping s0 s'" "log_work s' < log_work s"
proof -
  obtain k where w: "worker_step (Sunk k) s s'" using assms(1) by (auto simp: good_work_def)
  show "linv base s'" using w assms(2) by (rule worker_step_inv)
  have e: "\<not> tl_error s" "tl_good s" "tl_stop s" using assms(2,3) by (auto simp: linv_def log_errors_def stopping_def)
  have loop: "stopping s0 (inner_loop s)" "log_work (inner_loop s) < 2 * length (tl_queue s) + 1"
    using assms(3) e by (auto simp: stopping_def log_work_def inner_loop_def inner_done_def split: list.splits)
  from w have "stopping s0 s' \<and> log_work s' < log_work s"
  proof cases
    case wake
    then have "s' = inner_loop s" using e(3) by (simp add: worker_wake_def)
    then show ?thesis using loop wake by (simp add: log_work_def)
  next
    case (put t)
    then show ?thesis using assms(3) e by (simp add: stopping_def log_work_def worker_write_def Let_def)
  next
    case relock
    then show ?thesis using loop by (simp add: log_work_def)
  next
    case broke
    then show ?thesis using assms(2) e by (simp add: linv_def log_errors_def)
  qed
  then show "stopping s0 s'" "log_work s' < log_work s" by auto
qed

lemma good_work_enabled:
  assumes "linv base s" "stopping s0 s" "tl_worker s \<noteq> K_Exit"
  shows "\<exists>s'. good_work s s'"
proof -
  have "tl_worker s \<noteq> K_Parked" using assms(1,2) by (auto simp: linv_def log_parked_def stopping_def)
  then show ?thesis
    unfolding good_work_def using assms(3) by (cases "tl_worker s") (blast intro: worker_step.intros)+
qed

interpretation tw: terminating good_work "\<lambda>s. linv base s \<and> stopping s0 s" "\<lambda>s. tl_worker s = K_Exit" log_work for base s0
  by unfold_locales (use good_work_step good_work_enabled in blast)+

text \<open>
  C32. Stopping returns and loses nothing: once \<open>stop\<close> waits for the worker and while writes succeed, every run of the worker takes at most
  \<open>2 * n + 2\<close> steps for \<open>n\<close> queued trades and is never stuck before it exits, in particular not asleep on the condition variable (the
  notifications of \<open>log\<close> and \<open>stop\<close> are never lost); then the join and the flush complete, and
  every trade accepted before is written.
\<close>

theorem trade_log_stop_returns:
  assumes "TradeLogger opened contents filename sz = Inr s0" "lstep\<^sup>*\<^sup>* s0 s" "tl_stopper s = T_Join" "tl_stop s" "tl_good s"
  shows "(\<forall>n s'. (good_work ^^ n) s s' \<longrightarrow> n \<le> 2 * length (tl_queue s) + 2 \<and> (tl_worker s' \<noteq> K_Exit \<longrightarrow> (\<exists>s''. good_work s' s''))) \<and>
    (\<exists>s'. lstep\<^sup>*\<^sup>* s s' \<and> tl_stopper s' = T_Done \<and> tl_written s' = tl_accepted s)"
proof -
  have I: "linv contents s" using reachable_linv [OF assms(1,2)] .
  have S: "stopping s s" using assms by (simp add: stopping_def)
  have b: "log_work s \<le> 2 * length (tl_queue s) + 2" by (cases "tl_worker s") (simp_all add: log_work_def)
  have "n \<le> 2 * length (tl_queue s) + 2 \<and> (tl_worker s' \<noteq> K_Exit \<longrightarrow> (\<exists>s''. good_work s' s''))" if "(good_work ^^ n) s s'" for n s'
    using tw.bounded_run [OF conjI [OF I S] that] b good_work_enabled by fastforce
  then have A: "\<forall>n s'. (good_work ^^ n) s s' \<longrightarrow> n \<le> 2 * length (tl_queue s) + 2 \<and> (tl_worker s' \<noteq> K_Exit \<longrightarrow> (\<exists>s''. good_work s' s''))" by blast
  obtain s' where s': "good_work\<^sup>*\<^sup>* s s'" "linv contents s'" "stopping s s'" "tl_worker s' = K_Exit"
    using tw.finishes [OF conjI [OF I S]] by blast
  have "lstep\<^sup>*\<^sup>* s s'" using s'(1) by (induction) (auto simp: good_work_def intro: lstep.work rtranclp.rtrancl_into_rtrancl)
  also have "lstep s' (s'\<lparr>tl_stopper := T_Flush\<rparr>)" by (rule lstep.join) (use s' in \<open>simp_all add: stopping_def join_worker_def\<close>)
  also have "lstep (s'\<lparr>tl_stopper := T_Flush\<rparr>) (flush_file (Sunk 0) (s'\<lparr>tl_stopper := T_Flush\<rparr>))" by (rule lstep.flush) simp
  finally have "\<exists>s'. lstep\<^sup>*\<^sup>* s s' \<and> tl_stopper s' = T_Done \<and> tl_written s' = tl_accepted s"
    using s'(2,3,4) by (intro exI [of _ "flush_file (Sunk 0) (s'\<lparr>tl_stopper := T_Flush\<rparr>)"]) (auto simp: flush_file_def linv_def linv_defs stopping_def)
  then show ?thesis using A by blast
qed

theorem trade_log_stop_returns_witness:
  "lstep\<^sup>*\<^sup>* ex_logger ex_stopping \<and> tl_queue ex_stopping = [ex_trade 1] \<and>
   (\<exists>s'. lstep\<^sup>*\<^sup>* ex_stopping s' \<and> tl_stopper s' = T_Done \<and> tl_written s' = [ex_trade 1])"
  using trade_log_stop_returns [OF ex_logger_new ex_stopping_reach] ex_stopping_reach by (simp add: ex_stopping_def ex_logger_def)

subsection \<open>A write error with trades in the queue\<close>

definition spinning :: "tlog \<Rightarrow> bool" where
  "spinning s \<longleftrightarrow> tl_error s \<and> tl_queue s \<noteq> [] \<and> tl_worker s \<in> {K_Wait, K_Broke} \<and> tl_stopper s \<notin> {T_Flush, T_Done}"

lemma lstep_spinning: "lstep s s' \<Longrightarrow> spinning s \<Longrightarrow> spinning s'"
proof (induction rule: lstep.induct)
  case (work w s s')
  then show ?case
    by (induction rule: worker_step.induct) (auto simp: spinning_def worker_wake_def inner_loop_def inner_done_def split: if_splits list.splits)
next
  case (locked t s alloc ok s')
  then show ?case by (auto simp: spinning_def log_locked_def cv_notify_one_def Let_def split: if_splits)
qed (auto simp: spinning_def log_enter_def stop_claim_def stop_mark_def stop_notify_def cv_notify_one_def join_worker_def split: if_splits)

text \<open>
  C38. A write error with trades still queued traps the worker: its loop leaves neither through the error, which wants an empty
  queue, nor through \<open>stop\<close>, and nothing removes a trade any more. From then on, whatever the threads do, the worker
  never ends and \<open>stop\<close> (hence the destructor) never returns from its join.
\<close>

theorem trade_log_error_traps:
  assumes "TradeLogger opened contents filename sz = Inr s0" "lstep\<^sup>*\<^sup>* s0 s" "hasError s" "tl_queue s \<noteq> []" "tl_worker s \<noteq> K_Exit" "lstep\<^sup>*\<^sup>* s s'"
  shows "tl_worker s' \<noteq> K_Exit \<and> tl_stopper s' \<noteq> T_Flush \<and> tl_stopper s' \<noteq> T_Done"
proof -
  have "spinning s"
    using reachable_linv [OF assms(1,2)] assms(3-5) by (auto simp: spinning_def hasError_def linv_def log_errors_def log_stops_def)
  with assms(6) have "spinning s'" by (induction) (simp_all add: lstep_spinning)
  then show ?thesis by (auto simp: spinning_def)
qed

definition ex_failed :: tlog where
  "ex_failed = ex_logger\<lparr>tl_queue := [ex_trade 2], tl_accepted := [ex_trade 1, ex_trade 2], tl_good := False, tl_error := True,
     tl_worker := K_Broke, tl_lost := [ex_trade 1]\<rparr>"

lemma ex_failed_reach: "lstep\<^sup>*\<^sup>* ex_logger ex_failed"
proof -
  let ?s1 = "ex_logger\<lparr>tl_queue := [ex_trade 1], tl_accepted := [ex_trade 1]\<rparr>"
  let ?s2 = "ex_logger\<lparr>tl_accepted := [ex_trade 1], tl_worker := K_Write (ex_trade 1)\<rparr>"
  let ?s3 = "?s2\<lparr>tl_queue := [ex_trade 2], tl_accepted := [ex_trade 1, ex_trade 2]\<rparr>"
  have "lstep\<^sup>*\<^sup>* ex_logger ?s1" using log_one [of ex_logger "ex_trade 1"] by (simp add: ex_logger_def)
  also have "lstep ?s1 ?s2" using wake_one [of ?s1 "ex_trade 1" "[]"] by (simp add: ex_logger_def)
  finally have "lstep\<^sup>*\<^sup>* ex_logger ?s2" .
  also have "lstep\<^sup>*\<^sup>* ?s2 ?s3" using log_one [of ?s2 "ex_trade 2"] by (simp add: ex_logger_def)
  finally have "lstep\<^sup>*\<^sup>* ex_logger ?s3" .
  also have "lstep ?s3 (worker_write (Broken 0 []) (ex_trade 1) ?s3)" by (rule lstep.work [OF worker_step.put]) simp
  finally show ?thesis by (simp add: worker_write_def ex_failed_def ex_logger_def Let_def)
qed

theorem trade_log_error_traps_witness:
  "lstep\<^sup>*\<^sup>* ex_logger ex_failed \<and> hasError ex_failed \<and> tl_queue ex_failed = [ex_trade 2] \<and> \<not> (\<exists>s'. lstep\<^sup>*\<^sup>* ex_failed s' \<and> tl_worker s' = K_Exit)"
  using trade_log_error_traps [OF ex_logger_new ex_failed_reach] ex_failed_reach by (auto simp add: ex_failed_def ex_logger_def hasError_def)

end
