(* ===== verification/Demo.thy ===== *)
theory Demo
  imports Matching_Engine Decimal
begin

text \<open>
  The demonstration program (\<open>src/main.cpp\<close>) and the printing it uses: \<open>Order::to_string\<close>,
  \<open>Trade::to_string\<close>, \<open>OrderBook::printBook\<close>, \<open>std::to_string\<close> and the output of a
  \<open>double\<close> on a stream. What a run prints is one string. A \<open>double\<close> has one zero in the model, so
  a negative zero prints as zero, and the sign bit of a NaN is not shown.
\<close>

section \<open>Definitions\<close>

subsection \<open>Numbers\<close>

text \<open>The digits of \<open>m / 10 ^ d\<close> with \<open>d\<close> places after the point.\<close>

definition fixed_digits :: "nat \<Rightarrow> int \<Rightarrow> string" where
  "fixed_digits d m = to_string (m div 10 ^ d) @
     (if d = 0 then [] else
        let s = to_string (m mod 10 ^ d) in CHR ''.'' # replicate (d - length s) CHR ''0'' @ s)"

definition show_sign :: "rat \<Rightarrow> string" where
  "show_sign x = (if x < 0 then ''-'' else [])"

text \<open>\<open>std::to_string(double)\<close>: the conversion \<open>%f\<close>, six places, ties to even.\<close>

fun to_string_double :: "double \<Rightarrow> string" where
  "to_string_double (Fin x) = show_sign x @ fixed_digits 6 (round_even (\<bar>x\<bar> * 10 ^ 6))"
| "to_string_double PInf = ''inf''"
| "to_string_double NInf = ''-inf''"
| "to_string_double NaN = ''nan''"

text \<open>
  A \<open>double\<close> on a stream: the conversion \<open>%g\<close> with six significant digits, without the zeros behind the last
  digit; the scientific form outside the exponents from -4 to 5.
\<close>

definition ilog10 :: "rat \<Rightarrow> int" where
  "ilog10 x = (let (n, d) = quotient_of x; k = int (length (to_string n)) - int (length (to_string d))
     in if x < 10 powi k then k - 1 else k)"

definition strip_zeros :: "string \<Rightarrow> string" where
  "strip_zeros s =
     (if CHR ''.'' \<in> set s then
        let r = dropWhile (\<lambda>c. c = CHR ''0'') (rev s)
        in rev (if r \<noteq> [] \<and> hd r = CHR ''.'' then tl r else r)
      else s)"

definition six_digits :: "rat \<Rightarrow> int \<times> int" where
  "six_digits x = (let e = ilog10 x; m = round_even (x / 10 powi (e - 5))
     in if m = 10 ^ 6 then (10 ^ 5, e + 1) else (m, e))"

definition show_exponent :: "int \<Rightarrow> string" where
  "show_exponent e = (let s = to_string \<bar>e\<bar>
     in (if e < 0 then ''e-'' else ''e+'') @ replicate (2 - length s) CHR ''0'' @ s)"

fun stream_double :: "double \<Rightarrow> string" where
  "stream_double (Fin x) =
     (if x = 0 then ''0'' else
        case six_digits \<bar>x\<bar> of (m, e) \<Rightarrow>
          show_sign x @
          (if -4 \<le> e \<and> e < 6 then strip_zeros (fixed_digits (nat (5 - e)) m)
           else strip_zeros (fixed_digits 5 m) @ show_exponent e))"
| "stream_double PInf = ''inf''"
| "stream_double NInf = ''-inf''"
| "stream_double NaN = ''nan''"

subsection \<open>Orders, trades and the book\<close>

definition order_to_string :: "order \<Rightarrow> string" where
  "order_to_string ord = ''Order['' @ to_string (uint (order_id ord)) @ ''] '' @
     (if side ord = BUY then ''BUY'' else ''SELL'') @ '' '' @ to_string (uint (remaining_quantity ord)) @
     ''@'' @ to_string_double (price ord)"

definition trade_to_string :: "trade \<Rightarrow> string" where
  "trade_to_string t = ''Trade['' @ to_string (uint (trade_id t)) @ ''] '' @ to_string (uint (trade_quantity t)) @
     '' @ '' @ to_string_double (trade_price t) @ '' (Buy:'' @ to_string (uint (buy_order_id t)) @
     '', Sell:'' @ to_string (uint (sell_order_id t)) @ '')''"

definition line :: "string \<Rightarrow> string" where
  "line s = s @ [CHR 0x0A]"

definition print_levels :: "level list \<Rightarrow> string" where
  "print_levels ls = concat (map (\<lambda>l. concat (map (\<lambda>x.
     if 0 < remaining_quantity x then line (''  '' @ order_to_string x) else []) (lv_orders l))) ls)"

definition printBook :: "book \<Rightarrow> string" where
  "printBook b = line [] @ line ''=== ORDER BOOK ==='' @ line ''BIDS (Buy Orders):'' @ print_levels (bids b) @
     line ''ASKS (Sell Orders):'' @ print_levels (asks b) @ line ''=================='' @ line []"

subsection \<open>The program\<close>

text \<open>
  An order is constructed and processed; \<open>now\<close> is the clock its constructor reads. An exception of either
  would end the program.
\<close>

definition enter :: "i64 \<Rightarrow> env \<Rightarrow> u64 \<Rightarrow> u64 \<Rightarrow> order_side \<Rightarrow> order_type \<Rightarrow> double \<Rightarrow> u32 \<Rightarrow> engine \<Rightarrow>
    exn + trade list \<times> engine" where
  "enter now v oid tid s t p qty e =
     (case Order now oid tid s t p qty 0 of
        Inl ex \<Rightarrow> Inl ex
      | Inr ord \<Rightarrow> (case processOrder v ord e of (Inl ex, _, _) \<Rightarrow> Inl ex | (Inr ts, _, e') \<Rightarrow> Inr (ts, e')))"

definition print_trades :: "trade list \<Rightarrow> string" where
  "print_trades ts = concat (map (\<lambda>t. line (''  '' @ trade_to_string t)) ts)"

text \<open>The clocks of the \<open>i\<close>-th order are \<open>now i\<close> and \<open>v i\<close>.\<close>

definition demo_main :: "nat \<Rightarrow> (nat \<Rightarrow> i64) \<Rightarrow> (nat \<Rightarrow> env) \<Rightarrow> exn + string" where
  "demo_main capacity now v =
     (case enter (now 1) (v 1) 1 1001 BUY LIMIT (Fin (201 / 2)) 100 (MatchingEngine capacity) of
        Inl ex \<Rightarrow> Inl ex
      | Inr (ts1, e1) \<Rightarrow>
     (case enter (now 2) (v 2) 2 2001 SELL LIMIT (Fin (201 / 2)) 50 e1 of
        Inl ex \<Rightarrow> Inl ex
      | Inr (ts2, e2) \<Rightarrow>
     (case enter (now 3) (v 3) 3 2002 SELL LIMIT (Fin (201 / 2)) 60 e2 of
        Inl ex \<Rightarrow> Inl ex
      | Inr (ts3, e3) \<Rightarrow>
     (case eng_cancelOrder (v 4) 3 e3 of
        (cancelled, e4) \<Rightarrow>
     (case enter (now 5) (v 5) 4 2003 SELL LIMIT (Fin 101) 30 e4 of
        Inl ex \<Rightarrow> Inl ex
      | Inr (_, e5) \<Rightarrow>
     (case enter (now 6) (v 6) 5 1005 BUY MARKET (Fin 0) 20 e5 of
        Inl ex \<Rightarrow> Inl ex
      | Inr (ts6, e6) \<Rightarrow>
          Inr (line ''=== Low Latency Trading Engine - Basic Test ==='' @ line [] @
            line ''After adding BUY 100 @ 100.50:'' @ printBook (eng_book e1) @
            line (''Trades: '' @ to_string (int (length ts1))) @ line [] @
            line ''After adding SELL 50 @ 100.50:'' @ printBook (eng_book e2) @
            line ''Trades executed:'' @ print_trades ts2 @ line [] @
            line ''After adding SELL 60 @ 100.50:'' @ printBook (eng_book e3) @
            line ''Trades executed:'' @ print_trades ts3 @ line [] @
            line (''Best Bid: '' @ stream_double (getBestBid (eng_book e3))) @
            line (''Best Ask: '' @ stream_double (getBestAsk (eng_book e3))) @
            line (''Total orders in book: '' @ to_string (int (getOrderCount (eng_book e3)))) @ line [] @
            line (''Cancel order 3: '' @ (if cancelled then ''Success'' else ''Failed'')) @ printBook (eng_book e4) @
            line ''Market BUY 20:'' @ print_trades ts6 @ printBook (eng_book e6))))))))"

section \<open>Lemmas\<close>

subsection \<open>Printed numbers read back\<close>

text \<open>A number with a point, and perhaps a sign, as a value.\<close>

definition read_fixed :: "string \<Rightarrow> rat" where
  "read_fixed s = of_int (read_digits (takeWhile (\<lambda>c. c \<noteq> CHR ''.'') s)) +
     (let f = tl (dropWhile (\<lambda>c. c \<noteq> CHR ''.'') s) in of_int (read_digits f) / 10 ^ length f)"

definition read_signed :: "string \<Rightarrow> rat" where
  "read_signed s = (if take 1 s = ''-'' then - read_fixed (tl s) else read_fixed s)"

lemma digit_not_punct: "is_digit c \<Longrightarrow> c \<noteq> CHR ''.'' \<and> c \<noteq> CHR ''-''"
  by (auto simp: is_digit_def)

lemma read_fixed_digits:
  assumes m: "0 \<le> m" and d: "0 < d"
  shows "read_fixed (fixed_digits d m) = of_int m / 10 ^ d"
proof -
  let ?a = "to_string (m div 10 ^ d)" and ?b = "to_string (m mod 10 ^ d)"
  have A: "read_digits ?a = m div 10 ^ d" "list_all is_digit ?a"
    using to_string_digits [of "m div 10 ^ d"] m by (simp_all add: pos_imp_zdiv_nonneg_iff)
  have B: "read_digits ?b = m mod 10 ^ d" "length ?b \<le> d"
    using to_string_digits [of "m mod 10 ^ d"] length_to_string [of "m mod 10 ^ d" d] d by simp_all
  have p: "c \<noteq> CHR ''.''" if "c \<in> set ?a" for c using A(2) that digit_not_punct by (auto simp: list_all_iff)
  have "read_fixed (fixed_digits d m) = of_int (m div 10 ^ d) + of_int (m mod 10 ^ d) / 10 ^ d"
    using A(1) B p d by (simp add: read_fixed_def fixed_digits_def Let_def read_zeros takeWhile_append2 dropWhile_append2)
  also have "\<dots> = (of_int (m div 10 ^ d * 10 ^ d) + of_int (m mod 10 ^ d)) / 10 ^ d"
    by (simp add: add_divide_distrib)
  also have "\<dots> = of_int m / 10 ^ d" by (simp only: of_int_add [symmetric] div_mult_mod_eq)
  finally show ?thesis .
qed

text \<open>
  \<open>std::to_string\<close> of a finite price is read back as the nearest multiple of a millionth; a price that is a multiple of a
  millionth, as every tick price is, is read back as it was.
\<close>

theorem to_string_double_nearest:
  "\<bar>read_signed (to_string_double (Fin x)) - x\<bar> \<le> 1 / 2 / 10 ^ 6 \<and>
   (x * 10 ^ 6 \<in> \<int> \<longrightarrow> read_signed (to_string_double (Fin x)) = x)"
proof -
  define m where "m = round_even (\<bar>x\<bar> * 10 ^ 6)"
  have m: "\<bar>of_int m - \<bar>x\<bar> * 10 ^ 6\<bar> \<le> 1 / 2" unfolding m_def by (rule round_even_error)
  moreover have "0 \<le> \<bar>x\<bar> * 10 ^ 6" by simp
  ultimately have "- 1 < (of_int m :: rat)" by linarith
  then have "0 \<le> m" by linarith
  then have v: "read_fixed (fixed_digits 6 m) = of_int m / 10 ^ 6" by (intro read_fixed_digits) simp_all
  have "take 1 (fixed_digits 6 m) \<noteq> ''-''"
    using to_string_digits [of "m div 10 ^ 6"] \<open>0 \<le> m\<close> digit_not_punct
    by (cases "to_string (m div 10 ^ 6)") (auto simp: fixed_digits_def Let_def pos_imp_zdiv_nonneg_iff)
  moreover have "to_string_double (Fin x) = show_sign x @ fixed_digits 6 m"
    by (simp only: to_string_double.simps m_def)
  ultimately have r: "read_signed (to_string_double (Fin x)) = (if x < 0 then - (of_int m / 10 ^ 6) else of_int m / 10 ^ 6)"
    using v by (simp add: read_signed_def show_sign_def)
  define y where "y = read_signed (to_string_double (Fin x))"
  have y: "\<bar>y - x\<bar> = \<bar>of_int m - \<bar>x\<bar> * 10 ^ 6\<bar> / 10 ^ 6"
    unfolding y_def r by (simp add: field_simps abs_if)
  have e: "of_int m = \<bar>x\<bar> * 10 ^ 6" if i: "x * 10 ^ 6 \<in> \<int>"
  proof -
    have "\<bar>x\<bar> * 10 ^ 6 = \<bar>x * 10 ^ 6\<bar>" by (simp add: abs_mult)
    then have "\<bar>x\<bar> * 10 ^ 6 \<in> \<int>" using i by (simp only: Ints_abs)
    then obtain k where "\<bar>x\<bar> * 10 ^ 6 = of_int k" by (rule Ints_cases)
    then show ?thesis by (simp only: m_def round_even_of_int)
  qed
  have "\<bar>y - x\<bar> \<le> 1 / 2 / 10 ^ 6" unfolding y using m by (intro divide_right_mono) simp_all
  moreover have "y = x" if "x * 10 ^ 6 \<in> \<int>"
  proof -
    have "\<bar>y - x\<bar> = 0" unfolding y e [OF that] by simp
    then show ?thesis by simp
  qed
  ultimately show ?thesis unfolding y_def by blast
qed

subsection \<open>The book and the program\<close>

text \<open>\<open>printBook\<close> shows the orders of a side that have something left, one line each, in matching order.\<close>

lemma print_levels_orders:
  "print_levels ls = concat (map (\<lambda>x. line (''  '' @ order_to_string x)) (filter (\<lambda>x. 0 < remaining_quantity x) (all_orders ls)))"
proof (induction ls)
  case (Cons l ls)
  have "concat (map (\<lambda>x. if 0 < remaining_quantity x then line (''  '' @ order_to_string x) else []) xs) =
      concat (map (\<lambda>x. line (''  '' @ order_to_string x)) (filter (\<lambda>x. 0 < remaining_quantity x) xs))" for xs
    by (induction xs) auto
  then show ?case using Cons by (simp add: print_levels_def)
qed (simp add: print_levels_def)

text \<open>
  The program ends without an exception and prints the three books its comments announce, the three trades, the best prices,
  the cancellation and the last book, whatever the clocks show. The default book has room for 2000000 orders; one is enough.
\<close>

definition demo_output :: "string list" where
  "demo_output =
    [''=== Low Latency Trading Engine - Basic Test ==='', [],
     ''After adding BUY 100 @ 100.50:'', [], ''=== ORDER BOOK ==='', ''BIDS (Buy Orders):'',
     ''  Order[1] BUY 100@100.500000'', ''ASKS (Sell Orders):'', ''=================='', [], ''Trades: 0'', [],
     ''After adding SELL 50 @ 100.50:'', [], ''=== ORDER BOOK ==='', ''BIDS (Buy Orders):'',
     ''  Order[1] BUY 50@100.500000'', ''ASKS (Sell Orders):'', ''=================='', [], ''Trades executed:'',
     ''  Trade[1] 50 @ 100.500000 (Buy:1, Sell:2)'', [],
     ''After adding SELL 60 @ 100.50:'', [], ''=== ORDER BOOK ==='', ''BIDS (Buy Orders):'', ''ASKS (Sell Orders):'',
     ''  Order[3] SELL 10@100.500000'', ''=================='', [], ''Trades executed:'',
     ''  Trade[2] 50 @ 100.500000 (Buy:1, Sell:3)'', [],
     ''Best Bid: 0'', ''Best Ask: 100.5'', ''Total orders in book: 1'', [],
     ''Cancel order 3: Success'', [], ''=== ORDER BOOK ==='', ''BIDS (Buy Orders):'', ''ASKS (Sell Orders):'',
     ''=================='', [],
     ''Market BUY 20:'', ''  Trade[3] 20 @ 101.000000 (Buy:5, Sell:4)'', [], ''=== ORDER BOOK ==='',
     ''BIDS (Buy Orders):'', ''ASKS (Sell Orders):'', ''  Order[4] SELL 10@101.000000'', ''=================='', []]"

lemma demo_main_room: "demo_main (Suc n) now v = Inr (concat (map line demo_output))"
  by code_simp

theorem demo_main_prints: "demo_main 2000000 now v = Inr (concat (map line demo_output))"
proof -
  have "(2000000 :: nat) = Suc 1999999" by simp
  then show ?thesis by (simp only: demo_main_room)
qed

end
